(* ===== verification/Bytes_Prelude.thy ===== *)
theory Bytes_Prelude
  imports Main "HOL-Library.Word"
begin

section \<open>Bytes, machine words and the vocabulary shared by every component\<close>

text \<open>
  The C and C++ sources manipulate buffers of bytes and unsigned integers of 8, 32 and 64
  bits. A buffer (a \<open>std::string\<close>, a \<open>Slice\<close>, the range between two pointers) is a list
  of bytes; an integer whose width matters is a word of that width, so that \<open>+\<close>, \<open>-\<close> and
  \<open>*\<close> wrap around as in C; a \<open>size_t\<close> that only counts the bytes of a buffer is a natural
  number, and a cast of such a count to \<open>uint32_t\<close> is written out as \<open>word_of_nat\<close>.
  This theory holds the types, the collections of simplification rules the components add
  to, and the generic facts on lists and words they share.
\<close>

unbundle bit_operations_syntax

type_synonym byte = "8 word"
type_synonym bytes = "byte list"
type_synonym u16 = "16 word"
type_synonym u32 = "32 word"
type_synonym u64 = "64 word"

named_theorems codec_simps \<open>decoding what an encoder has written\<close>
named_theorems width_simps \<open>lengths of encodings\<close>

subsection \<open>C strings\<close>

text \<open>A string literal of the sources, as the bytes it denotes.\<close>

definition cstr :: "string \<Rightarrow> bytes" where
  "cstr s = map (\<lambda>c. word_of_nat (of_char c)) s"

lemma length_cstr [simp, width_simps]: "length (cstr s) = length s"
  by (simp add: cstr_def)

lemma cstr_Nil [simp]: "cstr [] = []"
  by (simp add: cstr_def)

lemma cstr_Cons: "cstr (c # s) = word_of_nat (of_char c) # cstr s"
  by (simp add: cstr_def)

lemma cstr_append: "cstr (s @ t) = cstr s @ cstr t"
  by (simp add: cstr_def)

subsection \<open>Conversions of the C library\<close>

text \<open>\<open>printf\<close> of an integer: the decimal digits without leading zeros, the digits of a signed
  integer, padding on the left with zeros to a width, two hexadecimal digits of a byte.\<close>

fun decimal :: "nat \<Rightarrow> bytes" where
  "decimal n = (if n < 10 then [word_of_nat (48 + n)] else decimal (n div 10) @ [word_of_nat (48 + n mod 10)])"

declare decimal.simps [simp del]

definition signed_decimal :: "int \<Rightarrow> bytes" where
  "signed_decimal i = (if i < 0 then 0x2D # decimal (nat (- i)) else decimal (nat i))"

definition zero_pad :: "nat \<Rightarrow> bytes \<Rightarrow> bytes" where
  "zero_pad w s = replicate (w - length s) 48 @ s"

definition hex_digit :: "nat \<Rightarrow> byte" where
  "hex_digit n = (if n < 10 then word_of_nat (48 + n) else word_of_nat (87 + n))"

definition hex2 :: "byte \<Rightarrow> bytes" where
  "hex2 c = [hex_digit (unat c div 16), hex_digit (unat c mod 16)]"

subsection \<open>Words\<close>

lemma or_disjoint_add:
  fixes a b :: "'a::len word"
  assumes "a AND b = 0"
  shows "a OR b = a + b"
  using assms by (simp add: disjunctive_add_eq_or)

lemma word_of_nat_length_u32 [simp]:
  "n < 2 ^ 32 \<Longrightarrow> unat (word_of_nat n :: u32) = n"
  by (simp add: unat_of_nat take_bit_nat_eq_self)

lemma word_of_nat_length_u64 [simp]:
  "n < 2 ^ 64 \<Longrightarrow> unat (word_of_nat n :: u64) = n"
  by (simp add: unat_of_nat take_bit_nat_eq_self)

lemma unat_u8_less: "unat (b :: byte) < 256"
  using unsigned_less [of b] by simp

lemma bit_128 [simp]: "bit (128 :: 'a::len word) n \<longleftrightarrow> n = 7 \<and> 7 < LENGTH('a)"
  using bit_exp_iff [of 7 n, where 'a = "'a word"] by (auto simp: possible_bit_word)

lemma bit_128_int [simp]: "bit (128 :: int) n \<longleftrightarrow> n = 7"
  using bit_exp_iff [of 7 n, where 'a = int] by auto

lemma bit_128_nat [simp]: "bit (128 :: nat) n \<longleftrightarrow> n = 7"
  using bit_exp_iff [of 7 n, where 'a = nat] by auto

lemma pow2_shift_7: "s + 7 \<le> w \<Longrightarrow> (2::nat) ^ (w - s) = 2 ^ (w - (s + 7)) * 128"
proof -
  assume "s + 7 \<le> w"
  then have "w - s = (w - (s + 7)) + 7" by simp
  then show ?thesis by (simp only: power_add) simp
qed

lemma mask_7: "(127 :: 'a::len word) = mask 7"
  by (simp add: mask_eq_exp_minus_1)

subsection \<open>Prefix codes\<close>

text \<open>
  Every wire format of the sources is read by a routine that takes a value off the front of
  a buffer and leaves the rest. The interface of such a reader and the writer it belongs to:
  on the values the writer accepts, reading what was written, followed by anything, returns
  the value and that rest.
\<close>

locale prefix_code =
  fixes enc :: "'a \<Rightarrow> bytes"
    and dec :: "bytes \<Rightarrow> ('a \<times> bytes) option"
    and acc :: "'a \<Rightarrow> bool"
  assumes dec_enc: "acc x \<Longrightarrow> dec (enc x @ rest) = Some (x, rest)"
begin

lemma enc_prefix_free:
  assumes "acc x" and "acc y" and "enc x @ r = enc y @ s"
  shows "x = y \<and> r = s"
proof -
  have "Some (x, r) = dec (enc x @ r)"
    by (rule dec_enc [OF assms(1), symmetric])
  also have "\<dots> = dec (enc y @ s)"
    by (rule arg_cong [OF assms(3)])
  also have "\<dots> = Some (y, s)"
    by (rule dec_enc [OF assms(2)])
  finally show ?thesis by simp
qed

lemma enc_inj: "acc x \<Longrightarrow> acc y \<Longrightarrow> enc x = enc y \<Longrightarrow> x = y"
  by (rule conjunct1 [OF enc_prefix_free [of x y "[]" "[]"]]) simp_all

end

text \<open>Reading a fixed number of values one after the other.\<close>

fun read_seq :: "(bytes \<Rightarrow> ('a \<times> bytes) option) \<Rightarrow> nat \<Rightarrow> bytes \<Rightarrow> ('a list \<times> bytes) option" where
  "read_seq d 0 bs = Some ([], bs)"
| "read_seq d (Suc n) bs =
     (case d bs of
        None \<Rightarrow> None
      | Some (x, rest) \<Rightarrow>
          (case read_seq d n rest of None \<Rightarrow> None | Some (xs, rest') \<Rightarrow> Some (x # xs, rest')))"

context prefix_code
begin

lemma read_seq_enc:
  "list_all acc xs \<Longrightarrow> read_seq dec (length xs) (concat (map enc xs) @ rest) = Some (xs, rest)"
  by (induction xs arbitrary: rest) (auto simp: dec_enc)

lemma concat_enc_inj:
  assumes "list_all acc xs" and "list_all acc ys" and "length xs = length ys"
    and "concat (map enc xs) = concat (map enc ys)"
  shows "xs = ys"
proof -
  have "Some (xs, []) = read_seq dec (length xs) (concat (map enc xs))"
    using read_seq_enc [OF assms(1), of "[]"] by simp
  also have "\<dots> = Some (ys, [])"
    using read_seq_enc [OF assms(2), of "[]"] by (simp only: assms(3,4) append_Nil2)
  finally show ?thesis by simp
qed

end

end
