(* ===== verification/Ldb_Coding.thy ===== *)
theory Ldb_Coding
  imports Bytes_Prelude
begin

section \<open>leveldb: endian-neutral integer and string encodings (util/coding)\<close>

text \<open>
  The routines of util/coding.h and util/coding.cc. A \<open>Put\<close> routine appends to a string and
  returns the longer string. A pointer routine that looks at the bytes in \<open>[p, limit)\<close> takes
  these bytes and returns the value with the bytes from the returned pointer to \<open>limit\<close>;
  \<open>None\<close> is the null pointer. A routine that advances a \<open>Slice*\<close> returns its result with the
  slice it leaves behind, also when it fails.
\<close>

subsection \<open>Fixed-width integers\<close>

definition EncodeFixed32 :: "u32 \<Rightarrow> bytes" where
  "EncodeFixed32 value =
     [ucast value, ucast (drop_bit 8 value), ucast (drop_bit 16 value), ucast (drop_bit 24 value)]"

definition EncodeFixed64 :: "u64 \<Rightarrow> bytes" where
  "EncodeFixed64 value =
     [ucast value, ucast (drop_bit 8 value), ucast (drop_bit 16 value), ucast (drop_bit 24 value),
      ucast (drop_bit 32 value), ucast (drop_bit 40 value), ucast (drop_bit 48 value),
      ucast (drop_bit 56 value)]"

text \<open>The decoders read four and eight bytes without any bounds check; their callers see to
  it that the bytes are there.\<close>

definition DecodeFixed32 :: "bytes \<Rightarrow> u32" where
  "DecodeFixed32 buffer =
     ucast (buffer ! 0) OR push_bit 8 (ucast (buffer ! 1)) OR
     push_bit 16 (ucast (buffer ! 2)) OR push_bit 24 (ucast (buffer ! 3))"

definition DecodeFixed64 :: "bytes \<Rightarrow> u64" where
  "DecodeFixed64 buffer =
     ucast (buffer ! 0) OR push_bit 8 (ucast (buffer ! 1)) OR
     push_bit 16 (ucast (buffer ! 2)) OR push_bit 24 (ucast (buffer ! 3)) OR
     push_bit 32 (ucast (buffer ! 4)) OR push_bit 40 (ucast (buffer ! 5)) OR
     push_bit 48 (ucast (buffer ! 6)) OR push_bit 56 (ucast (buffer ! 7))"

definition PutFixed32 :: "bytes \<Rightarrow> u32 \<Rightarrow> bytes" where
  "PutFixed32 dst value = dst @ EncodeFixed32 value"

definition PutFixed64 :: "bytes \<Rightarrow> u64 \<Rightarrow> bytes" where
  "PutFixed64 dst value = dst @ EncodeFixed64 value"

subsection \<open>Variable-length integers\<close>

text \<open>The encoder for 32 bits is unrolled by the number of bytes, as in the source.\<close>

definition EncodeVarint32 :: "u32 \<Rightarrow> bytes" where
  "EncodeVarint32 v =
     (if v < push_bit 7 1 then [ucast v]
      else if v < push_bit 14 1 then [ucast (v OR 128), ucast (drop_bit 7 v)]
      else if v < push_bit 21 1 then
        [ucast (v OR 128), ucast (drop_bit 7 v OR 128), ucast (drop_bit 14 v)]
      else if v < push_bit 28 1 then
        [ucast (v OR 128), ucast (drop_bit 7 v OR 128), ucast (drop_bit 14 v OR 128),
         ucast (drop_bit 21 v)]
      else
        [ucast (v OR 128), ucast (drop_bit 7 v OR 128), ucast (drop_bit 14 v OR 128),
         ucast (drop_bit 21 v OR 128), ucast (drop_bit 28 v)])"

text \<open>The encoder for 64 bits is the loop; each round drops seven bits.\<close>

lemma drop_bit_7_less: "\<not> v < 128 \<Longrightarrow> unat (drop_bit 7 v) < unat (v :: u64)"
  by (simp add: word_less_nat_alt drop_bit_eq_div unat_div)

function EncodeVarint64 :: "u64 \<Rightarrow> bytes" where
  "EncodeVarint64 v =
     (if v \<ge> 128 then ucast (v OR 128) # EncodeVarint64 (drop_bit 7 v) else [ucast v])"
  by pat_completeness auto
termination
  by (relation "measure unat") (auto simp: not_less [symmetric] drop_bit_7_less)

declare EncodeVarint64.simps [simp del]

definition PutVarint32 :: "bytes \<Rightarrow> u32 \<Rightarrow> bytes" where
  "PutVarint32 dst v = dst @ EncodeVarint32 v"

definition PutVarint64 :: "bytes \<Rightarrow> u64 \<Rightarrow> bytes" where
  "PutVarint64 dst v = dst @ EncodeVarint64 v"

definition PutLengthPrefixedSlice :: "bytes \<Rightarrow> bytes \<Rightarrow> bytes" where
  "PutLengthPrefixedSlice dst value = PutVarint32 dst (word_of_nat (length value)) @ value"

function VarintLength_loop :: "u64 \<Rightarrow> nat \<Rightarrow> nat" where
  "VarintLength_loop v len =
     (if v \<ge> 128 then VarintLength_loop (drop_bit 7 v) (len + 1) else len)"
  by pat_completeness auto
termination
  by (relation "measure (\<lambda>(v, len). unat v)") (auto simp: not_less [symmetric] drop_bit_7_less)

declare VarintLength_loop.simps [simp del]

definition VarintLength :: "u64 \<Rightarrow> nat" where
  "VarintLength v = VarintLength_loop v 1"

text \<open>The decoding loops: \<open>shift\<close> grows by seven up to its limit, the bytes run out at
  \<open>limit\<close>.\<close>

fun GetVarint32PtrFallback_loop :: "nat \<Rightarrow> u32 \<Rightarrow> bytes \<Rightarrow> (u32 \<times> bytes) option" where
  "GetVarint32PtrFallback_loop shift result [] = None"
| "GetVarint32PtrFallback_loop shift result (c # p) =
     (if shift \<le> 28 then
        (let b = ucast c :: u32 in
         if b AND 128 \<noteq> 0 then
           GetVarint32PtrFallback_loop (shift + 7) (result OR push_bit shift (b AND 127)) p
         else Some (result OR push_bit shift b, p))
      else None)"

definition GetVarint32PtrFallback :: "bytes \<Rightarrow> (u32 \<times> bytes) option" where
  "GetVarint32PtrFallback p = GetVarint32PtrFallback_loop 0 0 p"

definition GetVarint32Ptr :: "bytes \<Rightarrow> (u32 \<times> bytes) option" where
  "GetVarint32Ptr p =
     (if p \<noteq> [] \<and> (ucast (hd p) :: u32) AND 128 = 0 then Some (ucast (hd p), tl p)
      else GetVarint32PtrFallback p)"

fun GetVarint64Ptr_loop :: "nat \<Rightarrow> u64 \<Rightarrow> bytes \<Rightarrow> (u64 \<times> bytes) option" where
  "GetVarint64Ptr_loop shift result [] = None"
| "GetVarint64Ptr_loop shift result (c # p) =
     (if shift \<le> 63 then
        (let b = ucast c :: u64 in
         if b AND 128 \<noteq> 0 then
           GetVarint64Ptr_loop (shift + 7) (result OR push_bit shift (b AND 127)) p
         else Some (result OR push_bit shift b, p))
      else None)"

definition GetVarint64Ptr :: "bytes \<Rightarrow> (u64 \<times> bytes) option" where
  "GetVarint64Ptr p = GetVarint64Ptr_loop 0 0 p"

definition GetVarint32 :: "bytes \<Rightarrow> u32 option \<times> bytes" where
  "GetVarint32 input =
     (case GetVarint32Ptr input of None \<Rightarrow> (None, input) | Some (v, q) \<Rightarrow> (Some v, q))"

definition GetVarint64 :: "bytes \<Rightarrow> u64 option \<times> bytes" where
  "GetVarint64 input =
     (case GetVarint64Ptr input of None \<Rightarrow> (None, input) | Some (v, q) \<Rightarrow> (Some v, q))"

subsection \<open>Length-prefixed strings\<close>

text \<open>The overload on pointers, and the overload on a slice. When the length is there but
  the string is not, the second has already moved the slice past the length.\<close>

definition GetLengthPrefixedSlicePtr :: "bytes \<Rightarrow> (bytes \<times> bytes) option" where
  "GetLengthPrefixedSlicePtr p =
     (case GetVarint32Ptr p of
        None \<Rightarrow> None
      | Some (len, p') \<Rightarrow>
          if length p' < unat len then None else Some (take (unat len) p', drop (unat len) p'))"

definition GetLengthPrefixedSlice :: "bytes \<Rightarrow> bytes option \<times> bytes" where
  "GetLengthPrefixedSlice input =
     (case GetVarint32 input of
        (None, input') \<Rightarrow> (None, input')
      | (Some len, input') \<Rightarrow>
          if unat len \<le> length input' then (Some (take (unat len) input'), drop (unat len) input')
          else (None, input'))"

subsection \<open>Decoding what was encoded\<close>
lemma varint_step_bits:
  "push_bit s (v AND 127) OR push_bit (s + 7) (drop_bit 7 v) = push_bit s (v :: 'a::len word)"
proof (rule bit_word_eqI)
  fix n assume "n < LENGTH('a)"
  then show "bit (push_bit s (v AND 127) OR push_bit (s + 7) (drop_bit 7 v)) n = bit (push_bit s v) n"
    by (cases "s + 7 \<le> n") (auto simp: bit_simps mask_7)
qed

lemmas varint_step = varint_step_bits [unfolded push_bit_and]

lemma varint_cont_byte:
  fixes v :: u64
  shows "(ucast (ucast (v OR 128) :: byte) :: u64) AND 127 = v AND 127"
    and "(ucast (ucast (v OR 128) :: byte) :: u64) AND 128 \<noteq> 0"
    and "(ucast (ucast (v OR 128) :: byte) :: u32) AND 127 = ucast v AND 127"
    and "(ucast (ucast (v OR 128) :: byte) :: u32) AND 128 \<noteq> 0"
proof -
  show "(ucast (ucast (v OR 128) :: byte) :: u64) AND 127 = v AND 127"
    unfolding mask_7 by (rule bit_word_eqI) (auto simp: bit_simps)
  show "(ucast (ucast (v OR 128) :: byte) :: u32) AND 127 = ucast v AND 127"
    unfolding mask_7 by (rule bit_word_eqI) (auto simp: bit_simps)
  have "bit ((ucast (ucast (v OR 128) :: byte) :: u64) AND 128) 7"
    by (simp add: bit_simps)
  then show "(ucast (ucast (v OR 128) :: byte) :: u64) AND 128 \<noteq> 0"
    by (metis bit_0_eq bot_apply bot_bool_def)
  have "bit ((ucast (ucast (v OR 128) :: byte) :: u32) AND 128) 7"
    by (simp add: bit_simps)
  then show "(ucast (ucast (v OR 128) :: byte) :: u32) AND 128 \<noteq> 0"
    by (metis bit_0_eq bot_apply bot_bool_def)
qed

lemma varint_last_byte:
  fixes v :: u64
  assumes "v < 128"
  shows "(ucast (ucast v :: byte) :: u64) = v" "v AND 128 = 0"
    and "(ucast (ucast v :: byte) :: u32) = ucast v" "(ucast v :: u32) AND 128 = 0"
proof -
  have t: "take_bit 7 v = v"
    using assms by (simp add: take_bit_eq_mod word_less_nat_alt word_unat_eq_iff unat_mod)
  have b: "bit v n \<Longrightarrow> n < 7" for n
    by (metis t bit_take_bit_iff)
  show "(ucast (ucast v :: byte) :: u64) = v"
    by (rule bit_word_eqI) (auto simp: bit_simps dest: b)
  show "(ucast (ucast v :: byte) :: u32) = ucast v"
    by (rule bit_word_eqI) (auto simp: bit_simps dest: b)
  show "v AND 128 = 0"
    by (rule bit_word_eqI) (auto simp: bit_simps dest: b)
  show "(ucast v :: u32) AND 128 = 0"
    by (rule bit_word_eqI) (auto simp: bit_simps dest: b)
qed

lemma EncodeVarint64_small: "v < 128 \<Longrightarrow> EncodeVarint64 v = [ucast v]"
  by (subst EncodeVarint64.simps) (auto dest: leD)

lemma EncodeVarint64_big:
  "\<not> v < 128 \<Longrightarrow> EncodeVarint64 v = ucast (v OR 128) # EncodeVarint64 (drop_bit 7 v)"
  by (subst EncodeVarint64.simps) (auto simp: not_less)

lemma GetVarint64Ptr_loop_enc:
  "shift \<le> 63 \<Longrightarrow> unat v < 2 ^ (64 - shift) \<Longrightarrow>
   GetVarint64Ptr_loop shift result (EncodeVarint64 v @ rest) = Some (result OR push_bit shift v, rest)"
proof (induction v arbitrary: shift result rule: EncodeVarint64.induct)
  case (1 v)
  show ?case
  proof (cases "v < 128")
    case True
    then show ?thesis using "1.prems"(1)
      by (simp add: EncodeVarint64_small Let_def varint_last_byte)
  next
    case False
    then have ge: "128 \<le> unat v" by (simp add: word_less_nat_alt)
    have "(2::nat) ^ 7 < 2 ^ (64 - shift)" using ge "1.prems"(2) by simp
    then have s: "shift + 7 \<le> 63"
      by (subst (asm) power_strict_increasing_iff) auto
    have "shift + 7 \<le> 64" using s by simp
    from "1.prems"(2) [unfolded pow2_shift_7 [OF this]]
    have d: "unat (drop_bit 7 v) < 2 ^ (64 - (shift + 7))"
      by (simp add: drop_bit_eq_div unat_div less_mult_imp_div_less)
    have "128 \<le> v" using False by simp
    from "1.IH" [OF this s d] False s "1.prems"(1) show ?thesis
      by (simp add: EncodeVarint64_big Let_def varint_cont_byte or.assoc varint_step)
  qed
qed

lemma GetVarint32PtrFallback_loop_enc:
  "shift \<le> 28 \<Longrightarrow> 7 dvd shift \<Longrightarrow> unat v < 2 ^ (32 - shift) \<Longrightarrow>
   GetVarint32PtrFallback_loop shift result (EncodeVarint64 v @ rest)
     = Some (result OR push_bit shift (ucast v), rest)"
proof (induction v arbitrary: shift result rule: EncodeVarint64.induct)
  case (1 v)
  show ?case
  proof (cases "v < 128")
    case True
    then show ?thesis using "1.prems"(1)
      by (simp add: EncodeVarint64_small Let_def varint_last_byte)
  next
    case False
    then have ge: "128 \<le> unat v" by (simp add: word_less_nat_alt)
    have "(2::nat) ^ 7 < 2 ^ (32 - shift)" using ge "1.prems"(3) by simp
    then have "shift + 7 < 32"
      by (subst (asm) power_strict_increasing_iff) auto
    with "1.prems"(2) have s: "shift + 7 \<le> 28" "7 dvd (shift + 7)" by presburger+
    have "shift + 7 \<le> 32" using s by simp
    from "1.prems"(3) [unfolded pow2_shift_7 [OF this]]
    have d: "unat (drop_bit 7 v) < 2 ^ (32 - (shift + 7))"
      by (simp add: drop_bit_eq_div unat_div less_mult_imp_div_less)
    have c: "(ucast (drop_bit 7 v) :: u32) = drop_bit 7 (ucast v)"
    proof (rule bit_word_eqI)
      fix n assume n: "n < LENGTH(32)"
      have "bit v (n + 7) \<Longrightarrow> n + 7 < 32"
      proof -
        assume "bit v (n + 7)"
        have "unat v < 2 ^ 32"
          using "1.prems"(3) by (rule less_le_trans) (rule power_increasing, simp_all)
        then have "take_bit 32 v = v"
          by (simp add: take_bit_eq_mod word_unat_eq_iff unat_mod)
        with \<open>bit v (n + 7)\<close> show ?thesis by (metis bit_take_bit_iff)
      qed
      then show "bit (ucast (drop_bit 7 v) :: u32) n = bit (drop_bit 7 (ucast v :: u32)) n"
        using n by (auto simp: bit_simps add.commute)
    qed
    have "128 \<le> v" using False by simp
    from "1.IH" [OF this s d] False s "1.prems"(1) show ?thesis
      by (simp add: EncodeVarint64_big Let_def varint_cont_byte or.assoc varint_step c)
  qed
qed

lemma ucast_drop_bit_u32: "drop_bit k (ucast (v :: u32) :: u64) = ucast (drop_bit k v)"
  by (rule bit_word_eqI) (auto simp: bit_simps dest: bit_imp_le_length)

lemma ucast_ucast_byte: "(ucast (ucast (v :: u32) :: u64) :: byte) = ucast v"
  by (rule bit_word_eqI) (auto simp: bit_simps)

lemma ucast_ucast_byte_or: "(ucast ((ucast (v :: u32) :: u64) OR 128) :: byte) = ucast (v OR 128)"
  by (rule bit_word_eqI) (auto simp: bit_simps)

lemma unat_ucast_u32_u64 [simp]: "unat (ucast (v :: u32) :: u64) = unat v"
  using unsigned_less [of v, where 'a = nat] by (simp add: unsigned_ucast_eq take_bit_nat_eq_self)

lemma ucast_drop_less_128:
  "(ucast (drop_bit k (v :: u32)) :: u64) < 128 \<longleftrightarrow> unat v < 2 ^ (k + 7)"
proof -
  have "(ucast (drop_bit k v) :: u64) < 128 \<longleftrightarrow> unat v div 2 ^ k < 128"
    by (simp only: word_less_nat_alt unat_ucast_u32_u64 unat_drop_bit_eq) (simp add: drop_bit_eq_div)
  also have "\<dots> \<longleftrightarrow> unat v < 2 ^ (k + 7)"
    by (simp add: div_less_iff_less_mult power_add mult.commute)
  finally show ?thesis .
qed

lemma EncodeVarint32_eq_EncodeVarint64_aux: "EncodeVarint32 v = EncodeVarint64 (ucast v)"
proof -
  have u: "EncodeVarint64 (ucast (drop_bit k v)) =
      (if unat v < 2 ^ (k + 7) then [ucast (drop_bit k v)]
       else ucast (drop_bit k v OR 128) # EncodeVarint64 (ucast (drop_bit (k + 7) v)))" for k
    using ucast_drop_less_128 [of k v]
    by (simp add: EncodeVarint64_small EncodeVarint64_big ucast_drop_bit_u32 ucast_ucast_byte
        ucast_ucast_byte_or add.commute)
  have l: "unat v < 2 ^ 35" using unsigned_less [of v, where 'a = nat] by simp
  show ?thesis
    using u [of 0] u [of 7] u [of 14] u [of 21] u [of 28] l
    by (simp add: EncodeVarint32_def word_less_nat_alt)
qed

lemma bytes_of_u32:
  "ucast (ucast (v :: u32) :: byte) OR push_bit 8 (ucast (ucast (drop_bit 8 v) :: byte)) OR
   push_bit 16 (ucast (ucast (drop_bit 16 v) :: byte)) OR
   push_bit 24 (ucast (ucast (drop_bit 24 v) :: byte)) = v"
proof (rule bit_word_eqI)
  fix n assume "n < LENGTH(32)"
  then consider "n < 8" | "8 \<le> n" "n < 16" | "16 \<le> n" "n < 24" | "24 \<le> n" "n < 32"
    by fastforce
  then show "bit (ucast (ucast (v :: u32) :: byte) OR push_bit 8 (ucast (ucast (drop_bit 8 v) :: byte)) OR
   push_bit 16 (ucast (ucast (drop_bit 16 v) :: byte)) OR
   push_bit 24 (ucast (ucast (drop_bit 24 v) :: byte)) :: u32) n = bit v n"
    by cases (auto simp: bit_simps)
qed

lemma bytes_of_u64:
  "ucast (ucast (v :: u64) :: byte) OR push_bit 8 (ucast (ucast (drop_bit 8 v) :: byte)) OR
   push_bit 16 (ucast (ucast (drop_bit 16 v) :: byte)) OR
   push_bit 24 (ucast (ucast (drop_bit 24 v) :: byte)) OR
   push_bit 32 (ucast (ucast (drop_bit 32 v) :: byte)) OR
   push_bit 40 (ucast (ucast (drop_bit 40 v) :: byte)) OR
   push_bit 48 (ucast (ucast (drop_bit 48 v) :: byte)) OR
   push_bit 56 (ucast (ucast (drop_bit 56 v) :: byte)) = v" (is "?w = v")
proof (rule bit_word_eqI)
  fix n assume "n < LENGTH(64)"
  then consider "n < 8" | "8 \<le> n" "n < 16" | "16 \<le> n" "n < 24" | "24 \<le> n" "n < 32"
    | "32 \<le> n" "n < 40" | "40 \<le> n" "n < 48" | "48 \<le> n" "n < 56" | "56 \<le> n" "n < 64"
    by fastforce
  then show "bit ?w n = bit v n"
    by cases (auto simp: bit_simps)
qed

lemma DecodeFixed32_enc [codec_simps]: "DecodeFixed32 (EncodeFixed32 v @ rest) = v"
  using bytes_of_u32 [of v] by (simp add: DecodeFixed32_def EncodeFixed32_def)

lemma DecodeFixed64_enc [codec_simps]: "DecodeFixed64 (EncodeFixed64 v @ rest) = v"
  using bytes_of_u64 [of v] by (simp add: DecodeFixed64_def EncodeFixed64_def)

lemma length_EncodeFixed [simp, width_simps]:
  "length (EncodeFixed32 v) = 4" "length (EncodeFixed64 w) = 8"
  by (simp_all add: EncodeFixed32_def EncodeFixed64_def)

lemma VarintLength_loop_eq: "VarintLength_loop v n + 1 = n + length (EncodeVarint64 v)"
proof (induction v n rule: VarintLength_loop.induct)
  case (1 v len)
  show ?case
  proof (cases "v < 128")
    case True
    then show ?thesis
      by (subst VarintLength_loop.simps) (auto simp: EncodeVarint64_small dest: leD)
  next
    case False
    then have "128 \<le> v" by simp
    with 1 [OF this] False show ?thesis
      by (subst VarintLength_loop.simps) (simp add: EncodeVarint64_big)
  qed
qed

lemma VarintLength_eq: "VarintLength v = length (EncodeVarint64 v)"
  using VarintLength_loop_eq [of v 1] by (simp add: VarintLength_def)

lemma length_EncodeVarint64_bound:
  "unat v < 2 ^ (7 * n) \<Longrightarrow> 0 < n \<Longrightarrow> length (EncodeVarint64 v) \<le> n"
proof (induction n arbitrary: v)
  case 0
  then show ?case by simp
next
  case (Suc n)
  show ?case
  proof (cases "v < 128")
    case True
    then show ?thesis by (simp add: EncodeVarint64_small)
  next
    case False
    then have ge: "128 \<le> unat v" by (simp add: word_less_nat_alt)
    with Suc.prems(1) have "0 < n" by (cases n) auto
    have "unat (drop_bit 7 v) < 2 ^ (7 * n)"
      using Suc.prems(1)
      by (simp add: drop_bit_eq_div unat_div power_add less_mult_imp_div_less mult.commute)
    from Suc.IH [OF this \<open>0 < n\<close>] False show ?thesis by (simp add: EncodeVarint64_big)
  qed
qed

lemma EncodeVarint64_not_Nil [simp]: "EncodeVarint64 v \<noteq> []"
  by (subst EncodeVarint64.simps) simp

lemma GetVarint64Ptr_enc [codec_simps]: "GetVarint64Ptr (EncodeVarint64 v @ rest) = Some (v, rest)"
  using GetVarint64Ptr_loop_enc [of 0 v 0 rest] unsigned_less [of v, where 'a = nat]
  by (simp add: GetVarint64Ptr_def)

lemma ucast_u32_u64_u32 [simp]: "ucast (ucast (v :: u32) :: u64) = v"
  by (rule bit_word_eqI) (auto simp: bit_simps)

lemma GetVarint32PtrFallback_enc: "GetVarint32PtrFallback (EncodeVarint32 v @ rest) = Some (v, rest)"
  using GetVarint32PtrFallback_loop_enc [of 0 "ucast v" 0 rest] unsigned_less [of v, where 'a = nat]
  by (simp add: GetVarint32PtrFallback_def EncodeVarint32_eq_EncodeVarint64_aux)

text \<open>The one-byte fast path of the inline routine agrees with the loop behind it.\<close>

lemma GetVarint32Ptr_fallback: "GetVarint32Ptr p = GetVarint32PtrFallback p"
  by (cases p) (auto simp: GetVarint32Ptr_def GetVarint32PtrFallback_def Let_def)

lemma GetVarint32Ptr_enc [codec_simps]: "GetVarint32Ptr (EncodeVarint32 v @ rest) = Some (v, rest)"
  by (simp add: GetVarint32Ptr_fallback GetVarint32PtrFallback_enc)

lemma GetVarint_slice_enc [codec_simps]:
  "GetVarint32 (EncodeVarint32 v @ rest) = (Some v, rest)"
  "GetVarint64 (EncodeVarint64 w @ rest) = (Some w, rest)"
  by (simp_all add: GetVarint32_def GetVarint64_def codec_simps)

definition EncodeLengthPrefixed :: "bytes \<Rightarrow> bytes" where
  "EncodeLengthPrefixed value = EncodeVarint32 (word_of_nat (length value)) @ value"

lemma GetLengthPrefixedSlice_enc [codec_simps]:
  assumes "length s < 2 ^ 32"
  shows "GetLengthPrefixedSlice (EncodeLengthPrefixed s @ rest) = (Some s, rest)"
    and "GetLengthPrefixedSlicePtr (EncodeLengthPrefixed s @ rest) = Some (s, rest)"
  using assms
  by (simp_all add: EncodeLengthPrefixed_def GetLengthPrefixedSlice_def
      GetLengthPrefixedSlicePtr_def codec_simps)

lemma Put_append:
  "PutVarint32 dst v = dst @ EncodeVarint32 v"
  "PutVarint64 dst w = dst @ EncodeVarint64 w"
  "PutLengthPrefixedSlice dst s = dst @ EncodeLengthPrefixed s"
  by (simp_all add: PutVarint32_def PutVarint64_def PutLengthPrefixedSlice_def
      EncodeLengthPrefixed_def)

text \<open>What a decoder consumes: a proper prefix of its input.\<close>

lemma GetVarint32PtrFallback_loop_suffix:
  "GetVarint32PtrFallback_loop shift r p = Some (v, q) \<Longrightarrow> \<exists>c. c \<noteq> [] \<and> p = c @ q"
proof (induction shift r p rule: GetVarint32PtrFallback_loop.induct)
  case (2 shift result c p)
  show ?case
  proof (cases "(ucast c :: u32) AND 128 \<noteq> 0")
    case True
    with 2 obtain d where "p = d @ q" by (auto simp: Let_def split: if_splits)
    then show ?thesis by (intro exI [of _ "c # d"]) simp
  next
    case False
    with "2.prems" have "p = q" by (auto simp: Let_def split: if_splits)
    then show ?thesis by (intro exI [of _ "[c]"]) simp
  qed
qed simp

lemma GetVarint64Ptr_loop_suffix:
  "GetVarint64Ptr_loop shift r p = Some (v, q) \<Longrightarrow> \<exists>c. c \<noteq> [] \<and> p = c @ q"
proof (induction shift r p rule: GetVarint64Ptr_loop.induct)
  case (2 shift result c p)
  show ?case
  proof (cases "(ucast c :: u64) AND 128 \<noteq> 0")
    case True
    with 2 obtain d where "p = d @ q" by (auto simp: Let_def split: if_splits)
    then show ?thesis by (intro exI [of _ "c # d"]) simp
  next
    case False
    with "2.prems" have "p = q" by (auto simp: Let_def split: if_splits)
    then show ?thesis by (intro exI [of _ "[c]"]) simp
  qed
qed simp

lemma GetVarint32PtrFallback_loop_extend:
  "GetVarint32PtrFallback_loop shift r p = Some (v, q) \<Longrightarrow>
   GetVarint32PtrFallback_loop shift r (p @ x) = Some (v, q @ x)"
  by (induction shift r p rule: GetVarint32PtrFallback_loop.induct)
    (auto simp: Let_def split: if_splits)

lemma GetVarint32Ptr_extend:
  "GetVarint32Ptr p = Some (v, q) \<Longrightarrow> GetVarint32Ptr (p @ x) = Some (v, q @ x)"
  by (simp add: GetVarint32Ptr_fallback GetVarint32PtrFallback_def
      GetVarint32PtrFallback_loop_extend)

lemma GetVarint32Ptr_shorter: "GetVarint32Ptr p = Some (v, q) \<Longrightarrow> length q < length p"
  by (auto simp: GetVarint32Ptr_fallback GetVarint32PtrFallback_def
      dest!: GetVarint32PtrFallback_loop_suffix)

lemma GetVarint64Ptr_shorter: "GetVarint64Ptr p = Some (v, q) \<Longrightarrow> length q < length p"
  by (auto simp: GetVarint64Ptr_def dest!: GetVarint64Ptr_loop_suffix)

lemma GetVarint32_shorter: "GetVarint32 p = (Some v, q) \<Longrightarrow> length q < length p"
  by (auto simp: GetVarint32_def split: option.splits dest: GetVarint32Ptr_shorter)

lemma GetVarint64_shorter: "GetVarint64 p = (Some v, q) \<Longrightarrow> length q < length p"
  by (auto simp: GetVarint64_def split: option.splits dest: GetVarint64Ptr_shorter)

lemma GetVarint_not_longer:
  "length (snd (GetVarint32 p)) \<le> length p" "length (snd (GetVarint64 p)) \<le> length p"
  by (auto simp: GetVarint32_def GetVarint64_def split: option.splits
      dest: GetVarint32Ptr_shorter GetVarint64Ptr_shorter)

lemma GetLengthPrefixedSlice_not_longer: "length (snd (GetLengthPrefixedSlice p)) \<le> length p"
  using GetVarint_not_longer(1) [of p]
  by (auto simp: GetLengthPrefixedSlice_def split: prod.splits option.splits)

interpretation varint32: prefix_code EncodeVarint32 GetVarint32Ptr "\<lambda>_. True"
  by unfold_locales (simp add: codec_simps)

interpretation varint64: prefix_code EncodeVarint64 GetVarint64Ptr "\<lambda>_. True"
  by unfold_locales (simp add: codec_simps)

interpretation length_prefixed:
  prefix_code EncodeLengthPrefixed GetLengthPrefixedSlicePtr "\<lambda>s. length s < 2 ^ 32"
  by unfold_locales (simp add: codec_simps)


text \<open>C21: a 32-bit value appended with \<open>PutVarint32\<close> to any string is read back by
  \<open>GetVarint32\<close>, which leaves exactly what follows it.\<close>

theorem varint32_round_trip:
  "\<exists>e. PutVarint32 dst v = dst @ e \<and> length e \<le> 5 \<and> GetVarint32 (e @ rest) = (Some v, rest)"
proof -
  have "length (EncodeVarint32 v) \<le> 5"
    using length_EncodeVarint64_bound [of "ucast v" 5] unsigned_less [of v, where 'a = nat]
    by (simp add: EncodeVarint32_eq_EncodeVarint64_aux)
  then show ?thesis
    by (intro exI [of _ "EncodeVarint32 v"]) (simp add: Put_append codec_simps)
qed

text \<open>the 64-bit varint round trip: reading what \<open>EncodeVarint64\<close> wrote, followed by any bytes,
  returns the value and leaves exactly these bytes, and the encoding takes \<open>VarintLength\<close> bytes.\<close>

theorem varint64_round_trip:
  "\<exists>e. PutVarint64 dst v = dst @ e \<and> length e = VarintLength v \<and> length e \<le> 10 \<and>
       GetVarint64 (e @ rest) = (Some v, rest)"
proof -
  have "length (EncodeVarint64 v) \<le> 10"
    using length_EncodeVarint64_bound [of v 10] unsigned_less [of v, where 'a = nat] by simp
  then show ?thesis
    by (intro exI [of _ "EncodeVarint64 v"]) (simp add: Put_append codec_simps VarintLength_eq)
qed

text \<open>the unrolled 32-bit encoder writes the same bytes as the general 64-bit loop, so the
  two formats are interchangeable on 32-bit values.\<close>

theorem EncodeVarint32_eq_EncodeVarint64: "EncodeVarint32 v = EncodeVarint64 (ucast v)"
  by (rule EncodeVarint32_eq_EncodeVarint64_aux)

lemma GetLengthPrefixedSlice_truncated:
  assumes "length s < 2 ^ 32" and "n < length (EncodeLengthPrefixed s)"
  shows "fst (GetLengthPrefixedSlice (take n (EncodeLengthPrefixed s))) = None"
proof (cases "GetVarint32Ptr (take n (EncodeLengthPrefixed s))")
  case None
  then show ?thesis by (simp add: GetLengthPrefixedSlice_def GetVarint32_def)
next
  case (Some r)
  obtain len q where r: "r = (len, q)" by (cases r)
  from GetVarint32Ptr_extend [OF Some [unfolded r], of "drop n (EncodeLengthPrefixed s)"]
  have "GetVarint32Ptr (EncodeLengthPrefixed s) = Some (len, q @ drop n (EncodeLengthPrefixed s))"
    by simp
  moreover have "GetVarint32Ptr (EncodeLengthPrefixed s) = Some (word_of_nat (length s), s)"
    by (simp add: EncodeLengthPrefixed_def codec_simps)
  ultimately have len: "len = word_of_nat (length s)"
    and s: "s = q @ drop n (EncodeLengthPrefixed s)"
    by simp_all
  from len have "unat len = length s" using assms(1) by simp
  moreover have "length q < length s"
    using arg_cong [OF s, of length] assms(2) by simp
  ultimately have "length q < unat len" by simp
  then show ?thesis using Some r by (simp add: GetLengthPrefixedSlice_def GetVarint32_def)
qed

text \<open>C22: a slice appended with \<open>PutLengthPrefixedSlice\<close> is read back whole by
  \<open>GetLengthPrefixedSlice\<close>, which leaves exactly the bytes after it, and every proper prefix of
  the encoding is refused.\<close>

theorem length_prefixed_round_trip:
  assumes "length s < 2 ^ 32"
  shows "\<exists>e. PutLengthPrefixedSlice dst s = dst @ e \<and>
    GetLengthPrefixedSlice (e @ rest) = (Some s, rest) \<and>
    (\<forall>n < length e. fst (GetLengthPrefixedSlice (take n e)) = None)"
  using assms
  by (intro exI [of _ "EncodeLengthPrefixed s"])
    (simp add: Put_append codec_simps GetLengthPrefixedSlice_truncated)

theorem length_prefixed_round_trip_witness:
  "length (cstr ''humidor'') < 2 ^ 32 \<and>
   (\<exists>e. PutLengthPrefixedSlice [7] (cstr ''humidor'') = [7] @ e \<and>
     GetLengthPrefixedSlice (e @ [1, 2]) = (Some (cstr ''humidor''), [1, 2]) \<and>
     (\<forall>n < length e. fst (GetLengthPrefixedSlice (take n e)) = None))"
proof -
  have h: "length (cstr ''humidor'') < 2 ^ 32" by simp
  show ?thesis using h length_prefixed_round_trip [OF h, of "[7]" "[1, 2]"] by blast
qed

end
