(* ===== verification/Ldb_Comparator.thy ===== *)
theory Ldb_Comparator
  imports Ldb_Coding "HOL-Library.List_Lexorder"
begin

section \<open>leveldb: slices and comparators (include/leveldb/slice.h, util/comparator.cc)\<close>

text \<open>
  A \<open>Slice\<close> is the bytes it refers to. Its three-way comparison goes through \<open>memcmp\<close> and
  the lengths. A \<open>Comparator\<close> object is a record of its virtual methods, so that the
  comparator on internal keys can be built on top of any user comparator. The contract every
  comparator has to honour is the locale \<open>key_order\<close>, the one for its two key-shortening
  methods is \<open>key_shortening\<close>.
\<close>

subsection \<open>Slices\<close>

text \<open>\<open>memcmp\<close> of the C library: the sign of the first difference in the first \<open>n\<close> bytes.\<close>

fun memcmp :: "bytes \<Rightarrow> bytes \<Rightarrow> nat \<Rightarrow> int" where
  "memcmp (a # as) (b # bs) (Suc n) =
     (if a = b then memcmp as bs n else if a < b then - 1 else 1)"
| "memcmp _ _ _ = 0"

definition slice_compare :: "bytes \<Rightarrow> bytes \<Rightarrow> int" where
  "slice_compare a b =
     (let min_len = (if length a < length b then length a else length b);
          r = memcmp a b min_len
      in if r = 0 then
           (if length a < length b then - 1 else if length a > length b then 1 else r)
         else r)"

definition starts_with :: "bytes \<Rightarrow> bytes \<Rightarrow> bool" where
  "starts_with s x \<longleftrightarrow> length s \<ge> length x \<and> memcmp s x (length x) = 0"

definition slice_eq :: "bytes \<Rightarrow> bytes \<Rightarrow> bool" where
  "slice_eq x y \<longleftrightarrow> length x = length y \<and> memcmp x y (length x) = 0"

definition remove_prefix :: "nat \<Rightarrow> bytes \<Rightarrow> bytes" where
  "remove_prefix n s = drop n s"

subsection \<open>The bytewise comparator\<close>

record comparator_ops =
  Compare :: "bytes \<Rightarrow> bytes \<Rightarrow> int"
  FindShortestSeparator :: "bytes \<Rightarrow> bytes \<Rightarrow> bytes"
  FindShortSuccessor :: "bytes \<Rightarrow> bytes"
  ComparatorName :: bytes

definition BytewiseCompare :: "bytes \<Rightarrow> bytes \<Rightarrow> int" where
  "BytewiseCompare a b = slice_compare a b"

text \<open>The scan for the length of the common prefix.\<close>

fun diff_index_loop :: "bytes \<Rightarrow> bytes \<Rightarrow> nat \<Rightarrow> nat" where
  "diff_index_loop (s # start) (l # limit) diff_index =
     (if s = l then diff_index_loop start limit (diff_index + 1) else diff_index)"
| "diff_index_loop _ _ diff_index = diff_index"

definition BytewiseFindShortestSeparator :: "bytes \<Rightarrow> bytes \<Rightarrow> bytes" where
  "BytewiseFindShortestSeparator start limit =
     (let min_length = min (length start) (length limit);
          diff_index = diff_index_loop start limit 0
      in if diff_index \<ge> min_length then start
         else
           (let diff_byte = start ! diff_index in
            if diff_byte < 0xff \<and> unat diff_byte + 1 < unat (limit ! diff_index)
            then take (diff_index + 1) (start[diff_index := diff_byte + 1])
            else start))"

fun FindShortSuccessor_loop :: "bytes \<Rightarrow> bytes \<Rightarrow> bytes" where
  "FindShortSuccessor_loop done_bytes [] = done_bytes"
| "FindShortSuccessor_loop done_bytes (b # key) =
     (if b \<noteq> 0xff then done_bytes @ [b + 1]
      else FindShortSuccessor_loop (done_bytes @ [b]) key)"

definition BytewiseFindShortSuccessor :: "bytes \<Rightarrow> bytes" where
  "BytewiseFindShortSuccessor key = FindShortSuccessor_loop [] key"

definition BytewiseComparator :: comparator_ops where
  "BytewiseComparator =
     \<lparr>Compare = BytewiseCompare,
      FindShortestSeparator = BytewiseFindShortestSeparator,
      FindShortSuccessor = BytewiseFindShortSuccessor,
      ComparatorName = cstr ''leveldb.BytewiseComparator''\<rparr>"

subsection \<open>The contract of a comparator\<close>

text \<open>
  On the keys it is meant for, \<open>Compare\<close> is the sign of a total preorder. Everything that
  sorts or searches (the skip list, blocks, the merging iterator, versions) relies on these
  laws and on nothing else.
\<close>

locale key_order =
  fixes cmp :: "'k \<Rightarrow> 'k \<Rightarrow> int"
    and valid :: "'k \<Rightarrow> bool"
  assumes cmp_self: "valid a \<Longrightarrow> cmp a a = 0"
    and cmp_swap: "valid a \<Longrightarrow> valid b \<Longrightarrow> cmp a b < 0 \<longleftrightarrow> cmp b a > 0"
    and cmp_trans: "valid a \<Longrightarrow> valid b \<Longrightarrow> valid c \<Longrightarrow> cmp a b \<le> 0 \<Longrightarrow> cmp b c \<le> 0 \<Longrightarrow> cmp a c \<le> 0"
begin

lemma cmp_swap_eq: "valid a \<Longrightarrow> valid b \<Longrightarrow> cmp a b = 0 \<longleftrightarrow> cmp b a = 0"
  using cmp_swap [of a b] cmp_swap [of b a] by linarith

lemma cmp_swap_le: "valid a \<Longrightarrow> valid b \<Longrightarrow> cmp a b \<le> 0 \<longleftrightarrow> cmp b a \<ge> 0"
  using cmp_swap [of b a] by linarith

lemma cmp_less_trans:
  assumes "valid a" "valid b" "valid c" "cmp a b < 0" "cmp b c < 0"
  shows "cmp a c < 0"
proof (rule ccontr)
  assume "\<not> cmp a c < 0"
  then have "cmp c a \<le> 0" using cmp_swap_le assms by auto
  moreover have "cmp a b \<le> 0" using assms by simp
  ultimately have "cmp c b \<le> 0" using cmp_trans assms by blast
  then have "cmp b c \<ge> 0" using cmp_swap_le assms by auto
  then show False using assms by simp
qed

lemma cmp_less_le_trans:
  assumes "valid a" "valid b" "valid c" "cmp a b < 0" "cmp b c \<le> 0"
  shows "cmp a c < 0"
proof (rule ccontr)
  assume "\<not> cmp a c < 0"
  then have "cmp c a \<le> 0" using cmp_swap_le assms by auto
  with assms have "cmp b a \<le> 0" using cmp_trans [of b c a] by blast
  then have "cmp a b \<ge> 0" using cmp_swap_le assms by auto
  then show False using assms by simp
qed

lemma cmp_le_less_trans:
  assumes "valid a" "valid b" "valid c" "cmp a b \<le> 0" "cmp b c < 0"
  shows "cmp a c < 0"
proof (rule ccontr)
  assume "\<not> cmp a c < 0"
  then have "cmp c a \<le> 0" using cmp_swap_le assms by auto
  with assms have "cmp c b \<le> 0" using cmp_trans [of c a b] by blast
  then have "cmp b c \<ge> 0" using cmp_swap_le assms by auto
  then show False using assms by simp
qed

end

locale key_shortening =
  fixes c :: comparator_ops
    and valid :: "bytes \<Rightarrow> bool"
  assumes order: "key_order (Compare c) valid"
    and separator_bounds:
      "valid start \<Longrightarrow> valid limit \<Longrightarrow> Compare c start limit < 0 \<Longrightarrow>
       valid (FindShortestSeparator c start limit) \<and>
       Compare c start (FindShortestSeparator c start limit) \<le> 0 \<and>
       Compare c (FindShortestSeparator c start limit) limit < 0"
    and separator_equal:
      "valid start \<Longrightarrow> valid limit \<Longrightarrow> Compare c start limit = 0 \<Longrightarrow>
       \<not> Compare c start (FindShortestSeparator c start limit) < 0"
    and successor_bound:
      "valid key \<Longrightarrow> valid (FindShortSuccessor c key) \<and> Compare c key (FindShortSuccessor c key) \<le> 0"

subsection \<open>Slices compare lexicographically\<close>

lemma slice_compare_simps [simp]:
  "slice_compare [] [] = 0"
  "slice_compare [] (b # bs) = - 1"
  "slice_compare (a # as) [] = 1"
  "slice_compare (a # as) (b # bs) =
     (if a = b then slice_compare as bs else if a < b then - 1 else 1)"
  by (simp_all add: slice_compare_def Let_def)

lemma slice_compare_less: "slice_compare a b < 0 \<longleftrightarrow> a < b"
  by (induction a b rule: list_induct2') auto

lemma slice_compare_eq: "slice_compare a b = 0 \<longleftrightarrow> a = b"
  by (induction a b rule: list_induct2') auto

lemma slice_compare_greater: "slice_compare a b > 0 \<longleftrightarrow> b < a"
  using slice_compare_less [of a b] slice_compare_eq [of a b] by (auto simp: not_less order_le_less)

lemmas slice_compare_iff = slice_compare_less slice_compare_eq slice_compare_greater

lemma slice_compare_le: "slice_compare a b \<le> 0 \<longleftrightarrow> a \<le> b"
  using slice_compare_greater [of a b] by (simp add: not_less [symmetric])

lemma memcmp_eq_0: "n \<le> length a \<Longrightarrow> n \<le> length b \<Longrightarrow> memcmp a b n = 0 \<longleftrightarrow> take n a = take n b"
  by (induction a b n rule: memcmp.induct) (auto simp: take_Suc_conv_app_nth take_Cons')

lemma starts_with_iff: "starts_with s x \<longleftrightarrow> take (length x) s = x"
proof -
  have "take (length x) s = x \<Longrightarrow> length x \<le> length s"
    by (metis length_take min.cobounded1)
  then show ?thesis using memcmp_eq_0 [of "length x" s x] by (auto simp: starts_with_def)
qed

lemma slice_eq_iff [simp]: "slice_eq x y \<longleftrightarrow> x = y"
  using memcmp_eq_0 [of "length x" x y] by (auto simp: slice_eq_def)

subsection \<open>The bytewise comparator honours the contract\<close>

lemma diff_index_loop_acc: "diff_index_loop a b (n + k) = diff_index_loop a b n + k"
  by (induction a b n rule: diff_index_loop.induct) (auto simp: add.commute)

lemma diff_index_loop_Suc [simp]: "diff_index_loop a b (Suc n) = Suc (diff_index_loop a b n)"
  using diff_index_loop_acc [of a b n 1] by simp

lemma separator_simps:
  "BytewiseFindShortestSeparator [] limit = []"
  "BytewiseFindShortestSeparator start [] = start"
  "BytewiseFindShortestSeparator (s # start) (l # limit) =
     (if s = l then s # BytewiseFindShortestSeparator start limit
      else if s < 0xff \<and> unat s + 1 < unat l then [s + 1] else s # start)"
  by (auto simp: BytewiseFindShortestSeparator_def Let_def)

lemma inc_byte: "(s :: byte) \<noteq> 0xff \<Longrightarrow> unat (s + 1) = unat s + 1"
proof -
  assume "s \<noteq> 0xff"
  then have "unat s \<noteq> 255" by (simp add: word_unat_eq_iff)
  then have "unat s + 1 < 256" using unat_u8_less [of s] by simp
  then show ?thesis by (simp add: unat_word_ariths)
qed

lemma inc_byte_greater: "(s :: byte) \<noteq> 0xff \<Longrightarrow> s < s + 1"
  by (simp add: word_less_nat_alt inc_byte)

lemma separator_bytewise:
  "start < limit \<Longrightarrow> start \<le> BytewiseFindShortestSeparator start limit \<and>
     BytewiseFindShortestSeparator start limit < limit"
proof (induction start limit rule: list_induct2')
  case (4 s start l limit)
  show ?case
  proof (cases "s < 0xff \<and> unat s + 1 < unat l \<and> s \<noteq> l")
    case True
    then have "s \<noteq> 0xff" by auto
    with True have "s < s + 1" "s + 1 < l" by (auto simp: inc_byte inc_byte_greater word_less_nat_alt)
    with True show ?thesis by (simp add: separator_simps)
  next
    case False
    with 4 show ?thesis by (auto simp: separator_simps)
  qed
qed (auto simp: separator_simps)

lemma separator_bytewise_length: "length (BytewiseFindShortestSeparator start limit) \<le> length start"
  by (induction start limit rule: list_induct2') (auto simp: separator_simps)

lemma separator_bytewise_same [simp]: "BytewiseFindShortestSeparator s s = s"
  by (induction s) (simp_all add: separator_simps)

lemma FindShortSuccessor_loop_acc: "FindShortSuccessor_loop d key = d @ FindShortSuccessor_loop [] key"
proof (induction key arbitrary: d)
  case (Cons b key)
  then show ?case by (metis FindShortSuccessor_loop.simps(2) append_assoc append_Nil)
qed simp

lemma successor_simps:
  "BytewiseFindShortSuccessor [] = []"
  "BytewiseFindShortSuccessor (b # key) =
     (if b \<noteq> 0xff then [b + 1] else b # BytewiseFindShortSuccessor key)"
  using FindShortSuccessor_loop_acc [of "[0xff]" key]
  by (simp_all add: BytewiseFindShortSuccessor_def)

lemma successor_bytewise: "key \<le> BytewiseFindShortSuccessor key"
  by (induction key) (auto simp: successor_simps inc_byte_greater)

lemma key_order_bytewise: "key_order slice_compare (\<lambda>_. True)"
  by unfold_locales (auto simp: slice_compare_iff slice_compare_le)

interpretation bytewise: key_order BytewiseCompare "\<lambda>_. True"
  using key_order_bytewise by (simp add: BytewiseCompare_def [abs_def])

interpretation bytewise_shortening: key_shortening BytewiseComparator "\<lambda>_. True"
  by unfold_locales
    (simp_all add: BytewiseComparator_def bytewise.key_order_axioms BytewiseCompare_def
      slice_compare_iff slice_compare_le separator_bytewise successor_bytewise)

text \<open>C23: for two keys in order, \<open>FindShortestSeparator\<close> of the bytewise comparator yields a
  key that is at least the first, still below the second, and no longer than the first.\<close>

theorem bytewise_separator_between:
  assumes "Compare BytewiseComparator start limit < 0"
  shows "Compare BytewiseComparator start (FindShortestSeparator BytewiseComparator start limit) \<le> 0 \<and>
    Compare BytewiseComparator (FindShortestSeparator BytewiseComparator start limit) limit < 0 \<and>
    length (FindShortestSeparator BytewiseComparator start limit) \<le> length start"
  using bytewise_shortening.separator_bounds [OF _ _ assms] separator_bytewise_length
  by (simp add: BytewiseComparator_def)

theorem bytewise_separator_between_witness:
  "Compare BytewiseComparator (cstr ''corona'') (cstr ''maduro'') < 0 \<and>
   Compare BytewiseComparator (cstr ''corona'')
     (FindShortestSeparator BytewiseComparator (cstr ''corona'') (cstr ''maduro'')) \<le> 0"
proof -
  have h: "Compare BytewiseComparator (cstr ''corona'') (cstr ''maduro'') < 0"
    by (simp add: BytewiseComparator_def BytewiseCompare_def cstr_def)
  show ?thesis using h bytewise_separator_between [OF h] by blast
qed

end
