(* ===== verification/Ldb_Status.thy ===== *)
theory Ldb_Status
  imports Ldb_Coding
begin

section \<open>leveldb: the outcome of an operation (include/leveldb/status.h, util/status.cc)\<close>

text \<open>
  A \<open>Status\<close> is a pointer: null for success, otherwise an array that holds the length of the
  message in its first four bytes (copied from a \<open>uint32_t\<close>, so least significant byte first
  on the platforms the pod is built for), the code in the fifth and the message after it.
  The model keeps this array; the null pointer is \<open>None\<close>.
\<close>

type_synonym Status = "bytes option"

datatype Code = kOk | kNotFound | kCorruption | kNotSupported | kInvalidArgument | kIOError

definition code_byte :: "Code \<Rightarrow> byte" where
  "code_byte c =
     (case c of kOk \<Rightarrow> 0 | kNotFound \<Rightarrow> 1 | kCorruption \<Rightarrow> 2 | kNotSupported \<Rightarrow> 3
      | kInvalidArgument \<Rightarrow> 4 | kIOError \<Rightarrow> 5)"

definition Status_new :: "Code \<Rightarrow> bytes \<Rightarrow> bytes \<Rightarrow> Status" where
  "Status_new code msg msg2 =
     (let len1 = word_of_nat (length msg) :: u32;
          len2 = word_of_nat (length msg2) :: u32;
          size = len1 + (if len2 \<noteq> 0 then 2 + len2 else 0)
      in Some (EncodeFixed32 size @ [code_byte code] @ take (unat len1) msg @
               (if len2 \<noteq> 0 then [0x3A, 0x20] @ take (unat len2) msg2 else [])))"

definition Status_OK :: Status where
  "Status_OK = None"

definition Status_NotFound :: "bytes \<Rightarrow> bytes \<Rightarrow> Status" where
  "Status_NotFound msg msg2 = Status_new kNotFound msg msg2"

definition Status_Corruption :: "bytes \<Rightarrow> bytes \<Rightarrow> Status" where
  "Status_Corruption msg msg2 = Status_new kCorruption msg msg2"

definition Status_NotSupported :: "bytes \<Rightarrow> bytes \<Rightarrow> Status" where
  "Status_NotSupported msg msg2 = Status_new kNotSupported msg msg2"

definition Status_InvalidArgument :: "bytes \<Rightarrow> bytes \<Rightarrow> Status" where
  "Status_InvalidArgument msg msg2 = Status_new kInvalidArgument msg msg2"

definition Status_IOError :: "bytes \<Rightarrow> bytes \<Rightarrow> Status" where
  "Status_IOError msg msg2 = Status_new kIOError msg msg2"

definition status_ok :: "Status \<Rightarrow> bool" where
  "status_ok s \<longleftrightarrow> s = None"

definition status_code :: "Status \<Rightarrow> byte" where
  "status_code s = (case s of None \<Rightarrow> code_byte kOk | Some state \<Rightarrow> state ! 4)"

definition IsNotFound :: "Status \<Rightarrow> bool" where
  "IsNotFound s \<longleftrightarrow> status_code s = code_byte kNotFound"

definition IsCorruption :: "Status \<Rightarrow> bool" where
  "IsCorruption s \<longleftrightarrow> status_code s = code_byte kCorruption"

definition IsIOError :: "Status \<Rightarrow> bool" where
  "IsIOError s \<longleftrightarrow> status_code s = code_byte kIOError"

definition IsNotSupportedError :: "Status \<Rightarrow> bool" where
  "IsNotSupportedError s \<longleftrightarrow> status_code s = code_byte kNotSupported"

definition IsInvalidArgument :: "Status \<Rightarrow> bool" where
  "IsInvalidArgument s \<longleftrightarrow> status_code s = code_byte kInvalidArgument"

text \<open>Copying reads the length from the array and copies that many bytes and five more.\<close>

definition CopyState :: "bytes \<Rightarrow> bytes" where
  "CopyState state = take (unat (DecodeFixed32 state + 5)) state"

definition Status_copy :: "Status \<Rightarrow> Status" where
  "Status_copy rhs = (case rhs of None \<Rightarrow> None | Some state \<Rightarrow> Some (CopyState state))"

text \<open>The text of a status. The code is read back as a signed \<open>char\<close>.\<close>

definition status_type_text :: "byte \<Rightarrow> bytes" where
  "status_type_text code =
     (if code = code_byte kOk then cstr ''OK''
      else if code = code_byte kNotFound then cstr ''NotFound: ''
      else if code = code_byte kCorruption then cstr ''Corruption: ''
      else if code = code_byte kNotSupported then cstr ''Not implemented: ''
      else if code = code_byte kInvalidArgument then cstr ''Invalid argument: ''
      else if code = code_byte kIOError then cstr ''IO error: ''
      else cstr ''Unknown code('' @ signed_decimal (sint code) @ cstr ''): '')"

definition status_ToString :: "Status \<Rightarrow> bytes" where
  "status_ToString s =
     (case s of
        None \<Rightarrow> cstr ''OK''
      | Some state \<Rightarrow>
          status_type_text (status_code s) @ take (unat (DecodeFixed32 state)) (drop 5 state))"

lemmas status_ctor_defs =
  Status_OK_def Status_NotFound_def Status_Corruption_def Status_NotSupported_def
  Status_InvalidArgument_def Status_IOError_def

lemmas status_test_defs =
  IsNotFound_def IsCorruption_def IsIOError_def IsNotSupportedError_def IsInvalidArgument_def

lemma status_code_new [simp]: "status_code (Status_new code msg msg2) = code_byte code"
  by (simp add: Status_new_def status_code_def Let_def nth_append)

lemma code_byte_inj [simp]: "code_byte a = code_byte b \<longleftrightarrow> a = b"
  by (cases a; cases b) (simp_all add: code_byte_def)

lemma status_ok_new [simp]: "\<not> status_ok (Status_new code msg msg2)"
  by (simp add: status_ok_def Status_new_def Let_def)

lemma status_ok_OK [simp]: "status_ok Status_OK"
  by (simp add: status_ok_def Status_OK_def)

text \<open>The message a status carries.\<close>

definition status_message :: "bytes \<Rightarrow> bytes \<Rightarrow> bytes" where
  "status_message msg msg2 = msg @ (if msg2 = [] then [] else [0x3A, 0x20] @ msg2)"

lemma Status_new_layout:
  assumes "length msg + length msg2 + 7 < 2 ^ 32"
  shows "Status_new code msg msg2 =
    Some (EncodeFixed32 (word_of_nat (length (status_message msg msg2))) @ [code_byte code] @
          status_message msg msg2)"
proof -
  have "(word_of_nat (length msg2) :: u32) = 0 \<longleftrightarrow> msg2 = []"
    using assms by (simp add: word_unat_eq_iff)
  then show ?thesis using assms
    by (simp add: Status_new_def Let_def status_message_def)
qed

lemma status_message_bound:
  "length msg + length msg2 + 7 < 2 ^ 32 \<Longrightarrow> length (status_message msg msg2) + 5 < 2 ^ 32"
  by (simp add: status_message_def)

lemma Status_copy_new:
  assumes "length msg + length msg2 + 7 < 2 ^ 32"
  shows "Status_copy (Status_new code msg msg2) = Status_new code msg msg2"
proof -
  let ?m = "status_message msg msg2"
  have "(word_of_nat (length ?m) :: u32) + 5 = word_of_nat (length ?m + 5)" by simp
  then have "unat ((word_of_nat (length ?m) :: u32) + 5) = length ?m + 5"
    using status_message_bound [OF assms] by (simp only: word_of_nat_length_u32)
  then show ?thesis
    by (simp add: Status_new_layout [OF assms] Status_copy_def CopyState_def codec_simps)
qed

lemma status_ToString_new:
  assumes "length msg + length msg2 + 7 < 2 ^ 32"
  shows "status_ToString (Status_new code msg msg2) =
    status_type_text (code_byte code) @ status_message msg msg2"
proof -
  have "unat (word_of_nat (length (status_message msg msg2)) :: u32) = length (status_message msg msg2)"
    using status_message_bound [OF assms] by simp
  then show ?thesis
    using status_code_new [of code msg msg2]
    by (simp add: status_ToString_def Status_new_layout [OF assms] codec_simps)
qed

text \<open>The five kinds of failure: their constructor, the test for them and the start of their text.\<close>

definition status_kinds :: "((bytes \<Rightarrow> bytes \<Rightarrow> Status) \<times> (Status \<Rightarrow> bool) \<times> bytes) list" where
  "status_kinds =
     [(Status_NotFound, IsNotFound, cstr ''NotFound: ''),
      (Status_Corruption, IsCorruption, cstr ''Corruption: ''),
      (Status_NotSupported, IsNotSupportedError, cstr ''Not implemented: ''),
      (Status_InvalidArgument, IsInvalidArgument, cstr ''Invalid argument: ''),
      (Status_IOError, IsIOError, cstr ''IO error: '')]"

lemma status_kinds_nth:
  assumes "i < length status_kinds"
  obtains code where "code \<noteq> kOk" "\<And>msg msg2. fst (status_kinds ! i) msg msg2 = Status_new code msg msg2"
    "snd (snd (status_kinds ! i)) = status_type_text (code_byte code)"
    "\<And>j s. j < length status_kinds \<Longrightarrow> status_code s = code_byte code \<Longrightarrow> fst (snd (status_kinds ! j)) s \<longleftrightarrow> i = j"
proof -
  let ?codes = "[kNotFound, kCorruption, kNotSupported, kInvalidArgument, kIOError]"
  have i: "i \<in> {0, 1, 2, 3, 4}" using assms by (auto simp: status_kinds_def)
  have j: "fst (snd (status_kinds ! j)) s \<longleftrightarrow> i = j" if "j < length status_kinds" "status_code s = code_byte (?codes ! i)" for j s
  proof -
    have "j \<in> {0, 1, 2, 3, 4}" using that(1) by (auto simp: status_kinds_def)
    with i that(2) show ?thesis by (elim insertE) (simp_all add: status_kinds_def status_test_defs numeral_eq_Suc)
  qed
  show thesis
    by (rule that [of "?codes ! i"])
      (use i j in \<open>elim insertE; simp add: status_kinds_def status_ctor_defs status_type_text_def numeral_eq_Suc\<close>)+
qed

text \<open>C24: a status built by one of the five constructors from two messages is a failure, and after copying it, which
  is what passing it on does, exactly the test of its own kind recognises it among the five tests, and it prints the text of its kind, the first message and,
  after a colon, the second when there is one. The status OK is a success that no test takes for a failure, and prints \<open>OK\<close>.\<close>

theorem status_round_trip:
  assumes "length msg + length msg2 + 7 < 2 ^ 32"
  shows "(\<forall>i < length status_kinds. \<forall>ctor test label. status_kinds ! i = (ctor, test, label) \<longrightarrow>
      \<not> status_ok (Status_copy (ctor msg msg2)) \<and>
      (\<forall>j < length status_kinds. fst (snd (status_kinds ! j)) (Status_copy (ctor msg msg2)) \<longleftrightarrow> i = j) \<and>
      status_ToString (Status_copy (ctor msg msg2)) = label @ msg @ (if msg2 = [] then [] else cstr '': '' @ msg2)) \<and>
    status_ok (Status_copy Status_OK) \<and> (\<forall>(ctor, test, label)\<in>set status_kinds. \<not> test (Status_copy Status_OK)) \<and>
    status_ToString (Status_copy Status_OK) = cstr ''OK''"
proof -
  have "\<not> status_ok (Status_copy (ctor msg msg2)) \<and>
      (\<forall>j < length status_kinds. fst (snd (status_kinds ! j)) (Status_copy (ctor msg msg2)) \<longleftrightarrow> i = j) \<and>
      status_ToString (Status_copy (ctor msg msg2)) = label @ msg @ (if msg2 = [] then [] else cstr '': '' @ msg2)"
    if i: "i < length status_kinds" and k: "status_kinds ! i = (ctor, test, label)" for i ctor test label
  proof -
    obtain code where c: "\<And>msg msg2. ctor msg msg2 = Status_new code msg msg2" "label = status_type_text (code_byte code)"
      "\<And>j s. j < length status_kinds \<Longrightarrow> status_code s = code_byte code \<Longrightarrow> fst (snd (status_kinds ! j)) s \<longleftrightarrow> i = j"
      by (rule status_kinds_nth [OF i]) (simp add: k)
    have t: "fst (snd (status_kinds ! j)) (Status_new code msg msg2) \<longleftrightarrow> i = j" if "j < length status_kinds" for j
      using c(3) [OF that] by simp
    show ?thesis unfolding c(1,2) Status_copy_new [OF assms] status_ToString_new [OF assms]
      using t by (simp add: status_message_def cstr_def)
  qed
  moreover have "\<forall>(ctor, test, label)\<in>set status_kinds. \<not> test (Status_copy Status_OK)"
    by (simp add: status_kinds_def Status_OK_def Status_copy_def status_test_defs status_code_def)
  ultimately show ?thesis by (auto simp: Status_OK_def Status_copy_def status_ok_def status_ToString_def)
qed

theorem status_round_trip_witness:
  "length (cstr ''VersionEdit'') + length (cstr ''unknown tag'') + 7 < 2 ^ 32 \<and>
   status_ToString (Status_copy (Status_Corruption (cstr ''VersionEdit'') (cstr ''unknown tag''))) =
     cstr ''Corruption: VersionEdit: unknown tag'' \<and>
   status_ToString (Status_copy (Status_IOError (cstr ''VersionEdit'') (cstr ''unknown tag''))) =
     cstr ''IO error: VersionEdit: unknown tag''"
proof -
  have h: "length (cstr ''VersionEdit'') + length (cstr ''unknown tag'') + 7 < 2 ^ 32" by simp
  note R = status_round_trip [OF h, THEN conjunct1, rule_format]
  have k: "1 < length status_kinds" "status_kinds ! 1 = (Status_Corruption, IsCorruption, cstr ''Corruption: '')"
      "4 < length status_kinds" "status_kinds ! 4 = (Status_IOError, IsIOError, cstr ''IO error: '')"
    by (simp_all add: status_kinds_def)
  show ?thesis using h R [OF k(1,2)] R [OF k(3,4)] by (simp add: cstr_def)
qed

end
