(* ===== verification/Ldb_Logging.thy ===== *)
theory Ldb_Logging
  imports Ldb_Comparator Ldb_Status
begin

section \<open>leveldb: printing numbers, file names (util/logging.cc, db/filename.cc)\<close>

text \<open>
  The text routines of util/logging.cc and the file-name routines of db/filename.cc that are
  built on them. \<open>snprintf\<close> with \<open>%llu\<close>, \<open>%06llu\<close> and \<open>%02x\<close> is the conversion the C
  standard describes: decimal digits without leading zeros, padded on the left with zeros to
  the width; the buffers of the callers (30, 100 and 10 bytes) hold every such conversion.
\<close>

subsection \<open>Printing numbers\<close>

definition AppendNumberTo :: "bytes \<Rightarrow> u64 \<Rightarrow> bytes" where
  "AppendNumberTo str num = str @ decimal (unat num)"

text \<open>The range test compares a signed \<open>char\<close>: a byte from 0x80 up is negative and escaped.
  The escape is a backslash (0x5C), an \<open>x\<close> (0x78) and two digits.\<close>

fun AppendEscapedStringTo :: "bytes \<Rightarrow> bytes \<Rightarrow> bytes" where
  "AppendEscapedStringTo str [] = str"
| "AppendEscapedStringTo str (c # value) =
     (if sint c \<ge> 32 \<and> sint c \<le> 126 then AppendEscapedStringTo (str @ [c]) value
      else AppendEscapedStringTo (str @ [0x5C, 0x78] @ hex2 c) value)"

definition NumberToString :: "u64 \<Rightarrow> bytes" where
  "NumberToString num = AppendNumberTo [] num"

definition EscapeString :: "bytes \<Rightarrow> bytes" where
  "EscapeString value = AppendEscapedStringTo [] value"

subsection \<open>Reading a decimal number\<close>

definition kMaxUint64 :: u64 where
  "kMaxUint64 = - 1"

definition kLastDigitOfMaxUint64 :: byte where
  "kLastDigitOfMaxUint64 = 48 + ucast (kMaxUint64 mod 10)"

text \<open>The loop returns \<open>None\<close> on overflow, else the value, the number of digits consumed and
  what is left.\<close>

fun ConsumeDecimalNumber_loop :: "u64 \<Rightarrow> nat \<Rightarrow> bytes \<Rightarrow> (u64 \<times> nat \<times> bytes) option" where
  "ConsumeDecimalNumber_loop value digits [] = Some (value, digits, [])"
| "ConsumeDecimalNumber_loop value digits (ch # current) =
     (if ch < 48 \<or> ch > 57 then Some (value, digits, ch # current)
      else if value > kMaxUint64 div 10 \<or>
              (value = kMaxUint64 div 10 \<and> ch > kLastDigitOfMaxUint64) then None
      else ConsumeDecimalNumber_loop (value * 10 + ucast (ch - 48)) (digits + 1) current)"

text \<open>The result (\<open>None\<close> when the routine returns false before it stores anything) and the
  slice left behind.\<close>

definition ConsumeDecimalNumber :: "bytes \<Rightarrow> bool \<times> u64 option \<times> bytes" where
  "ConsumeDecimalNumber inp =
     (case ConsumeDecimalNumber_loop 0 0 inp of
        None \<Rightarrow> (False, None, inp)
      | Some (value, digits_consumed, rest) \<Rightarrow> (digits_consumed \<noteq> 0, Some value, rest))"

subsection \<open>File names\<close>

datatype FileType =
    kLogFile | kDBLockFile | kTableFile | kDescriptorFile | kCurrentFile | kTempFile | kInfoLogFile

definition MakeFileName :: "bytes \<Rightarrow> u64 \<Rightarrow> bytes \<Rightarrow> bytes" where
  "MakeFileName dbname number suffix =
     dbname @ cstr ''/'' @ zero_pad 6 (decimal (unat number)) @ cstr ''.'' @ suffix"

definition LogFileName :: "bytes \<Rightarrow> u64 \<Rightarrow> bytes" where
  "LogFileName dbname number = MakeFileName dbname number (cstr ''log'')"

definition TableFileName :: "bytes \<Rightarrow> u64 \<Rightarrow> bytes" where
  "TableFileName dbname number = MakeFileName dbname number (cstr ''ldb'')"

definition SSTTableFileName :: "bytes \<Rightarrow> u64 \<Rightarrow> bytes" where
  "SSTTableFileName dbname number = MakeFileName dbname number (cstr ''sst'')"

definition DescriptorFileName :: "bytes \<Rightarrow> u64 \<Rightarrow> bytes" where
  "DescriptorFileName dbname number =
     dbname @ cstr ''/MANIFEST-'' @ zero_pad 6 (decimal (unat number))"

definition CurrentFileName :: "bytes \<Rightarrow> bytes" where
  "CurrentFileName dbname = dbname @ cstr ''/CURRENT''"

definition LockFileName :: "bytes \<Rightarrow> bytes" where
  "LockFileName dbname = dbname @ cstr ''/LOCK''"

definition TempFileName :: "bytes \<Rightarrow> u64 \<Rightarrow> bytes" where
  "TempFileName dbname number = MakeFileName dbname number (cstr ''dbtmp'')"

definition InfoLogFileName :: "bytes \<Rightarrow> bytes" where
  "InfoLogFileName dbname = dbname @ cstr ''/LOG''"

definition OldInfoLogFileName :: "bytes \<Rightarrow> bytes" where
  "OldInfoLogFileName dbname = dbname @ cstr ''/LOG.old''"

definition ParseFileName :: "bytes \<Rightarrow> (u64 \<times> FileType) option" where
  "ParseFileName filename =
     (if slice_eq filename (cstr ''CURRENT'') then Some (0, kCurrentFile)
      else if slice_eq filename (cstr ''LOCK'') then Some (0, kDBLockFile)
      else if slice_eq filename (cstr ''LOG'') \<or> slice_eq filename (cstr ''LOG.old'')
        then Some (0, kInfoLogFile)
      else if starts_with filename (cstr ''MANIFEST-'') then
        (case ConsumeDecimalNumber (remove_prefix (length ''MANIFEST-'') filename) of
           (True, Some num, rest) \<Rightarrow> if rest \<noteq> [] then None else Some (num, kDescriptorFile)
         | _ \<Rightarrow> None)
      else
        (case ConsumeDecimalNumber filename of
           (True, Some num, suffix) \<Rightarrow>
             if slice_eq suffix (cstr ''.log'') then Some (num, kLogFile)
             else if slice_eq suffix (cstr ''.sst'') \<or> slice_eq suffix (cstr ''.ldb'')
               then Some (num, kTableFile)
             else if slice_eq suffix (cstr ''.dbtmp'') then Some (num, kTempFile)
             else None
         | _ \<Rightarrow> None))"

subsection \<open>Reading a number is exact\<close>

definition is_digit :: "byte \<Rightarrow> bool" where
  "is_digit c \<longleftrightarrow> 48 \<le> unat c \<and> unat c \<le> 57"

definition dec_value :: "nat \<Rightarrow> bytes \<Rightarrow> nat" where
  "dec_value n ds = foldl (\<lambda>a c. a * 10 + (unat c - 48)) n ds"

lemma dec_value_simps [simp]:
  "dec_value n [] = n"
  "dec_value n (c # ds) = dec_value (n * 10 + (unat c - 48)) ds"
  "dec_value n (as @ bs) = dec_value (dec_value n as) bs"
  by (simp_all add: dec_value_def)

lemma dec_value_ge: "n \<le> dec_value n ds"
proof (induction ds arbitrary: n)
  case (Cons c ds)
  have "n \<le> n * 10 + (unat c - 48)" by simp
  also have "\<dots> \<le> dec_value (n * 10 + (unat c - 48)) ds" by (rule Cons.IH)
  finally show ?case by simp
qed simp

lemma not_digit_iff: "(ch < 48 \<or> ch > 57) \<longleftrightarrow> \<not> is_digit (ch :: byte)"
  by (auto simp: is_digit_def word_less_nat_alt)

lemma max_u64_consts: "kMaxUint64 div 10 = 1844674407370955161" "kLastDigitOfMaxUint64 = 53"
  by (simp_all add: kMaxUint64_def kLastDigitOfMaxUint64_def)

lemma digit_step:
  assumes "is_digit ch"
  shows "(v > kMaxUint64 div 10 \<or> (v = kMaxUint64 div 10 \<and> ch > kLastDigitOfMaxUint64))
      \<longleftrightarrow> 2 ^ 64 \<le> unat v * 10 + (unat ch - 48)" (is "?over \<longleftrightarrow> ?big")
    and "\<not> 2 ^ 64 \<le> unat v * 10 + (unat ch - 48) \<Longrightarrow>
      unat (v * 10 + ucast (ch - 48) :: u64) = unat v * 10 + (unat ch - 48)"
proof -
  have d: "unat (ch - 48) = unat ch - 48"
    using assms by (simp add: is_digit_def unat_sub word_le_nat_alt)
  have c: "unat (ucast (ch - 48) :: u64) = unat ch - 48"
    using unat_u8_less [of "ch - 48"] d by (simp add: unsigned_ucast_eq take_bit_nat_eq_self)
  show "?over \<longleftrightarrow> ?big"
    using assms
    by (auto simp: max_u64_consts word_less_nat_alt word_unat_eq_iff is_digit_def)
  show "unat (v * 10 + ucast (ch - 48) :: u64) = unat v * 10 + (unat ch - 48)" if "\<not> ?big"
    using that c by (simp add: unat_word_ariths)
qed

lemma ConsumeDecimalNumber_loop_digits:
  assumes "list_all is_digit ds" and "rest = [] \<or> \<not> is_digit (hd rest)"
  shows "ConsumeDecimalNumber_loop v k (ds @ rest) =
    (if dec_value (unat v) ds < 2 ^ 64
     then Some (word_of_nat (dec_value (unat v) ds), k + length ds, rest) else None)"
  using assms(1)
proof (induction ds arbitrary: v k)
  case Nil
  have "unat v < 2 ^ 64" using unsigned_less [of v, where 'a = nat] by simp
  then show ?case using assms(2) by (cases rest) (auto simp: not_digit_iff)
next
  case (Cons c ds)
  then have c: "is_digit c" and ds: "list_all is_digit ds" by simp_all
  show ?case
  proof (cases "2 ^ 64 \<le> unat v * 10 + (unat c - 48)")
    case True
    then have "\<not> dec_value (unat v) (c # ds) < 2 ^ 64"
      using dec_value_ge [of "unat v * 10 + (unat c - 48)" ds] by simp
    then show ?thesis using True c digit_step(1) [OF c, of v] not_digit_iff [of c] by simp
  next
    case False
    then show ?thesis
      using c Cons.IH [OF ds] digit_step [OF c, of v] not_digit_iff [of c] by auto
  qed
qed

lemma ConsumeDecimalNumber_digits:
  assumes "list_all is_digit ds" and "ds \<noteq> []" and "rest = [] \<or> \<not> is_digit (hd rest)"
  shows "ConsumeDecimalNumber (ds @ rest) =
    (if dec_value 0 ds < 2 ^ 64 then (True, Some (word_of_nat (dec_value 0 ds)), rest)
     else (False, None, ds @ rest))"
  using ConsumeDecimalNumber_loop_digits [OF assms(1,3), of 0 0] assms(2)
  by (simp add: ConsumeDecimalNumber_def)

lemma ConsumeDecimalNumber_no_digits:
  "rest = [] \<or> \<not> is_digit (hd rest) \<Longrightarrow> ConsumeDecimalNumber rest = (False, Some 0, rest)"
  using ConsumeDecimalNumber_loop_digits [of "[]" rest 0 0] by (simp add: ConsumeDecimalNumber_def)

lemma unat_digit [simp]: "n < 10 \<Longrightarrow> unat (word_of_nat (48 + n) :: byte) = 48 + n"
  by (simp add: unat_of_nat take_bit_nat_eq_self del: of_nat_add)

lemma decimal_digits: "list_all is_digit (decimal n) \<and> decimal n \<noteq> [] \<and> dec_value 0 (decimal n) = n"
proof (induction n rule: decimal.induct)
  case (1 n)
  show ?case
  proof (cases "n < 10")
    case True
    then show ?thesis by (subst (1 2 3) decimal.simps) (simp add: is_digit_def del: of_nat_add)
  next
    case False
    have "unat (word_of_nat (48 + n mod 10) :: byte) = 48 + n mod 10" by (rule unat_digit) simp
    moreover from this have "is_digit (word_of_nat (48 + n mod 10))"
      by (simp only: is_digit_def) simp
    moreover have "decimal n = decimal (n div 10) @ [word_of_nat (48 + n mod 10)]"
      using False by (subst decimal.simps) simp
    ultimately show ?thesis using 1 False by (simp del: of_nat_add)
  qed
qed

lemma zero_pad_digits:
  "list_all is_digit (zero_pad w (decimal n)) \<and> zero_pad w (decimal n) \<noteq> [] \<and>
   dec_value 0 (zero_pad w (decimal n)) = n"
proof -
  have "dec_value 0 (replicate k 48) = 0" for k by (induction k) auto
  then show ?thesis using decimal_digits [of n]
    by (auto simp: zero_pad_def list_all_iff is_digit_def)
qed


subsection \<open>File names\<close>

lemma unat_u64_less: "unat (n :: u64) < 2 ^ 64"
  using unsigned_less [of n, where 'a = nat] by simp

lemma Consume_number_name:
  assumes "rest = [] \<or> \<not> is_digit (hd rest)"
  shows "ConsumeDecimalNumber (zero_pad w (decimal (unat (n :: u64))) @ rest) = (True, Some n, rest)"
  using ConsumeDecimalNumber_digits [OF _ _ assms, of "zero_pad w (decimal (unat n))"]
    zero_pad_digits [of w "unat n"] unat_u64_less [of n]
  by simp

lemma zero_pad_decimal_hd:
  obtains c cs where "zero_pad w (decimal n) = c # cs" and "is_digit c"
  using zero_pad_digits [of w n] by (cases "zero_pad w (decimal n)") auto

lemma letter_not_digit: "\<not> is_digit 67" "\<not> is_digit 76" "\<not> is_digit 77" "\<not> is_digit 46"
  by (simp_all add: is_digit_def)

lemma name_not_special:
  fixes n :: nat and sfx :: bytes
  shows "zero_pad w (decimal n) @ sfx \<noteq> cstr ''CURRENT''"
    and "zero_pad w (decimal n) @ sfx \<noteq> cstr ''LOCK''"
    and "zero_pad w (decimal n) @ sfx \<noteq> cstr ''LOG''"
    and "zero_pad w (decimal n) @ sfx \<noteq> cstr ''LOG.old''"
    and "\<not> starts_with (zero_pad w (decimal n) @ sfx) (cstr ''MANIFEST-'')"
  by (rule zero_pad_decimal_hd [of w n]; auto simp: cstr_def starts_with_iff letter_not_digit)+

lemma ParseFileName_numbered:
  assumes "sfx \<noteq> []" and "\<not> is_digit (hd sfx)"
  shows "ParseFileName (zero_pad 6 (decimal (unat n)) @ sfx) =
    (if sfx = cstr ''.log'' then Some (n, kLogFile)
     else if sfx = cstr ''.sst'' \<or> sfx = cstr ''.ldb'' then Some (n, kTableFile)
     else if sfx = cstr ''.dbtmp'' then Some (n, kTempFile) else None)"
  using assms Consume_number_name [of sfx 6 n]
  by (simp add: ParseFileName_def name_not_special)

definition base_name :: "bytes \<Rightarrow> bytes \<Rightarrow> bytes" where
  "base_name dbname path = remove_prefix (length dbname + 1) path"

lemma base_name_MakeFileName:
  "base_name dbname (MakeFileName dbname n sfx) = zero_pad 6 (decimal (unat n)) @ cstr ''.'' @ sfx"
  by (simp add: base_name_def remove_prefix_def MakeFileName_def)

lemma ParseFileName_descriptor:
  "ParseFileName (base_name dbname (DescriptorFileName dbname n)) = Some (n, kDescriptorFile)"
proof -
  let ?d = "zero_pad 6 (decimal (unat n))"
  have b: "base_name dbname (DescriptorFileName dbname n) = cstr ''MANIFEST-'' @ ?d"
    by (simp add: base_name_def remove_prefix_def DescriptorFileName_def cstr_def)
  have "ConsumeDecimalNumber ?d = (True, Some n, [])"
    using Consume_number_name [of "[]" 6 n] by simp
  then show ?thesis
    by (simp add: b ParseFileName_def starts_with_iff remove_prefix_def) (simp add: cstr_def)
qed

text \<open>C25: the names the database builds for its log, table, descriptor, temporary and fixed files
  are recognised by \<open>ParseFileName\<close> with the number and the type they were built from.\<close>

theorem file_names_round_trip:
  "ParseFileName (base_name dbname (LogFileName dbname n)) = Some (n, kLogFile) \<and>
   ParseFileName (base_name dbname (TableFileName dbname n)) = Some (n, kTableFile) \<and>
   ParseFileName (base_name dbname (SSTTableFileName dbname n)) = Some (n, kTableFile) \<and>
   ParseFileName (base_name dbname (DescriptorFileName dbname n)) = Some (n, kDescriptorFile) \<and>
   ParseFileName (base_name dbname (TempFileName dbname n)) = Some (n, kTempFile) \<and>
   ParseFileName (base_name dbname (CurrentFileName dbname)) = Some (0, kCurrentFile) \<and>
   ParseFileName (base_name dbname (LockFileName dbname)) = Some (0, kDBLockFile) \<and>
   ParseFileName (base_name dbname (InfoLogFileName dbname)) = Some (0, kInfoLogFile) \<and>
   ParseFileName (base_name dbname (OldInfoLogFileName dbname)) = Some (0, kInfoLogFile)"
proof -
  have p: "ParseFileName (base_name dbname (MakeFileName dbname n (cstr s))) =
    (if s = ''log'' then Some (n, kLogFile)
     else if s = ''sst'' \<or> s = ''ldb'' then Some (n, kTableFile)
     else if s = ''dbtmp'' then Some (n, kTempFile) else None)"
    if "s \<in> {''log'', ''ldb'', ''sst'', ''dbtmp''}" for s
    using that ParseFileName_numbered [of "cstr (CHR ''.'' # s)" n]
    by (auto simp: base_name_MakeFileName cstr_def letter_not_digit)
  show ?thesis
    by (simp add: LogFileName_def TableFileName_def SSTTableFileName_def TempFileName_def p
        ParseFileName_descriptor)
      (simp add: CurrentFileName_def LockFileName_def InfoLogFileName_def OldInfoLogFileName_def
        base_name_def remove_prefix_def ParseFileName_def cstr_def)
qed

text \<open>C26: \<open>ConsumeDecimalNumber\<close> reads the longest run of digits and returns its value exactly
  when the value fits 64 bits; a number that does not fit is refused and nothing is consumed.\<close>

theorem consume_decimal_number_exact:
  assumes "list_all is_digit ds" and "ds \<noteq> []" and "rest = [] \<or> \<not> is_digit (hd rest)"
  shows "ConsumeDecimalNumber (ds @ rest) =
    (if dec_value 0 ds < 2 ^ 64 then (True, Some (word_of_nat (dec_value 0 ds)), rest)
     else (False, None, ds @ rest))"
  using assms by (rule ConsumeDecimalNumber_digits)

theorem consume_decimal_number_exact_witness:
  "list_all is_digit (cstr ''18446744073709551616'') \<and> cstr ''18446744073709551616'' \<noteq> [] \<and>
   ConsumeDecimalNumber (cstr ''18446744073709551616'' @ cstr ''.log'') =
     (False, None, cstr ''18446744073709551616.log'')"
proof -
  have h: "list_all is_digit (cstr ''18446744073709551616'')"
    by (simp add: cstr_def is_digit_def)
  have h2: "cstr ''.log'' = [] \<or> \<not> is_digit (hd (cstr ''.log''))"
    by (simp add: cstr_def letter_not_digit)
  have h3: "cstr ''18446744073709551616'' \<noteq> []" by (simp add: cstr_def)
  have v: "dec_value 0 (cstr ''18446744073709551616'') = 18446744073709551616"
    by (simp add: cstr_def)
  show ?thesis using h h3 consume_decimal_number_exact [OF h h3 h2] v
    by (simp add: cstr_append [symmetric])
qed

end
