(* ===== verification/Ldb_Env.thy ===== *)
theory Ldb_Env
  imports Ldb_Logging "HOL-Library.Monad_Syntax"
begin

text \<open>The environment interface of \<open>include/leveldb/env.h\<close>, its POSIX implementation in
  \<open>util/env_posix.cc\<close>, the helpers of \<open>util/env.cc\<close> and \<open>SetCurrentFile\<close> of \<open>db/filename.cc\<close>.

  The abstract classes are records of operations over the state they act on; the result \<open>None\<close> of
  an operation means that the call does not return (a system call that is interrupted for ever).
  The kernel is a parameter: a record \<open>kernel_ops\<close> of system calls over a kernel state. A call that
  fails returns \<open>Inl errno\<close>, one that succeeds \<open>Inr\<close> of its result.\<close>

subsection \<open>Interfaces\<close>

record 'f writable_file_ops =
  wf_Append :: "bytes \<Rightarrow> 'f \<Rightarrow> (Status \<times> 'f) option"
  wf_Close :: "'f \<Rightarrow> (Status \<times> 'f) option"
  wf_Flush :: "'f \<Rightarrow> (Status \<times> 'f) option"
  wf_Sync :: "'f \<Rightarrow> (Status \<times> 'f) option"
  wf_delete :: "'f \<Rightarrow> 'f option"

record 'f sequential_file_ops =
  sf_Read :: "nat \<Rightarrow> 'f \<Rightarrow> (Status \<times> bytes \<times> 'f) option"
  sf_Skip :: "u64 \<Rightarrow> 'f \<Rightarrow> Status \<times> 'f"
  sf_delete :: "'f \<Rightarrow> 'f"

record ('w, 'q, 'e) env_ops =
  env_NewSequentialFile :: "bytes \<Rightarrow> 'e \<Rightarrow> Status \<times> 'q option \<times> 'e"
  env_NewWritableFile :: "bytes \<Rightarrow> 'e \<Rightarrow> Status \<times> 'w option \<times> 'e"
  env_RemoveFile :: "bytes \<Rightarrow> 'e \<Rightarrow> Status \<times> 'e"
  env_RenameFile :: "bytes \<Rightarrow> bytes \<Rightarrow> 'e \<Rightarrow> Status \<times> 'e"
  env_writable :: "('w \<times> 'e) writable_file_ops"
  env_sequential :: "('q \<times> 'e) sequential_file_ops"

subsection \<open>System calls\<close>

datatype OpenMode = Open_RDONLY | Open_TRUNC_WRONLY_CREAT | Open_APPEND_WRONLY_CREAT | Open_RDWR_CREAT

type_synonym errno = int

record 'os kernel_ops =
  k_open :: "bytes \<Rightarrow> OpenMode \<Rightarrow> 'os \<Rightarrow> (errno + int) \<times> 'os"
  k_close :: "int \<Rightarrow> 'os \<Rightarrow> (errno + unit) \<times> 'os"
  k_read :: "int \<Rightarrow> nat \<Rightarrow> 'os \<Rightarrow> (errno + bytes) \<times> 'os"
  k_pread :: "int \<Rightarrow> nat \<Rightarrow> u64 \<Rightarrow> 'os \<Rightarrow> (errno + bytes) \<times> 'os"
  k_write :: "int \<Rightarrow> bytes \<Rightarrow> 'os \<Rightarrow> (errno + nat) \<times> 'os"
  k_lseek_cur :: "int \<Rightarrow> u64 \<Rightarrow> 'os \<Rightarrow> (errno + unit) \<times> 'os"
  k_fullfsync :: "int \<Rightarrow> 'os \<Rightarrow> (errno + unit) \<times> 'os"
  k_fsync :: "int \<Rightarrow> 'os \<Rightarrow> (errno + unit) \<times> 'os"
  k_unlink :: "bytes \<Rightarrow> 'os \<Rightarrow> (errno + unit) \<times> 'os"
  k_mkdir :: "bytes \<Rightarrow> 'os \<Rightarrow> (errno + unit) \<times> 'os"
  k_rmdir :: "bytes \<Rightarrow> 'os \<Rightarrow> (errno + unit) \<times> 'os"
  k_stat_size :: "bytes \<Rightarrow> 'os \<Rightarrow> (errno + u64) \<times> 'os"
  k_rename :: "bytes \<Rightarrow> bytes \<Rightarrow> 'os \<Rightarrow> (errno + unit) \<times> 'os"
  k_access :: "bytes \<Rightarrow> 'os \<Rightarrow> bool"
  k_children :: "bytes \<Rightarrow> 'os \<Rightarrow> (errno + bytes list) \<times> 'os"
  k_mmap :: "int \<Rightarrow> u64 \<Rightarrow> 'os \<Rightarrow> (errno + bytes) \<times> 'os"
  k_setlk :: "int \<Rightarrow> bool \<Rightarrow> 'os \<Rightarrow> (errno + unit) \<times> 'os"
  k_strerror :: "errno \<Rightarrow> bytes"

definition ENOENT :: errno where "ENOENT = 2"
definition EINTR :: errno where "EINTR = 4"
definition EINVAL :: errno where "EINVAL = 22"

definition kWritableFileBufferSize :: nat where
  "kWritableFileBufferSize = 65536"

definition PosixError :: "'os kernel_ops \<Rightarrow> bytes \<Rightarrow> errno \<Rightarrow> Status" where
  "PosixError K context error_number =
     (if error_number = ENOENT then Status_NotFound context (k_strerror K error_number)
      else Status_IOError context (k_strerror K error_number))"

text \<open>The status of a call whose result is not used.\<close>

definition posix_status :: "'os kernel_ops \<Rightarrow> bytes \<Rightarrow> (errno + 'a) \<Rightarrow> Status" where
  "posix_status K context r = (case r of Inl e \<Rightarrow> PosixError K context e | Inr _ \<Rightarrow> Status_OK)"

subsection \<open>Limiter\<close>

definition Limiter_Acquire :: "int \<Rightarrow> bool \<times> int" where
  "Limiter_Acquire acquires_allowed =
     (let old_acquires_allowed = acquires_allowed;
          acquires_allowed = acquires_allowed - 1
      in if old_acquires_allowed > 0 then (True, acquires_allowed)
         else (False, acquires_allowed + 1))"

definition Limiter_Release :: "int \<Rightarrow> int" where
  "Limiter_Release acquires_allowed = acquires_allowed + 1"

subsection \<open>PosixSequentialFile\<close>

record PosixSequentialFile =
  psf_fd :: int
  psf_filename :: bytes

partial_function (option) PosixSequential_read_loop ::
    "'os kernel_ops \<Rightarrow> int \<Rightarrow> nat \<Rightarrow> 'os \<Rightarrow> ((errno + bytes) \<times> 'os) option" where
  "PosixSequential_read_loop K fd n os =
     (let r = k_read K fd n os in
      if isl (fst r) \<and> projl (fst r) = EINTR then PosixSequential_read_loop K fd n (snd r)
      else Some r)"

definition PosixSequentialFile_Read ::
    "'os kernel_ops \<Rightarrow> nat \<Rightarrow> PosixSequentialFile \<times> 'os \<Rightarrow>
     (Status \<times> bytes \<times> PosixSequentialFile \<times> 'os) option" where
  "PosixSequentialFile_Read K n fe =
     (case fe of (f, os) \<Rightarrow>
      (case PosixSequential_read_loop K (psf_fd f) n os of
         None \<Rightarrow> None
       | Some (Inl e, os') \<Rightarrow> Some (PosixError K (psf_filename f) e, [], f, os')
       | Some (Inr result, os') \<Rightarrow> Some (Status_OK, result, f, os')))"

definition PosixSequentialFile_Skip ::
    "'os kernel_ops \<Rightarrow> u64 \<Rightarrow> PosixSequentialFile \<times> 'os \<Rightarrow> Status \<times> PosixSequentialFile \<times> 'os" where
  "PosixSequentialFile_Skip K n fe =
     (case fe of (f, os) \<Rightarrow>
      (case k_lseek_cur K (psf_fd f) n os of (r, os') \<Rightarrow> (posix_status K (psf_filename f) r, f, os')))"

definition PosixSequentialFile_ops ::
    "'os kernel_ops \<Rightarrow> (PosixSequentialFile \<times> 'os) sequential_file_ops" where
  "PosixSequentialFile_ops K =
     \<lparr>sf_Read = PosixSequentialFile_Read K, sf_Skip = PosixSequentialFile_Skip K,
      sf_delete = (\<lambda>(f, os). (f, snd (k_close K (psf_fd f) os)))\<rparr>"

subsection \<open>PosixRandomAccessFile and PosixMmapReadableFile\<close>

record PosixRandomAccessFile =
  praf_has_permanent_fd :: bool
  praf_fd :: int
  praf_filename :: bytes

definition PosixRandomAccessFile_new ::
    "'os kernel_ops \<Rightarrow> bytes \<Rightarrow> int \<Rightarrow> int \<Rightarrow> 'os \<Rightarrow> PosixRandomAccessFile \<times> int \<times> 'os" where
  "PosixRandomAccessFile_new K filename fd fd_limiter os =
     (case Limiter_Acquire fd_limiter of (permanent, fd_limiter) \<Rightarrow>
      (\<lparr>praf_has_permanent_fd = permanent, praf_fd = (if permanent then fd else -1), praf_filename = filename\<rparr>,
       fd_limiter, if permanent then os else snd (k_close K fd os)))"

definition PosixRandomAccessFile_delete ::
    "'os kernel_ops \<Rightarrow> PosixRandomAccessFile \<Rightarrow> int \<Rightarrow> 'os \<Rightarrow> int \<times> 'os" where
  "PosixRandomAccessFile_delete K f fd_limiter os =
     (if praf_has_permanent_fd f then (Limiter_Release fd_limiter, snd (k_close K (praf_fd f) os))
      else (fd_limiter, os))"

definition PosixRandomAccessFile_Read ::
    "'os kernel_ops \<Rightarrow> PosixRandomAccessFile \<Rightarrow> u64 \<Rightarrow> nat \<Rightarrow> 'os \<Rightarrow> Status \<times> bytes \<times> 'os" where
  "PosixRandomAccessFile_Read K f offset n os =
     (let finish = (\<lambda>fd os.
            case k_pread K fd n offset os of (r, os) \<Rightarrow>
              (let os = (if praf_has_permanent_fd f then os else snd (k_close K fd os))
               in (posix_status K (praf_filename f) r, case r of Inl _ \<Rightarrow> [] | Inr result \<Rightarrow> result, os)))
      in if praf_has_permanent_fd f then finish (praf_fd f) os
         else (case k_open K (praf_filename f) Open_RDONLY os of
                 (Inl e, os) \<Rightarrow> (PosixError K (praf_filename f) e, [], os)
               | (Inr fd, os) \<Rightarrow> finish fd os))"

record PosixMmapReadableFile =
  pmrf_base :: bytes
  pmrf_length :: u64
  pmrf_filename :: bytes

definition PosixMmapReadableFile_Read ::
    "'os kernel_ops \<Rightarrow> PosixMmapReadableFile \<Rightarrow> u64 \<Rightarrow> u64 \<Rightarrow> Status \<times> bytes" where
  "PosixMmapReadableFile_Read K f offset n =
     (if offset + n > pmrf_length f then (PosixError K (pmrf_filename f) EINVAL, [])
      else (Status_OK, take (unat n) (drop (unat offset) (pmrf_base f))))"

subsection \<open>PosixWritableFile\<close>

text \<open>\<open>pwf_buf\<close> is \<open>buf_[0, pos_ - 1]\<close>.\<close>

record PosixWritableFile =
  pwf_buf :: bytes
  pwf_fd :: int
  pwf_is_manifest :: bool
  pwf_filename :: bytes
  pwf_dirname :: bytes

fun rfind :: "byte \<Rightarrow> bytes \<Rightarrow> nat option" where
  "rfind c [] = None"
| "rfind c (x # xs) =
     (case rfind c xs of Some i \<Rightarrow> Some (Suc i) | None \<Rightarrow> if x = c then Some 0 else None)"

definition Dirname :: "bytes \<Rightarrow> bytes" where
  "Dirname filename =
     (case rfind 0x2F filename of None \<Rightarrow> cstr ''.'' | Some separator_pos \<Rightarrow> take separator_pos filename)"

definition Basename :: "bytes \<Rightarrow> bytes" where
  "Basename filename =
     (case rfind 0x2F filename of None \<Rightarrow> filename | Some separator_pos \<Rightarrow> drop (separator_pos + 1) filename)"

definition IsManifest :: "bytes \<Rightarrow> bool" where
  "IsManifest filename \<longleftrightarrow> starts_with (Basename filename) (cstr ''MANIFEST'')"

definition PosixWritableFile_new :: "bytes \<Rightarrow> int \<Rightarrow> PosixWritableFile" where
  "PosixWritableFile_new filename fd =
     \<lparr>pwf_buf = [], pwf_fd = fd, pwf_is_manifest = IsManifest filename, pwf_filename = filename,
      pwf_dirname = Dirname filename\<rparr>"

partial_function (option) WriteUnbuffered ::
    "'os kernel_ops \<Rightarrow> bytes \<Rightarrow> int \<Rightarrow> bytes \<Rightarrow> 'os \<Rightarrow> (Status \<times> 'os) option" where
  "WriteUnbuffered K filename fd data os =
     (if data = [] then Some (Status_OK, os)
      else
        (let r = k_write K fd data os in
         if isl (fst r) then
           (if projl (fst r) = EINTR then WriteUnbuffered K filename fd data (snd r)
            else Some (PosixError K filename (projl (fst r)), snd r))
         else WriteUnbuffered K filename fd (drop (projr (fst r)) data) (snd r)))"

definition FlushBuffer ::
    "'os kernel_ops \<Rightarrow> PosixWritableFile \<times> 'os \<Rightarrow> (Status \<times> PosixWritableFile \<times> 'os) option" where
  "FlushBuffer K fe =
     (case fe of (f, os) \<Rightarrow>
      (case WriteUnbuffered K (pwf_filename f) (pwf_fd f) (pwf_buf f) os of
         None \<Rightarrow> None
       | Some (status, os) \<Rightarrow> Some (status, f\<lparr>pwf_buf := []\<rparr>, os)))"

definition PosixWritableFile_Append ::
    "'os kernel_ops \<Rightarrow> bytes \<Rightarrow> PosixWritableFile \<times> 'os \<Rightarrow> (Status \<times> PosixWritableFile \<times> 'os) option" where
  "PosixWritableFile_Append K data fe =
     (case fe of (f, os) \<Rightarrow>
      (let copy_size = min (length data) (kWritableFileBufferSize - length (pwf_buf f));
           f = f\<lparr>pwf_buf := pwf_buf f @ take copy_size data\<rparr>;
           write_data = drop copy_size data
       in if write_data = [] then Some (Status_OK, f, os)
          else
            (case FlushBuffer K (f, os) of
               None \<Rightarrow> None
             | Some (status, f, os) \<Rightarrow>
                 if \<not> status_ok status then Some (status, f, os)
                 else if length write_data < kWritableFileBufferSize
                 then Some (Status_OK, f\<lparr>pwf_buf := write_data\<rparr>, os)
                 else (case WriteUnbuffered K (pwf_filename f) (pwf_fd f) write_data os of
                         None \<Rightarrow> None
                       | Some (status, os) \<Rightarrow> Some (status, f, os)))))"

definition PosixWritableFile_Close ::
    "'os kernel_ops \<Rightarrow> PosixWritableFile \<times> 'os \<Rightarrow> (Status \<times> PosixWritableFile \<times> 'os) option" where
  "PosixWritableFile_Close K fe =
     (case FlushBuffer K fe of
        None \<Rightarrow> None
      | Some (status, f, os) \<Rightarrow>
          (case k_close K (pwf_fd f) os of (close_result, os) \<Rightarrow>
             Some (case close_result of
                     Inl e \<Rightarrow> if status_ok status then PosixError K (pwf_filename f) e else status
                   | Inr _ \<Rightarrow> status,
                   f\<lparr>pwf_fd := -1\<rparr>, os)))"

definition PosixWritableFile_Flush ::
    "'os kernel_ops \<Rightarrow> PosixWritableFile \<times> 'os \<Rightarrow> (Status \<times> PosixWritableFile \<times> 'os) option" where
  "PosixWritableFile_Flush K fe = FlushBuffer K fe"

text \<open>The build defines \<open>HAVE_FULLFSYNC\<close> and not \<open>HAVE_FDATASYNC\<close>.\<close>

definition SyncFd :: "'os kernel_ops \<Rightarrow> int \<Rightarrow> bytes \<Rightarrow> 'os \<Rightarrow> Status \<times> 'os" where
  "SyncFd K fd fd_path os =
     (case k_fullfsync K fd os of
        (Inr _, os) \<Rightarrow> (Status_OK, os)
      | (Inl _, os) \<Rightarrow> (case k_fsync K fd os of (r, os) \<Rightarrow> (posix_status K fd_path r, os)))"

definition SyncDirIfManifest :: "'os kernel_ops \<Rightarrow> PosixWritableFile \<Rightarrow> 'os \<Rightarrow> Status \<times> 'os" where
  "SyncDirIfManifest K f os =
     (if \<not> pwf_is_manifest f then (Status_OK, os)
      else (case k_open K (pwf_dirname f) Open_RDONLY os of
              (Inl e, os) \<Rightarrow> (PosixError K (pwf_dirname f) e, os)
            | (Inr fd, os) \<Rightarrow>
                (case SyncFd K fd (pwf_dirname f) os of (status, os) \<Rightarrow> (status, snd (k_close K fd os)))))"

definition PosixWritableFile_Sync ::
    "'os kernel_ops \<Rightarrow> PosixWritableFile \<times> 'os \<Rightarrow> (Status \<times> PosixWritableFile \<times> 'os) option" where
  "PosixWritableFile_Sync K fe =
     (case fe of (f, os) \<Rightarrow>
      (case SyncDirIfManifest K f os of (status, os) \<Rightarrow>
         if \<not> status_ok status then Some (status, f, os)
         else (case FlushBuffer K (f, os) of
                 None \<Rightarrow> None
               | Some (status, f, os) \<Rightarrow>
                   if \<not> status_ok status then Some (status, f, os)
                   else (case SyncFd K (pwf_fd f) (pwf_filename f) os of (status, os) \<Rightarrow> Some (status, f, os)))))"

definition PosixWritableFile_delete ::
    "'os kernel_ops \<Rightarrow> PosixWritableFile \<times> 'os \<Rightarrow> (PosixWritableFile \<times> 'os) option" where
  "PosixWritableFile_delete K fe =
     (if pwf_fd (fst fe) \<ge> 0 then map_option snd (PosixWritableFile_Close K fe) else Some fe)"

definition PosixWritableFile_ops ::
    "'os kernel_ops \<Rightarrow> (PosixWritableFile \<times> 'os) writable_file_ops" where
  "PosixWritableFile_ops K =
     \<lparr>wf_Append = PosixWritableFile_Append K, wf_Close = PosixWritableFile_Close K,
      wf_Flush = PosixWritableFile_Flush K, wf_Sync = PosixWritableFile_Sync K,
      wf_delete = PosixWritableFile_delete K\<rparr>"

subsection \<open>PosixEnv\<close>

definition PosixEnv_NewSequentialFile ::
    "'os kernel_ops \<Rightarrow> bytes \<Rightarrow> 'os \<Rightarrow> Status \<times> PosixSequentialFile option \<times> 'os" where
  "PosixEnv_NewSequentialFile K filename os =
     (case k_open K filename Open_RDONLY os of
        (Inl e, os) \<Rightarrow> (PosixError K filename e, None, os)
      | (Inr fd, os) \<Rightarrow> (Status_OK, Some \<lparr>psf_fd = fd, psf_filename = filename\<rparr>, os))"

definition PosixEnv_NewWritableFile ::
    "'os kernel_ops \<Rightarrow> bytes \<Rightarrow> 'os \<Rightarrow> Status \<times> PosixWritableFile option \<times> 'os" where
  "PosixEnv_NewWritableFile K filename os =
     (case k_open K filename Open_TRUNC_WRONLY_CREAT os of
        (Inl e, os) \<Rightarrow> (PosixError K filename e, None, os)
      | (Inr fd, os) \<Rightarrow> (Status_OK, Some (PosixWritableFile_new filename fd), os))"

definition PosixEnv_NewAppendableFile ::
    "'os kernel_ops \<Rightarrow> bytes \<Rightarrow> 'os \<Rightarrow> Status \<times> PosixWritableFile option \<times> 'os" where
  "PosixEnv_NewAppendableFile K filename os =
     (case k_open K filename Open_APPEND_WRONLY_CREAT os of
        (Inl e, os) \<Rightarrow> (PosixError K filename e, None, os)
      | (Inr fd, os) \<Rightarrow> (Status_OK, Some (PosixWritableFile_new filename fd), os))"

definition PosixEnv_GetFileSize :: "'os kernel_ops \<Rightarrow> bytes \<Rightarrow> 'os \<Rightarrow> Status \<times> u64 \<times> 'os" where
  "PosixEnv_GetFileSize K filename os =
     (case k_stat_size K filename os of
        (Inl e, os) \<Rightarrow> (PosixError K filename e, 0, os)
      | (Inr st_size, os) \<Rightarrow> (Status_OK, st_size, os))"

datatype RandomAccessFile =
  RandomAccess_pread PosixRandomAccessFile | RandomAccess_mmap PosixMmapReadableFile

text \<open>The two limiters of the environment are passed and returned as \<open>(mmap_limiter, fd_limiter)\<close>.\<close>

definition PosixEnv_NewRandomAccessFile ::
    "'os kernel_ops \<Rightarrow> bytes \<Rightarrow> int \<times> int \<Rightarrow> 'os \<Rightarrow> Status \<times> RandomAccessFile option \<times> (int \<times> int) \<times> 'os" where
  "PosixEnv_NewRandomAccessFile K filename limiters os =
     (case k_open K filename Open_RDONLY os of
        (Inl e, os) \<Rightarrow> (PosixError K filename e, None, limiters, os)
      | (Inr fd, os) \<Rightarrow>
          (case Limiter_Acquire (fst limiters) of (acquired, mmap_limiter) \<Rightarrow>
             if \<not> acquired then
               (case PosixRandomAccessFile_new K filename fd (snd limiters) os of (f, fd_limiter, os) \<Rightarrow>
                  (Status_OK, Some (RandomAccess_pread f), (mmap_limiter, fd_limiter), os))
             else
               (case PosixEnv_GetFileSize K filename os of (status, file_size, os) \<Rightarrow>
                  (let (status, result, os) =
                         (if status_ok status
                          then (case k_mmap K fd file_size os of
                                  (Inr mmap_base, os) \<Rightarrow>
                                    (status, Some (RandomAccess_mmap \<lparr>pmrf_base = mmap_base,
                                       pmrf_length = file_size, pmrf_filename = filename\<rparr>), os)
                                | (Inl e, os) \<Rightarrow> (PosixError K filename e, None, os))
                          else (status, None, os));
                       os = snd (k_close K fd os);
                       mmap_limiter = (if status_ok status then mmap_limiter else Limiter_Release mmap_limiter)
                   in (status, result, (mmap_limiter, snd limiters), os)))))"

definition PosixEnv_FileExists :: "'os kernel_ops \<Rightarrow> bytes \<Rightarrow> 'os \<Rightarrow> bool" where
  "PosixEnv_FileExists K filename os = k_access K filename os"

definition PosixEnv_GetChildren :: "'os kernel_ops \<Rightarrow> bytes \<Rightarrow> 'os \<Rightarrow> Status \<times> bytes list \<times> 'os" where
  "PosixEnv_GetChildren K directory_path os =
     (case k_children K directory_path os of
        (Inl e, os) \<Rightarrow> (PosixError K directory_path e, [], os)
      | (Inr result, os) \<Rightarrow> (Status_OK, result, os))"

definition PosixEnv_RemoveFile :: "'os kernel_ops \<Rightarrow> bytes \<Rightarrow> 'os \<Rightarrow> Status \<times> 'os" where
  "PosixEnv_RemoveFile K filename os =
     (case k_unlink K filename os of (r, os) \<Rightarrow> (posix_status K filename r, os))"

definition PosixEnv_CreateDir :: "'os kernel_ops \<Rightarrow> bytes \<Rightarrow> 'os \<Rightarrow> Status \<times> 'os" where
  "PosixEnv_CreateDir K dirname os =
     (case k_mkdir K dirname os of (r, os) \<Rightarrow> (posix_status K dirname r, os))"

definition PosixEnv_RemoveDir :: "'os kernel_ops \<Rightarrow> bytes \<Rightarrow> 'os \<Rightarrow> Status \<times> 'os" where
  "PosixEnv_RemoveDir K dirname os =
     (case k_rmdir K dirname os of (r, os) \<Rightarrow> (posix_status K dirname r, os))"

definition PosixEnv_RenameFile :: "'os kernel_ops \<Rightarrow> bytes \<Rightarrow> bytes \<Rightarrow> 'os \<Rightarrow> Status \<times> 'os" where
  "PosixEnv_RenameFile K from_name to_name os =
     (case k_rename K from_name to_name os of (r, os) \<Rightarrow> (posix_status K from_name r, os))"

text \<open>The table of the files that this process has locked, and the locks.\<close>

definition PosixLockTable_Insert :: "bytes \<Rightarrow> bytes set \<Rightarrow> bool \<times> bytes set" where
  "PosixLockTable_Insert fname locked_files = (fname \<notin> locked_files, insert fname locked_files)"

definition PosixLockTable_Remove :: "bytes \<Rightarrow> bytes set \<Rightarrow> bytes set" where
  "PosixLockTable_Remove fname locked_files = locked_files - {fname}"

record PosixFileLock =
  pfl_fd :: int
  pfl_filename :: bytes

definition PosixEnv_LockFile ::
    "'os kernel_ops \<Rightarrow> bytes \<Rightarrow> bytes set \<times> 'os \<Rightarrow> Status \<times> PosixFileLock option \<times> bytes set \<times> 'os" where
  "PosixEnv_LockFile K filename le =
     (case le of (locks, os) \<Rightarrow>
      (case k_open K filename Open_RDWR_CREAT os of
         (Inl e, os) \<Rightarrow> (PosixError K filename e, None, locks, os)
       | (Inr fd, os) \<Rightarrow>
           (case PosixLockTable_Insert filename locks of (inserted, locks) \<Rightarrow>
              if \<not> inserted then
                (Status_IOError (cstr ''lock '' @ filename) (cstr ''already held by process''), None, locks,
                 snd (k_close K fd os))
              else
                (case k_setlk K fd True os of
                   (Inl lock_errno, os) \<Rightarrow>
                     (PosixError K (cstr ''lock '' @ filename) lock_errno, None,
                      PosixLockTable_Remove filename locks, snd (k_close K fd os))
                 | (Inr _, os) \<Rightarrow>
                     (Status_OK, Some \<lparr>pfl_fd = fd, pfl_filename = filename\<rparr>, locks, os)))))"

definition PosixEnv_UnlockFile ::
    "'os kernel_ops \<Rightarrow> PosixFileLock \<Rightarrow> bytes set \<times> 'os \<Rightarrow> Status \<times> bytes set \<times> 'os" where
  "PosixEnv_UnlockFile K lock le =
     (case le of (locks, os) \<Rightarrow>
      (case k_setlk K (pfl_fd lock) False os of
         (Inl e, os) \<Rightarrow> (PosixError K (cstr ''unlock '' @ pfl_filename lock) e, locks, os)
       | (Inr _, os) \<Rightarrow>
           (Status_OK, PosixLockTable_Remove (pfl_filename lock) locks, snd (k_close K (pfl_fd lock) os))))"

definition PosixEnv :: "'os kernel_ops \<Rightarrow> (PosixWritableFile, PosixSequentialFile, 'os) env_ops" where
  "PosixEnv K =
     \<lparr>env_NewSequentialFile = PosixEnv_NewSequentialFile K,
      env_NewWritableFile = PosixEnv_NewWritableFile K,
      env_RemoveFile = PosixEnv_RemoveFile K,
      env_RenameFile = PosixEnv_RenameFile K,
      env_writable = PosixWritableFile_ops K,
      env_sequential = PosixSequentialFile_ops K\<rparr>"

subsection \<open>Whole-file helpers\<close>

definition DoWriteStringToFile ::
    "('w, 'q, 'e) env_ops \<Rightarrow> bytes \<Rightarrow> bytes \<Rightarrow> bool \<Rightarrow> 'e \<Rightarrow> (Status \<times> 'e) option" where
  "DoWriteStringToFile E data fname should_sync e =
     (case env_NewWritableFile E fname e of (s, result, e) \<Rightarrow>
        if \<not> status_ok s then Some (s, e)
        else do {
          (s, f) \<leftarrow> wf_Append (env_writable E) data (the result, e);
          (s, f) \<leftarrow> (if status_ok s \<and> should_sync then wf_Sync (env_writable E) f else Some (s, f));
          (s, f) \<leftarrow> (if status_ok s then wf_Close (env_writable E) f else Some (s, f));
          f \<leftarrow> wf_delete (env_writable E) f;
          Some (s, if status_ok s then snd f else snd (env_RemoveFile E fname (snd f)))
        })"

definition WriteStringToFile :: "('w, 'q, 'e) env_ops \<Rightarrow> bytes \<Rightarrow> bytes \<Rightarrow> 'e \<Rightarrow> (Status \<times> 'e) option" where
  "WriteStringToFile E data fname e = DoWriteStringToFile E data fname False e"

definition WriteStringToFileSync :: "('w, 'q, 'e) env_ops \<Rightarrow> bytes \<Rightarrow> bytes \<Rightarrow> 'e \<Rightarrow> (Status \<times> 'e) option" where
  "WriteStringToFileSync E data fname e = DoWriteStringToFile E data fname True e"

definition kBufferSize :: nat where
  "kBufferSize = 8192"

partial_function (option) ReadFileToString_loop ::
    "'f sequential_file_ops \<Rightarrow> bytes \<Rightarrow> 'f \<Rightarrow> (Status \<times> bytes \<times> 'f) option" where
  "ReadFileToString_loop S data f =
     Option.bind (sf_Read S kBufferSize f) (\<lambda>r.
       if \<not> status_ok (fst r) then Some (fst r, data, snd (snd r))
       else if fst (snd r) = [] then Some (fst r, data, snd (snd r))
       else ReadFileToString_loop S (data @ fst (snd r)) (snd (snd r)))"

definition ReadFileToString ::
    "('w, 'q, 'e) env_ops \<Rightarrow> bytes \<Rightarrow> 'e \<Rightarrow> (Status \<times> bytes \<times> 'e) option" where
  "ReadFileToString E fname e =
     (case env_NewSequentialFile E fname e of (s, result, e) \<Rightarrow>
        if \<not> status_ok s then Some (s, [], e)
        else do {
          (s, data, f) \<leftarrow> ReadFileToString_loop (env_sequential E) [] (the result, e);
          Some (s, data, snd (sf_delete (env_sequential E) f))
        })"

definition SetCurrentFile :: "('w, 'q, 'e) env_ops \<Rightarrow> bytes \<Rightarrow> u64 \<Rightarrow> 'e \<Rightarrow> (Status \<times> 'e) option" where
  "SetCurrentFile E dbname descriptor_number e =
     (let manifest = DescriptorFileName dbname descriptor_number;
          contents = remove_prefix (length dbname + 1) manifest;
          tmp = TempFileName dbname descriptor_number
      in do {
        (s, e) \<leftarrow> WriteStringToFileSync E (contents @ [0x0A]) tmp e;
        (s, e) \<leftarrow> Some (if status_ok s then env_RenameFile E tmp (CurrentFileName dbname) e else (s, e));
        Some (s, if status_ok s then e else snd (env_RemoveFile E tmp e))
      })"

subsection \<open>What the code relies on from the kernel\<close>

text \<open>\<open>fs\<close> gives the contents of the named files and \<open>names\<close> the file behind each open descriptor.
  The laws are what POSIX documents of a regular file that one process opens for writing with
  \<open>O_TRUNC\<close> and writes sequentially, and of \<open>rename\<close> and \<open>unlink\<close>.\<close>

lemmas WriteUnbuffered_induct = WriteUnbuffered.raw_induct [rotated, consumes 1, case_names step]

lemma not_ok_PosixError [simp]: "\<not> status_ok (PosixError K context e)"
  by (simp add: PosixError_def Status_NotFound_def Status_IOError_def)

lemma bind_SomeE:
  assumes "Option.bind x f = Some y"
  obtains z where "x = Some z" "f z = Some y"
  using assms by (cases x) auto

lemma PosixEnv_simps [simp]:
  "env_NewSequentialFile (PosixEnv K) = PosixEnv_NewSequentialFile K"
  "env_NewWritableFile (PosixEnv K) = PosixEnv_NewWritableFile K"
  "env_RemoveFile (PosixEnv K) = PosixEnv_RemoveFile K"
  "env_RenameFile (PosixEnv K) = PosixEnv_RenameFile K"
  "env_writable (PosixEnv K) = PosixWritableFile_ops K"
  "env_sequential (PosixEnv K) = PosixSequentialFile_ops K"
  "wf_Append (PosixWritableFile_ops K) = PosixWritableFile_Append K"
  "wf_Close (PosixWritableFile_ops K) = PosixWritableFile_Close K"
  "wf_Flush (PosixWritableFile_ops K) = PosixWritableFile_Flush K"
  "wf_Sync (PosixWritableFile_ops K) = PosixWritableFile_Sync K"
  "wf_delete (PosixWritableFile_ops K) = PosixWritableFile_delete K"
  by (simp_all add: PosixEnv_def PosixWritableFile_ops_def)

locale posix_fs =
  fixes K :: "'os kernel_ops"
    and fs :: "'os \<Rightarrow> bytes \<Rightarrow> bytes option"
    and names :: "'os \<Rightarrow> int \<Rightarrow> bytes option"
  assumes open_trunc: "k_open K name Open_TRUNC_WRONLY_CREAT os = (Inr fd, os') \<Longrightarrow>
      0 \<le> fd \<and> names os fd = None \<and> fs os' = (fs os)(name \<mapsto> []) \<and> names os' = (names os)(fd \<mapsto> name)"
    and open_rdonly: "k_open K name Open_RDONLY os = (Inr fd, os') \<Longrightarrow>
      0 \<le> fd \<and> names os fd = None \<and> fs os' = fs os \<and> names os' = (names os)(fd \<mapsto> name)"
    and open_fails: "k_open K name mode os = (Inl e, os') \<Longrightarrow> fs os' = fs os \<and> names os' = names os"
    and write_succeeds: "k_write K fd data os = (Inr n, os') \<Longrightarrow> names os fd = Some name \<Longrightarrow> fs os name = Some c \<Longrightarrow>
      n \<le> length data \<and> fs os' = (fs os)(name \<mapsto> c @ take n data) \<and> names os' = names os"
    and write_fails: "k_write K fd data os = (Inl e, os') \<Longrightarrow> fs os' = fs os \<and> names os' = names os"
    and fullfsync_keeps: "k_fullfsync K fd os = (r, os') \<Longrightarrow> fs os' = fs os \<and> names os' = names os"
    and fsync_keeps: "k_fsync K fd os = (r, os') \<Longrightarrow> fs os' = fs os \<and> names os' = names os"
    and close_releases: "k_close K fd os = (r, os') \<Longrightarrow> fs os' = fs os \<and> names os' = (names os)(fd := None)"
    and unlink_succeeds: "k_unlink K name os = (Inr (), os') \<Longrightarrow>
      fs os' = (fs os)(name := None) \<and> names os' = names os"
    and unlink_fails: "k_unlink K name os = (Inl e, os') \<Longrightarrow> fs os' = fs os \<and> names os' = names os"
    and rename_succeeds: "k_rename K from_name to_name os = (Inr (), os') \<Longrightarrow>
      fs os' = (fs os)(to_name := fs os from_name, from_name := None)"
    and rename_fails: "k_rename K from_name to_name os = (Inl e, os') \<Longrightarrow> fs os' = fs os"
begin

lemma WriteUnbuffered_writes_aux:
  "WriteUnbuffered K' filename fd data os = Some r \<Longrightarrow> K' = K \<longrightarrow> names os fd = Some name \<longrightarrow>
   (\<forall>c. fs os name = Some c \<longrightarrow>
     names (snd r) = names os \<and> (\<exists>k \<le> length data. fs (snd r) = (fs os)(name \<mapsto> c @ take k data) \<and>
       (status_ok (fst r) \<longrightarrow> k = length data)))"
proof (induction rule: WriteUnbuffered_induct)
  case (step W K' filename fd data os r)
  show ?case
  proof (intro impI allI)
    fix c
    assume K: "K' = K" and nm: "names os fd = Some name" and c: "fs os name = Some c"
    obtain res os1 where w: "k_write K fd data os = (res, os1)" by fastforce
    show "names (snd r) = names os \<and> (\<exists>k \<le> length data. fs (snd r) = (fs os)(name \<mapsto> c @ take k data) \<and>
       (status_ok (fst r) \<longrightarrow> k = length data))"
    proof (cases "data = []")
      case True
      with step(2) c show ?thesis by (auto simp: fun_upd_idem)
    next
      case ne: False
      show ?thesis
      proof (cases res)
        case (Inl e)
        have same: "fs os1 = fs os" "names os1 = names os" using write_fails [OF w [unfolded Inl]] by simp_all
        show ?thesis
        proof (cases "e = EINTR")
          case True
          with step(2) ne w Inl K have "W K filename fd data os1 = Some r" by simp
          from step(1) [OF this] nm c show ?thesis unfolding same by blast
        next
          case False
          with step(2) ne w Inl K same c show ?thesis
            by (intro conjI exI [of _ 0]) (auto simp: fun_upd_idem)
        qed
      next
        case (Inr n)
        note wr = write_succeeds [OF w [unfolded Inr] nm c]
        from step(2) ne w Inr K have "W K filename fd (drop n data) os1 = Some r" by simp
        moreover have "names os1 fd = Some name" "fs os1 name = Some (c @ take n data)"
          using wr nm by simp_all
        ultimately obtain k where k: "k \<le> length (drop n data)" "names (snd r) = names os1"
          "fs (snd r) = (fs os1)(name \<mapsto> (c @ take n data) @ take k (drop n data))"
          "status_ok (fst r) \<longrightarrow> k = length (drop n data)" using step(1) by blast
        have "(c @ take n data) @ take k (drop n data) = c @ take (n + k) data" by (simp add: take_add)
        with k(3) wr have "fs (snd r) = (fs os)(name \<mapsto> c @ take (n + k) data)" by simp
        with k(1,2,4) wr show ?thesis by (intro conjI exI [of _ "n + k"]) auto
      qed
    qed
  qed
qed

lemma WriteUnbuffered_writes:
  assumes "WriteUnbuffered K filename fd data os = Some (s, os')"
    and "names os fd = Some name" and "fs os name = Some c"
  obtains k where "names os' = names os" "k \<le> length data" "fs os' = (fs os)(name \<mapsto> c @ take k data)"
    "status_ok s \<Longrightarrow> k = length data"
  using WriteUnbuffered_writes_aux [OF assms(1)] assms(2,3) by auto

text \<open>\<open>open_file f os\<close>: the descriptor of \<open>f\<close> is open on the file of its name; \<open>logical f os\<close> is what
  has been appended to it, on disk or still in the buffer.\<close>

definition open_file :: "PosixWritableFile \<Rightarrow> 'os \<Rightarrow> bool" where
  "open_file f os \<longleftrightarrow> names os (pwf_fd f) = Some (pwf_filename f) \<and> fs os (pwf_filename f) \<noteq> None \<and>
     length (pwf_buf f) \<le> kWritableFileBufferSize"

definition logical :: "PosixWritableFile \<Rightarrow> 'os \<Rightarrow> bytes" where
  "logical f os = the (fs os (pwf_filename f)) @ pwf_buf f"

definition only_changes :: "bytes set \<Rightarrow> 'os \<Rightarrow> 'os \<Rightarrow> bool" where
  "only_changes A os os' \<longleftrightarrow> (\<forall>name. name \<notin> A \<longrightarrow> fs os' name = fs os name)"

lemma only_changes_refl [simp]: "only_changes A os os"
  by (simp add: only_changes_def)

lemma only_changes_trans: "only_changes A os os1 \<Longrightarrow> only_changes B os1 os2 \<Longrightarrow> only_changes (A \<union> B) os os2"
  by (simp add: only_changes_def)

lemma FlushBuffer_effect:
  assumes "FlushBuffer K (f, os) = Some (s, f', os')" and "open_file f os"
  shows "open_file f' os' \<and> f' = f\<lparr>pwf_buf := []\<rparr> \<and> only_changes {pwf_filename f} os os' \<and>
    (status_ok s \<longrightarrow> logical f' os' = logical f os)"
proof -
  from assms(2) obtain c where nm: "names os (pwf_fd f) = Some (pwf_filename f)"
    and c: "fs os (pwf_filename f) = Some c" by (auto simp: open_file_def)
  from assms(1) have w: "WriteUnbuffered K (pwf_filename f) (pwf_fd f) (pwf_buf f) os = Some (s, os')"
    and f': "f' = f\<lparr>pwf_buf := []\<rparr>" by (auto simp: FlushBuffer_def split: option.splits prod.splits)
  obtain k where "names os' = names os" and k: "fs os' = (fs os)(pwf_filename f \<mapsto> c @ take k (pwf_buf f))"
    "status_ok s \<Longrightarrow> k = length (pwf_buf f)" by (rule WriteUnbuffered_writes [OF w nm c]) blast
  then show ?thesis using nm c f' by (auto simp: open_file_def logical_def only_changes_def)
qed

lemma Append_effect:
  assumes "PosixWritableFile_Append K data (f, os) = Some (s, f', os')" and "open_file f os"
  shows "open_file f' os' \<and> pwf_filename f' = pwf_filename f \<and> pwf_fd f' = pwf_fd f \<and>
    only_changes {pwf_filename f} os os' \<and> (status_ok s \<longrightarrow> logical f' os' = logical f os @ data)"
proof -
  define n where "n = min (length data) (kWritableFileBufferSize - length (pwf_buf f))"
  define g where "g = f\<lparr>pwf_buf := pwf_buf f @ take n data\<rparr>"
  have g: "open_file g os" "pwf_filename g = pwf_filename f" "pwf_fd g = pwf_fd f"
    "logical g os = logical f os @ take n data"
    using assms(2) by (auto simp: open_file_def g_def n_def logical_def)
  have app: "PosixWritableFile_Append K data (f, os) =
      (if drop n data = [] then Some (Status_OK, g, os)
       else (case FlushBuffer K (g, os) of
          None \<Rightarrow> None
        | Some (s1, h, os1) \<Rightarrow>
            (if \<not> status_ok s1 then Some (s1, h, os1)
             else if length (drop n data) < kWritableFileBufferSize then Some (Status_OK, h\<lparr>pwf_buf := drop n data\<rparr>, os1)
             else (case WriteUnbuffered K (pwf_filename h) (pwf_fd h) (drop n data) os1 of
                     None \<Rightarrow> None | Some (status, os) \<Rightarrow> Some (status, h, os)))))"
    unfolding PosixWritableFile_Append_def n_def g_def Let_def prod.case by (rule refl)
  show ?thesis
  proof (cases "drop n data = []")
    case True
    with assms(1) have "s = Status_OK" "f' = g" "os' = os"
      unfolding app by simp_all
    with True g show ?thesis by simp
  next
    case False
    with assms(1) obtain s1 h os1 where fl: "FlushBuffer K (g, os) = Some (s1, h, os1)"
      unfolding app by (auto split: option.splits)
    note h = FlushBuffer_effect [OF fl g(1)]
    have buf: "pwf_buf h = []" using h by simp
    have r: "Some (s, f', os') =
        (if \<not> status_ok s1 then Some (s1, h, os1)
         else if length (drop n data) < kWritableFileBufferSize then Some (Status_OK, h\<lparr>pwf_buf := drop n data\<rparr>, os1)
         else (case WriteUnbuffered K (pwf_filename h) (pwf_fd h) (drop n data) os1 of
                 None \<Rightarrow> None | Some (status, os) \<Rightarrow> Some (status, h, os)))"
      using assms(1) False fl unfolding app by simp
    consider (bad) "\<not> status_ok s1" "s = s1" "f' = h" "os' = os1"
      | (small) "status_ok s1" "length (drop n data) < kWritableFileBufferSize" "s = Status_OK"
          "f' = h\<lparr>pwf_buf := drop n data\<rparr>" "os' = os1"
      | (large) "status_ok s1" "f' = h"
          "WriteUnbuffered K (pwf_filename h) (pwf_fd h) (drop n data) os1 = Some (s, os')"
      using r by (auto split: if_splits option.splits)
    then show ?thesis
    proof cases
      case bad
      with h g show ?thesis by auto
    next
      case small
      with h g show ?thesis by (auto simp: open_file_def logical_def)
    next
      case large
      from h obtain c where nm: "names os1 (pwf_fd h) = Some (pwf_filename h)"
        and c: "fs os1 (pwf_filename h) = Some c" by (auto simp: open_file_def)
      obtain k where k: "names os' = names os1" "fs os' = (fs os1)(pwf_filename h \<mapsto> c @ take k (drop n data))"
        "status_ok s \<Longrightarrow> k = length (drop n data)" by (rule WriteUnbuffered_writes [OF large(3) nm c]) blast
      have "logical h os1 = logical f os @ take n data" using h large(1) g(4) by metis
      then have "c = logical f os @ take n data" using c buf by (simp add: logical_def)
      then show ?thesis using k large h g nm buf
        by (auto simp: open_file_def logical_def only_changes_def)
    qed
  qed
qed

lemma SyncFd_keeps: "SyncFd K fd path os = (s, os') \<Longrightarrow> fs os' = fs os \<and> names os' = names os"
proof -
  assume a: "SyncFd K fd path os = (s, os')"
  obtain r1 os1 where 1: "k_fullfsync K fd os = (r1, os1)" by fastforce
  obtain r2 os2 where 2: "k_fsync K fd os1 = (r2, os2)" by fastforce
  from a 1 2 fullfsync_keeps [OF 1] fsync_keeps [OF 2] show ?thesis
    by (cases r1) (auto simp: SyncFd_def)
qed

lemma SyncDirIfManifest_keeps:
  "SyncDirIfManifest K f os = (s, os') \<Longrightarrow> fs os' = fs os \<and> names os' = names os"
proof -
  assume a: "SyncDirIfManifest K f os = (s, os')"
  obtain r1 os1 where 1: "k_open K (pwf_dirname f) Open_RDONLY os = (r1, os1)" by fastforce
  show ?thesis
  proof (cases "pwf_is_manifest f")
    case True
    show ?thesis
    proof (cases r1)
      case (Inl e)
      with a True 1 open_fails [OF 1 [unfolded Inl]] show ?thesis by (simp add: SyncDirIfManifest_def)
    next
      case (Inr fd)
      note o = open_rdonly [OF 1 [unfolded Inr]]
      obtain s2 os2 where 2: "SyncFd K fd (pwf_dirname f) os1 = (s2, os2)" by fastforce
      obtain r3 os3 where 3: "k_close K fd os2 = (r3, os3)" by fastforce
      from a True 1 Inr 2 3 have "os' = os3" by (simp add: SyncDirIfManifest_def)
      with o SyncFd_keeps [OF 2] close_releases [OF 3] show ?thesis by (auto simp: fun_upd_idem)
    qed
  qed (use a in \<open>simp add: SyncDirIfManifest_def\<close>)
qed

lemma Sync_effect:
  assumes "PosixWritableFile_Sync K (f, os) = Some (s, f', os')" and "open_file f os"
  shows "open_file f' os' \<and> pwf_filename f' = pwf_filename f \<and> pwf_fd f' = pwf_fd f \<and>
    only_changes {pwf_filename f} os os' \<and> (status_ok s \<longrightarrow> logical f' os' = logical f os \<and> pwf_buf f' = [])"
proof -
  obtain s1 os1 where 1: "SyncDirIfManifest K f os = (s1, os1)" by fastforce
  note k1 = SyncDirIfManifest_keeps [OF 1]
  have f1: "open_file f os1" "logical f os1 = logical f os" "only_changes {pwf_filename f} os os1"
    using assms(2) k1 by (simp_all add: open_file_def logical_def only_changes_def)
  show ?thesis
  proof (cases "status_ok s1")
    case False
    with assms(1) 1 f1 show ?thesis by (auto simp: PosixWritableFile_Sync_def)
  next
    case True
    with assms(1) 1 obtain s2 g os2 where 2: "FlushBuffer K (f, os1) = Some (s2, g, os2)"
      by (auto simp: PosixWritableFile_Sync_def split: option.splits)
    note g = FlushBuffer_effect [OF 2 f1(1)]
    obtain s3 os3 where 3: "SyncFd K (pwf_fd g) (pwf_filename g) os2 = (s3, os3)" by fastforce
    note k3 = SyncFd_keeps [OF 3]
    from assms(1) 1 2 3 True have "s = (if status_ok s2 then s3 else s2)" "f' = g"
      "os' = (if status_ok s2 then os3 else os2)"
      by (auto simp: PosixWritableFile_Sync_def split: if_splits)
    with g k3 f1 show ?thesis by (auto simp: open_file_def logical_def only_changes_def)
  qed
qed

lemma Close_effect:
  assumes "PosixWritableFile_Close K (f, os) = Some (s, f', os')" and "open_file f os"
  shows "pwf_fd f' = -1 \<and> pwf_filename f' = pwf_filename f \<and> only_changes {pwf_filename f} os os' \<and>
    (status_ok s \<longrightarrow> fs os' (pwf_filename f) = Some (logical f os))"
proof -
  from assms(1) obtain s1 g os1 where 1: "FlushBuffer K (f, os) = Some (s1, g, os1)"
    by (auto simp: PosixWritableFile_Close_def split: option.splits)
  note g = FlushBuffer_effect [OF 1 assms(2)]
  obtain r os2 where 2: "k_close K (pwf_fd g) os1 = (r, os2)" by fastforce
  note k = close_releases [OF 2]
  have "os' = os2" "f' = g\<lparr>pwf_fd := -1\<rparr>" "status_ok s \<Longrightarrow> status_ok s1"
    using assms(1) 1 2 by (auto simp: PosixWritableFile_Close_def split: sum.splits if_splits)
  moreover have "status_ok s1 \<Longrightarrow> fs os1 (pwf_filename f) = Some (logical f os)"
    using g by (auto simp: open_file_def logical_def)
  ultimately show ?thesis using g k by (auto simp: only_changes_def)
qed

lemma delete_effect:
  assumes "PosixWritableFile_delete K (f, os) = Some (f', os')" and "open_file f os \<or> pwf_fd f = -1"
  shows "only_changes {pwf_filename f} os os' \<and> (pwf_fd f = -1 \<longrightarrow> os' = os)"
proof (cases "0 \<le> pwf_fd f")
  case True
  with assms obtain s where "PosixWritableFile_Close K (f, os) = Some (s, f', os')"
    by (auto simp: PosixWritableFile_delete_def)
  moreover have "open_file f os" using assms(2) True by auto
  ultimately show ?thesis using Close_effect True by auto
next
  case False
  with assms(1) show ?thesis by (simp add: PosixWritableFile_delete_def)
qed

lemma RemoveFile_effect:
  "PosixEnv_RemoveFile K name os = (s, os') \<Longrightarrow> only_changes {name} os os'"
proof -
  assume a: "PosixEnv_RemoveFile K name os = (s, os')"
  obtain r os1 where 1: "k_unlink K name os = (r, os1)" by fastforce
  show ?thesis
  proof (cases r)
    case (Inl e)
    with a 1 unlink_fails [OF 1 [unfolded Inl]] show ?thesis
      by (simp add: PosixEnv_RemoveFile_def only_changes_def)
  next
    case (Inr u)
    have "r = Inr ()" using Inr by simp
    with a 1 unlink_succeeds [of name os os1] show ?thesis
      by (simp add: PosixEnv_RemoveFile_def only_changes_def)
  qed
qed

lemma DoWriteStringToFile_effect:
  assumes "DoWriteStringToFile (PosixEnv K) data fname should_sync os = Some (s, os')"
  shows "only_changes {fname} os os' \<and> (status_ok s \<longrightarrow> fs os' fname = Some data)"
proof -
  obtain r os1 where o: "k_open K fname Open_TRUNC_WRONLY_CREAT os = (r, os1)" by fastforce
  show ?thesis
  proof (cases r)
    case (Inl e)
    with assms o open_fails [OF o [unfolded Inl]] show ?thesis
      by (auto simp: DoWriteStringToFile_def PosixEnv_def PosixEnv_NewWritableFile_def only_changes_def)
  next
    case (Inr fd)
    define f where "f = PosixWritableFile_new fname fd"
    note o1 = open_trunc [OF o [unfolded Inr]]
    have f: "open_file f os1" "logical f os1 = []" "pwf_filename f = fname" "only_changes {fname} os os1"
      using o1 by (simp_all add: f_def PosixWritableFile_new_def open_file_def logical_def only_changes_def)
    have "PosixEnv_NewWritableFile K fname os = (Status_OK, Some f, os1)"
      by (simp add: PosixEnv_NewWritableFile_def o Inr f_def)
    note A = assms [unfolded DoWriteStringToFile_def PosixEnv_simps this prod.case eqTrueI [OF status_ok_OK] not_True_eq_False
        if_False option.sel]
    from A obtain s2 f2 os2 where 2: "PosixWritableFile_Append K data (f, os1) = Some (s2, f2, os2)"
      by (elim bind_SomeE) (metis prod_cases3)
    note A = A [unfolded 2 Option.bind.bind_lunit prod.case]
    from A obtain s3 f3 os3 where
      3: "(if status_ok s2 \<and> should_sync then PosixWritableFile_Sync K (f2, os2) else Some (s2, f2, os2)) = Some (s3, f3, os3)"
      by (elim bind_SomeE) (metis prod_cases3)
    note A = A [unfolded 3 Option.bind.bind_lunit prod.case]
    from A obtain s4 f4 os4 where
      4: "(if status_ok s3 then PosixWritableFile_Close K (f3, os3) else Some (s3, f3, os3)) = Some (s4, f4, os4)"
      by (elim bind_SomeE) (metis prod_cases3)
    note A = A [unfolded 4 Option.bind.bind_lunit prod.case]
    from A obtain f5 os5 where 5: "PosixWritableFile_delete K (f4, os4) = Some (f5, os5)"
      by (elim bind_SomeE) (metis surj_pair)
    from A have 6: "s = s4" "os' = (if status_ok s4 then os5 else snd (PosixEnv_RemoveFile K fname os5))"
      by (auto simp: 5)
    note e2 = Append_effect [OF 2 f(1)]
    have e3: "open_file f3 os3 \<and> pwf_filename f3 = fname \<and> only_changes {fname} os2 os3 \<and>
        (status_ok s3 \<longrightarrow> logical f3 os3 = data)"
      using 3 e2 f Sync_effect [of f2 os2 s3 f3 os3] by (auto split: if_splits)
    have e4: "pwf_filename f4 = fname \<and> only_changes {fname} os3 os4 \<and> (open_file f4 os4 \<or> pwf_fd f4 = -1) \<and>
        (status_ok s4 \<longrightarrow> fs os4 fname = Some data \<and> pwf_fd f4 = -1)"
      using 4 e3 Close_effect [of f3 os3 s4 f4 os4] by (auto split: if_splits)
    have e5: "only_changes {fname} os4 os5 \<and> (pwf_fd f4 = -1 \<longrightarrow> os5 = os4)"
      using delete_effect [OF 5] e4 by simp
    have "only_changes {fname} os5 os'"
      using 6 RemoveFile_effect [of fname os5] by (auto simp: prod_eq_iff)
    then have "only_changes {fname} os os'"
      using f(3,4) e2 e3 e4 e5 by (simp add: only_changes_def)
    then show ?thesis using e4 e5 6 by simp
  qed
qed

lemma tmp_not_current: "TempFileName db n \<noteq> CurrentFileName db"
proof
  assume "TempFileName db n = CurrentFileName db"
  then have "last (TempFileName db n) = last (CurrentFileName db)" by simp
  then show False by (simp add: TempFileName_def CurrentFileName_def MakeFileName_def cstr_def)
qed

lemma SetCurrentFile_effect:
  assumes "SetCurrentFile (PosixEnv K) db n os = Some (s, os')"
  shows "fs os' (CurrentFileName db) =
      (if status_ok s then Some (drop (length db + 1) (DescriptorFileName db n) @ [0x0A])
       else fs os (CurrentFileName db)) \<and>
    only_changes {CurrentFileName db, TempFileName db n} os os'"
proof -
  let ?cur = "CurrentFileName db" and ?tmp = "TempFileName db n"
  let ?c = "drop (length db + 1) (DescriptorFileName db n) @ [0x0A]"
  note A = assms [unfolded SetCurrentFile_def WriteStringToFileSync_def Let_def remove_prefix_def PosixEnv_simps]
  from A obtain s1 os1 where 1: "DoWriteStringToFile (PosixEnv K) ?c ?tmp True os = Some (s1, os1)"
    by (elim bind_SomeE) (metis surj_pair)
  note A = A [unfolded 1 Option.bind.bind_lunit prod.case]
  obtain s2 os2 where 2: "(if status_ok s1 then PosixEnv_RenameFile K ?tmp ?cur os1 else (s1, os1)) = (s2, os2)"
    by fastforce
  from A have 3: "s = s2" "os' = (if status_ok s2 then os2 else snd (PosixEnv_RemoveFile K ?tmp os2))"
    by (auto simp: 2)
  note e1 = DoWriteStringToFile_effect [OF 1]
  have ne: "?tmp \<noteq> ?cur" by (rule tmp_not_current)
  have cur1: "fs os1 ?cur = fs os ?cur" using e1 ne by (auto simp: only_changes_def)
  show ?thesis
  proof (cases "status_ok s1")
    case False
    then have "os2 = os1" "\<not> status_ok s2" using 2 by auto
    moreover have "only_changes {?tmp} os2 (snd (PosixEnv_RemoveFile K ?tmp os2))"
      by (rule RemoveFile_effect) (rule prod.collapse [symmetric])
    ultimately show ?thesis using e1 3 cur1 ne by (auto simp: only_changes_def)
  next
    case True
    obtain r os3 where r: "k_rename K ?tmp ?cur os1 = (r, os3)" by fastforce
    show ?thesis
    proof (cases r)
      case (Inl e)
      have "\<not> status_ok s2" "os2 = os3" using 2 True r Inl by (auto simp: PosixEnv_RenameFile_def posix_status_def)
      moreover have "fs os3 = fs os1" using rename_fails r Inl by simp
      moreover have "only_changes {?tmp} os2 (snd (PosixEnv_RemoveFile K ?tmp os2))"
        by (rule RemoveFile_effect) (rule prod.collapse [symmetric])
      ultimately show ?thesis using e1 3 cur1 ne by (auto simp: only_changes_def)
    next
      case (Inr u)
      have "status_ok s2" "os2 = os3" using 2 True r Inr by (auto simp: PosixEnv_RenameFile_def posix_status_def)
      moreover have "fs os3 = (fs os1)(?cur := fs os1 ?tmp, ?tmp := None)"
        using rename_succeeds r Inr by simp
      ultimately show ?thesis using e1 True 3 ne by (auto simp: only_changes_def)
    qed
  qed
qed

end

subsection \<open>A kernel that keeps its files in memory\<close>

text \<open>The laws can hold: a kernel with an in-memory file table, which writes at most 4096 bytes per
  call, satisfies them.\<close>

record mem_os =
  mo_files :: "bytes \<Rightarrow> bytes option"
  mo_fds :: "int \<Rightarrow> bytes option"
  mo_next :: nat

definition mem_new_fd :: "bytes \<Rightarrow> mem_os \<Rightarrow> (errno + int) \<times> mem_os" where
  "mem_new_fd name os =
     (if mo_fds os (int (mo_next os)) \<noteq> None then (Inl 24, os)
      else (Inr (int (mo_next os)), os\<lparr>mo_fds := (mo_fds os)(int (mo_next os) \<mapsto> name), mo_next := mo_next os + 1\<rparr>))"

definition mem_open :: "bytes \<Rightarrow> OpenMode \<Rightarrow> mem_os \<Rightarrow> (errno + int) \<times> mem_os" where
  "mem_open name mode os =
     (case mem_new_fd name os of
        (Inl e, os') \<Rightarrow> (Inl e, os)
      | (Inr fd, os') \<Rightarrow>
          if mode = Open_TRUNC_WRONLY_CREAT then (Inr fd, os'\<lparr>mo_files := (mo_files os)(name \<mapsto> [])\<rparr>)
          else if mo_files os name = None \<and> mode = Open_RDONLY then (Inl ENOENT, os)
          else if mo_files os name = None then (Inr fd, os'\<lparr>mo_files := (mo_files os)(name \<mapsto> [])\<rparr>)
          else (Inr fd, os'))"

definition mem_write :: "int \<Rightarrow> bytes \<Rightarrow> mem_os \<Rightarrow> (errno + nat) \<times> mem_os" where
  "mem_write fd data os =
     (case mo_fds os fd of
        None \<Rightarrow> (Inl 9, os)
      | Some name \<Rightarrow>
          (case mo_files os name of
             None \<Rightarrow> (Inl 9, os)
           | Some c \<Rightarrow>
               (let n = min 4096 (length data)
                in (Inr n, os\<lparr>mo_files := (mo_files os)(name \<mapsto> c @ take n data)\<rparr>))))"

definition mem_kernel :: "mem_os kernel_ops" where
  "mem_kernel =
     \<lparr>k_open = mem_open,
      k_close = (\<lambda>fd os. (Inr (), os\<lparr>mo_fds := (mo_fds os)(fd := None)\<rparr>)),
      k_read = (\<lambda>fd n os. (Inl 9, os)),
      k_pread = (\<lambda>fd n offset os. (Inl 9, os)),
      k_write = mem_write,
      k_lseek_cur = (\<lambda>fd n os. (Inl 9, os)),
      k_fullfsync = (\<lambda>fd os. (Inl 45, os)),
      k_fsync = (\<lambda>fd os. (Inr (), os)),
      k_unlink = (\<lambda>name os. if mo_files os name = None then (Inl ENOENT, os)
                            else (Inr (), os\<lparr>mo_files := (mo_files os)(name := None)\<rparr>)),
      k_mkdir = (\<lambda>name os. (Inr (), os)),
      k_rmdir = (\<lambda>name os. (Inr (), os)),
      k_stat_size = (\<lambda>name os. case mo_files os name of None \<Rightarrow> (Inl ENOENT, os) | Some c \<Rightarrow> (Inr (word_of_nat (length c)), os)),
      k_rename = (\<lambda>a b os. if mo_files os a = None then (Inl ENOENT, os)
                           else (Inr (), os\<lparr>mo_files := (mo_files os)(b := mo_files os a, a := None)\<rparr>)),
      k_access = (\<lambda>name os. mo_files os name \<noteq> None),
      k_children = (\<lambda>name os. (Inr [], os)),
      k_mmap = (\<lambda>fd n os. (Inl 9, os)),
      k_setlk = (\<lambda>fd lock os. (Inr (), os)),
      k_strerror = (\<lambda>e. cstr ''error '' @ signed_decimal e)\<rparr>"

interpretation mem_fs: posix_fs mem_kernel mo_files mo_fds
  by unfold_locales
    (auto simp: mem_kernel_def mem_open_def mem_new_fd_def mem_write_def Let_def
      split: if_splits option.splits)

definition mem_empty :: mem_os where
  "mem_empty = \<lparr>mo_files = (\<lambda>_. None), mo_fds = (\<lambda>_. None), mo_next = 3\<rparr>"

lemma mem_kernel_simps:
  "k_open mem_kernel = mem_open" "k_write mem_kernel = mem_write"
  "k_close mem_kernel fd os = (Inr (), os\<lparr>mo_fds := (mo_fds os)(fd := None)\<rparr>)"
  "k_fullfsync mem_kernel fd os = (Inl 45, os)" "k_fsync mem_kernel fd os = (Inr (), os)"
  "k_rename mem_kernel a b os = (if mo_files os a = None then (Inl ENOENT, os)
     else (Inr (), os\<lparr>mo_files := (mo_files os)(b := mo_files os a, a := None)\<rparr>))"
  by (simp_all add: mem_kernel_def)

lemma bind_weak_cong: "x = y \<Longrightarrow> Option.bind x f = Option.bind y f"
  by simp

lemmas env_eval = WriteUnbuffered.simps FlushBuffer_def PosixWritableFile_Append_def PosixWritableFile_Close_def
  PosixWritableFile_Sync_def SyncFd_def SyncDirIfManifest_def PosixWritableFile_delete_def
  PosixEnv_NewWritableFile_def PosixWritableFile_new_def kWritableFileBufferSize_def
  PosixEnv_RenameFile_def IsManifest_def Basename_def Dirname_def starts_with_def
  mem_kernel_simps mem_open_def mem_new_fd_def mem_write_def mem_empty_def posix_status_def Let_def

subsection \<open>Properties\<close>

text \<open>C5: replacing the pointer to the manifest is all or nothing. When \<open>SetCurrentFile\<close> on the POSIX
  environment returns success, \<open>CURRENT\<close> names the new manifest, and when it returns an error
  \<open>CURRENT\<close> is what it was; in both cases no file but \<open>CURRENT\<close> and the temporary file is
  touched. The kernel is any that obeys the laws of \<open>posix_fs\<close>; every system call may fail or be
  interrupted and writes may be short.\<close>

theorem set_current_file_atomic:
  assumes "posix_fs K fs names"
    and "SetCurrentFile (PosixEnv K) db n os = Some (s, os')"
  shows "fs os' (CurrentFileName db) =
      (if status_ok s then Some (drop (length db + 1) (DescriptorFileName db n) @ [0x0A])
       else fs os (CurrentFileName db)) \<and>
    (\<forall>name. name \<noteq> CurrentFileName db \<longrightarrow> name \<noteq> TempFileName db n \<longrightarrow> fs os' name = fs os name)"
  using posix_fs.SetCurrentFile_effect [OF assms] by (simp add: posix_fs.only_changes_def [OF assms(1)])

theorem set_current_file_atomic_witness:
  "\<exists>os'. SetCurrentFile (PosixEnv mem_kernel) (cstr ''d'') 7 mem_empty = Some (Status_OK, os') \<and>
     mo_files os' (cstr ''d/CURRENT'') = Some (cstr ''MANIFEST-000007'' @ [0x0A])"
proof -
  have r: "replicate 5 (0x30 :: byte) = [0x30, 0x30, 0x30, 0x30, 0x30]" by (simp add: numeral_eq_Suc)
  have d: "decimal 7 = [0x37]" by (subst decimal.simps) simp
  have n: "DescriptorFileName (cstr ''d'') 7 = cstr ''d/MANIFEST-000007''"
    "TempFileName (cstr ''d'') 7 = cstr ''d/000007.dbtmp''" "CurrentFileName (cstr ''d'') = cstr ''d/CURRENT''"
    by (simp_all add: DescriptorFileName_def TempFileName_def CurrentFileName_def MakeFileName_def
        cstr_def zero_pad_def r d)
  have p: "drop (length (cstr ''d'') + 1) (cstr ''d/MANIFEST-000007'') = cstr ''MANIFEST-000007''"
    by (simp add: cstr_def)
  let ?c = "cstr ''MANIFEST-000007'' @ [0x0A]" and ?t = "cstr ''d/000007.dbtmp''"
  have "\<exists>os1. DoWriteStringToFile (PosixEnv mem_kernel) ?c ?t True mem_empty = Some (Status_OK, os1)"
    unfolding DoWriteStringToFile_def by (simp add: env_eval cstr_def cong: bind_weak_cong)
  then obtain os1 where w: "DoWriteStringToFile (PosixEnv mem_kernel) ?c ?t True mem_empty = Some (Status_OK, os1)"
    by blast
  have "mo_files os1 ?t = Some ?c" using mem_fs.DoWriteStringToFile_effect [OF w] by simp
  then obtain os' where 1: "SetCurrentFile (PosixEnv mem_kernel) (cstr ''d'') 7 mem_empty = Some (Status_OK, os')"
    using w p
    by (simp add: SetCurrentFile_def WriteStringToFileSync_def n remove_prefix_def PosixEnv_RenameFile_def
        mem_kernel_simps posix_status_def Let_def)
  with set_current_file_atomic [OF mem_fs.posix_fs_axioms 1] p show ?thesis by (simp add: n)
qed

fun append_all ::
    "'os kernel_ops \<Rightarrow> bytes list \<Rightarrow> PosixWritableFile \<times> 'os \<Rightarrow> (Status \<times> PosixWritableFile \<times> 'os) option" where
  "append_all K [] fe = Some (Status_OK, fe)"
| "append_all K (data # datas) fe =
     (case PosixWritableFile_Append K data fe of
        None \<Rightarrow> None
      | Some (s, fe) \<Rightarrow> if status_ok s then append_all K datas fe else Some (s, fe))"

context posix_fs
begin

lemma append_all_effect:
  "append_all K datas (f, os) = Some (s, f', os') \<Longrightarrow> open_file f os \<Longrightarrow> status_ok s \<Longrightarrow>
   open_file f' os' \<and> pwf_filename f' = pwf_filename f \<and> logical f' os' = logical f os @ concat datas"
proof (induction datas arbitrary: f os)
  case (Cons d ds)
  from Cons.prems(1) obtain s1 f1 os1 where 1: "PosixWritableFile_Append K d (f, os) = Some (s1, f1, os1)"
    and 2: "(if status_ok s1 then append_all K ds (f1, os1) else Some (s1, f1, os1)) = Some (s, f', os')"
    by (auto split: option.splits)
  have ok: "status_ok s1" using 2 Cons.prems(3) by (auto split: if_splits)
  with Append_effect [OF 1 Cons.prems(2)] 2 Cons.IH [of f1 os1] Cons.prems(3) show ?case by simp
qed simp

lemma write_file_effect:
  assumes "PosixEnv_NewWritableFile K name os = (s0, Some f, os0)"
    and "append_all K datas (f, os0) = Some (s1, f1, os1)" "status_ok s1"
    and "PosixWritableFile_Close K (f1, os1) = Some (s2, f2, os2)" "status_ok s2"
  shows "fs os2 name = Some (concat datas)"
proof -
  obtain r os' where o: "k_open K name Open_TRUNC_WRONLY_CREAT os = (r, os')" by fastforce
  with assms(1) obtain fd where fd: "r = Inr fd" "f = PosixWritableFile_new name fd" "os' = os0"
    by (auto simp: PosixEnv_NewWritableFile_def split: sum.splits)
  from open_trunc [OF o [unfolded fd]] have "open_file f os0" "logical f os0 = []" "pwf_filename f = name"
    by (auto simp: fd PosixWritableFile_new_def open_file_def logical_def)
  with append_all_effect [OF assms(2) _ assms(3)] Close_effect [OF assms(4)] assms(5)
  show ?thesis by auto
qed

end

text \<open>C7: a writable file stores exactly the bytes appended to it. If \<open>NewWritableFile\<close> succeeds, any
  sequence of \<open>Append\<close> succeeds and so does \<open>Close\<close>, then the file holds the concatenation of the data,
  whatever the sizes of the pieces, the 64 KiB buffer, short writes and interrupted system calls.\<close>

theorem writable_file_stores_stream:
  assumes "posix_fs K fs names"
    and "PosixEnv_NewWritableFile K name os = (s0, Some f, os0)"
    and "append_all K datas (f, os0) = Some (s1, f1, os1)" "status_ok s1"
    and "PosixWritableFile_Close K (f1, os1) = Some (s2, f2, os2)" "status_ok s2"
  shows "fs os2 name = Some (concat datas)"
  using posix_fs.write_file_effect [OF assms] .

theorem writable_file_stores_stream_witness:
  "\<exists>f os0 f1 os1 f2 os2.
     PosixEnv_NewWritableFile mem_kernel (cstr ''a'') mem_empty = (Status_OK, Some f, os0) \<and>
     append_all mem_kernel [[1, 2], [], [3]] (f, os0) = Some (Status_OK, f1, os1) \<and>
     PosixWritableFile_Close mem_kernel (f1, os1) = Some (Status_OK, f2, os2) \<and>
     mo_files os2 (cstr ''a'') = Some [1, 2, 3]"
proof -
  have "\<exists>f os0 f1 os1 f2 os2.
     PosixEnv_NewWritableFile mem_kernel (cstr ''a'') mem_empty = (Status_OK, Some f, os0) \<and>
     append_all mem_kernel [[1, 2], [], [3]] (f, os0) = Some (Status_OK, f1, os1) \<and>
     PosixWritableFile_Close mem_kernel (f1, os1) = Some (Status_OK, f2, os2)"
    by (simp add: env_eval)
  then obtain f os0 f1 os1 f2 os2 where
    1: "PosixEnv_NewWritableFile mem_kernel (cstr ''a'') mem_empty = (Status_OK, Some f, os0)"
    and 2: "append_all mem_kernel [[1, 2], [], [3]] (f, os0) = Some (Status_OK, f1, os1)"
    and 3: "PosixWritableFile_Close mem_kernel (f1, os1) = Some (Status_OK, f2, os2)" by blast
  have "mo_files os2 (cstr ''a'') = Some (concat [[1, 2], [], [3]])"
    by (rule writable_file_stores_stream [OF mem_fs.posix_fs_axioms 1 2 _ 3]) simp_all
  then show ?thesis using 1 2 3 by auto
qed

end
