(* ===== verification/Ldb_Log.thy ===== *)
theory Ldb_Log
  imports Ldb_Crc32c Ldb_Env
begin

text \<open>The log format of \<open>db/log_format.h\<close>, \<open>db/log_writer.cc\<close> and \<open>db/log_reader.cc\<close>: a file of
  32 KiB blocks, each a sequence of checksummed physical records, a logical record being one full
  physical record or a first, some middle and a last one. The writer works on any writable file,
  the reader on any sequential file. The main result is that a log cut at an arbitrary byte, as a
  crash of the writer cuts it, is read as the list of the records that were written completely, and
  without a report of corruption.\<close>

unbundle bit_operations_syntax

subsection \<open>Format\<close>

datatype RecordType = kZeroType | kFullType | kFirstType | kMiddleType | kLastType

definition record_type_code :: "RecordType \<Rightarrow> nat" where
  "record_type_code t =
     (case t of kZeroType \<Rightarrow> 0 | kFullType \<Rightarrow> 1 | kFirstType \<Rightarrow> 2 | kMiddleType \<Rightarrow> 3 | kLastType \<Rightarrow> 4)"

definition kMaxRecordType :: nat where
  "kMaxRecordType = record_type_code kLastType"

definition kBlockSize :: nat where
  "kBlockSize = 32768"

definition kHeaderSize :: nat where
  "kHeaderSize = 4 + 2 + 1"

subsection \<open>Writer\<close>

record 'f log_writer =
  lw_dest :: 'f
  lw_block_offset :: nat
  lw_type_crc :: "u32 list"

definition InitTypeCrc :: "u32 list" where
  "InitTypeCrc = map (\<lambda>i. crc32c_Value [word_of_nat i]) [0..<kMaxRecordType + 1]"

definition Writer_new :: "'f \<Rightarrow> 'f log_writer" where
  "Writer_new dest = \<lparr>lw_dest = dest, lw_block_offset = 0, lw_type_crc = InitTypeCrc\<rparr>"

definition Writer_new_at :: "'f \<Rightarrow> u64 \<Rightarrow> 'f log_writer" where
  "Writer_new_at dest dest_length =
     \<lparr>lw_dest = dest, lw_block_offset = unat (dest_length mod word_of_nat kBlockSize), lw_type_crc = InitTypeCrc\<rparr>"

definition EmitPhysicalRecord ::
    "'f writable_file_ops \<Rightarrow> RecordType \<Rightarrow> bytes \<Rightarrow> 'f log_writer \<Rightarrow> (Status \<times> 'f log_writer) option" where
  "EmitPhysicalRecord W t data w =
     (let n = length data;
          crc = crc32c_Extend (lw_type_crc w ! record_type_code t) data;
          crc = Mask crc;
          buf = EncodeFixed32 crc @
            [word_of_nat n AND 0xFF, word_of_nat (drop_bit 8 n), word_of_nat (record_type_code t)]
      in case wf_Append W buf (lw_dest w) of
           None \<Rightarrow> None
         | Some (s, f) \<Rightarrow>
             (case (if status_ok s
                    then (case wf_Append W data f of
                            None \<Rightarrow> None
                          | Some (s, f) \<Rightarrow> if status_ok s then wf_Flush W f else Some (s, f))
                    else Some (s, f)) of
                None \<Rightarrow> None
              | Some (s, f) \<Rightarrow>
                  Some (s, w\<lparr>lw_dest := f, lw_block_offset := lw_block_offset w + (kHeaderSize + n)\<rparr>)))"

lemma EmitPhysicalRecord_offset:
  "EmitPhysicalRecord W t data w = Some (s, w') \<Longrightarrow>
   lw_block_offset w' = lw_block_offset w + (kHeaderSize + length data)"
  by (auto simp: EmitPhysicalRecord_def Let_def split: option.splits)

text \<open>The head of the loop of \<open>AddRecord\<close>: fill the trailer and switch to a new block when no header
  fits. The status of this append is ignored.\<close>

definition AddRecord_trailer ::
    "'f writable_file_ops \<Rightarrow> 'f log_writer \<Rightarrow> 'f log_writer option" where
  "AddRecord_trailer W w =
     (let leftover = int kBlockSize - int (lw_block_offset w) in
      if leftover < int kHeaderSize then
        (case (if leftover > 0 then wf_Append W (replicate (nat leftover) 0) (lw_dest w)
               else Some (Status_OK, lw_dest w)) of
           None \<Rightarrow> None
         | Some (_, f) \<Rightarrow> Some (w\<lparr>lw_dest := f, lw_block_offset := 0\<rparr>))
      else Some w)"

lemma AddRecord_trailer_offset:
  "AddRecord_trailer W w = Some w' \<Longrightarrow>
   lw_block_offset w' = (if lw_block_offset w + kHeaderSize > kBlockSize then 0 else lw_block_offset w)"
  by (auto simp: AddRecord_trailer_def Let_def split: option.splits if_splits)

definition fragment_type :: "bool \<Rightarrow> bool \<Rightarrow> RecordType" where
  "fragment_type first final =
     (if first \<and> final then kFullType else if first then kFirstType
      else if final then kLastType else kMiddleType)"

function AddRecord_loop ::
    "'f writable_file_ops \<Rightarrow> bool \<Rightarrow> bytes \<Rightarrow> 'f log_writer \<Rightarrow> (Status \<times> 'f log_writer) option" where
  "AddRecord_loop W first data w =
     (case AddRecord_trailer W w of
        None \<Rightarrow> None
      | Some w1 \<Rightarrow>
          (let avail = kBlockSize - lw_block_offset w1 - kHeaderSize;
               fragment_length = (if length data < avail then length data else avail);
               final = (length data = fragment_length)
           in case EmitPhysicalRecord W (fragment_type first final) (take fragment_length data) w1 of
                None \<Rightarrow> None
              | Some (s, w2) \<Rightarrow>
                  if status_ok s \<and> length data - fragment_length > 0
                  then AddRecord_loop W False (drop fragment_length data) w2
                  else Some (s, w2)))"
  by pat_completeness auto
termination
  by (relation "measure (\<lambda>(W, first, data, w).
        2 * length data + (if lw_block_offset w + kHeaderSize = kBlockSize then 1 else 0))")
    (auto simp: kBlockSize_def kHeaderSize_def dest!: EmitPhysicalRecord_offset AddRecord_trailer_offset
      split: if_splits)

declare AddRecord_loop.simps [simp del]

definition AddRecord ::
    "'f writable_file_ops \<Rightarrow> bytes \<Rightarrow> 'f log_writer \<Rightarrow> (Status \<times> 'f log_writer) option" where
  "AddRecord W record_slice w = AddRecord_loop W True record_slice w"

subsection \<open>Reader\<close>

definition kEof :: u32 where
  "kEof = word_of_nat (kMaxRecordType + 1)"

definition kBadRecord :: u32 where
  "kBadRecord = word_of_nat (kMaxRecordType + 2)"

text \<open>\<open>lr_reports\<close> lists the calls made to the reporter, when there is one.\<close>

record 'f log_reader =
  lr_file :: 'f
  lr_reporter :: bool
  lr_checksum :: bool
  lr_buffer :: bytes
  lr_eof :: bool
  lr_last_record_offset :: u64
  lr_end_of_buffer_offset :: u64
  lr_initial_offset :: u64
  lr_resyncing :: bool
  lr_reports :: "(u64 \<times> Status) list"

definition Reader_new :: "'f \<Rightarrow> bool \<Rightarrow> bool \<Rightarrow> u64 \<Rightarrow> 'f log_reader" where
  "Reader_new file reporter checksum initial_offset =
     \<lparr>lr_file = file, lr_reporter = reporter, lr_checksum = checksum, lr_buffer = [], lr_eof = False,
      lr_last_record_offset = 0, lr_end_of_buffer_offset = 0, lr_initial_offset = initial_offset,
      lr_resyncing = (initial_offset > 0), lr_reports = []\<rparr>"

definition ReportDrop :: "u64 \<Rightarrow> Status \<Rightarrow> 'f log_reader \<Rightarrow> 'f log_reader" where
  "ReportDrop drop_bytes reason r =
     (if lr_reporter r \<and>
         lr_end_of_buffer_offset r - word_of_nat (length (lr_buffer r)) - drop_bytes \<ge> lr_initial_offset r
      then r\<lparr>lr_reports := lr_reports r @ [(drop_bytes, reason)]\<rparr> else r)"

definition ReportCorruption :: "u64 \<Rightarrow> bytes \<Rightarrow> 'f log_reader \<Rightarrow> 'f log_reader" where
  "ReportCorruption drop_bytes reason r = ReportDrop drop_bytes (Status_Corruption reason []) r"

definition SkipToInitialBlock ::
    "'f sequential_file_ops \<Rightarrow> 'f log_reader \<Rightarrow> bool \<times> 'f log_reader" where
  "SkipToInitialBlock S r =
     (let offset_in_block = lr_initial_offset r mod word_of_nat kBlockSize;
          block_start_location = lr_initial_offset r - offset_in_block;
          block_start_location =
            (if offset_in_block > word_of_nat (kBlockSize - 6)
             then block_start_location + word_of_nat kBlockSize else block_start_location);
          r = r\<lparr>lr_end_of_buffer_offset := block_start_location\<rparr>
      in if block_start_location > 0
         then (case sf_Skip S block_start_location (lr_file r) of (skip_status, f) \<Rightarrow>
                 (let r = r\<lparr>lr_file := f\<rparr> in
                  if \<not> status_ok skip_status then (False, ReportDrop block_start_location skip_status r)
                  else (True, r)))
         else (True, r))"

text \<open>The part of \<open>ReadPhysicalRecord\<close> after a header is known to be in the buffer. \<open>result\<close> is the
  in-out parameter of the C++ function.\<close>

definition ParsePhysicalRecord :: "bytes \<Rightarrow> 'f log_reader \<Rightarrow> u32 \<times> bytes \<times> 'f log_reader" where
  "ParsePhysicalRecord result r =
     (let header = lr_buffer r;
          a = ucast (header ! 4) AND 0xFF :: u32;
          b = ucast (header ! 5) AND 0xFF :: u32;
          type = scast (header ! 6) :: u32;
          n = unat (a OR push_bit 8 b)
      in if kHeaderSize + n > length (lr_buffer r) then
           (let drop_size = word_of_nat (length (lr_buffer r));
                r = r\<lparr>lr_buffer := []\<rparr>
            in if \<not> lr_eof r then (kBadRecord, result, ReportCorruption drop_size (cstr ''bad record length'') r)
               else (kEof, result, r))
         else if type = word_of_nat (record_type_code kZeroType) \<and> n = 0 then
           (kBadRecord, result, r\<lparr>lr_buffer := []\<rparr>)
         else if lr_checksum r \<and> crc32c_Value (take (1 + n) (drop 6 header)) \<noteq> Unmask (DecodeFixed32 header) then
           (let drop_size = word_of_nat (length (lr_buffer r));
                r = r\<lparr>lr_buffer := []\<rparr>
            in (kBadRecord, result, ReportCorruption drop_size (cstr ''checksum mismatch'') r))
         else
           (let r = r\<lparr>lr_buffer := drop (kHeaderSize + n) (lr_buffer r)\<rparr> in
            if lr_end_of_buffer_offset r - word_of_nat (length (lr_buffer r)) - word_of_nat kHeaderSize -
               word_of_nat n < lr_initial_offset r
            then (kBadRecord, [], r)
            else (type, take n (drop kHeaderSize header), r)))"

function ReadPhysicalRecord ::
    "'f sequential_file_ops \<Rightarrow> bytes \<Rightarrow> 'f log_reader \<Rightarrow> (u32 \<times> bytes \<times> 'f log_reader) option" where
  "ReadPhysicalRecord S result r =
     (if length (lr_buffer r) < kHeaderSize then
        if \<not> lr_eof r then
          (case sf_Read S kBlockSize (lr_file r) of
             None \<Rightarrow> None
           | Some (status, buffer, f) \<Rightarrow>
               (let r = r\<lparr>lr_file := f, lr_buffer := buffer,
                     lr_end_of_buffer_offset := lr_end_of_buffer_offset r + word_of_nat (length buffer)\<rparr>
                in if \<not> status_ok status then
                     (let r = ReportDrop (word_of_nat kBlockSize) status (r\<lparr>lr_buffer := []\<rparr>)
                      in Some (kEof, result, r\<lparr>lr_eof := True\<rparr>))
                   else ReadPhysicalRecord S result
                     (if length buffer < kBlockSize then r\<lparr>lr_eof := True\<rparr> else r)))
        else Some (kEof, result, r\<lparr>lr_buffer := []\<rparr>)
      else Some (ParsePhysicalRecord result r))"
  by pat_completeness auto
termination
  by (relation "measure (\<lambda>(S, result, r).
        if kHeaderSize \<le> length (lr_buffer r) then 0 else if lr_eof r then 1 else 2)")
    (auto simp: kBlockSize_def kHeaderSize_def split: if_splits)

declare ReadPhysicalRecord.simps [simp del]

text \<open>The state of the loop of \<open>ReadRecord\<close>: whether a fragmented record has begun, its offset, the
  scratch string and the last fragment. The result is the return value and the record.\<close>

record read_loop =
  rl_in_fragmented_record :: bool
  rl_prospective_record_offset :: u64
  rl_scratch :: bytes
  rl_fragment :: bytes

text \<open>One pass of the switch: \<open>Inl\<close> returns from \<open>ReadRecord\<close>, \<open>Inr\<close> goes round the loop.\<close>

definition ReadRecord_switch ::
    "u32 \<Rightarrow> u64 \<Rightarrow> read_loop \<Rightarrow> 'f log_reader \<Rightarrow> (bool \<times> bytes + read_loop) \<times> 'f log_reader" where
  "ReadRecord_switch record_type physical_record_offset l r =
     (let size_of = (\<lambda>s. word_of_nat (length s) :: u64);
          scratch = rl_scratch l; fragment = rl_fragment l; in_fragmented = rl_in_fragmented_record l
      in if record_type = word_of_nat (record_type_code kFullType) then
           (let r = (if in_fragmented \<and> scratch \<noteq> []
                     then ReportCorruption (size_of scratch) (cstr ''partial record without end(1)'') r else r)
            in (Inl (True, fragment), r\<lparr>lr_last_record_offset := physical_record_offset\<rparr>))
         else if record_type = word_of_nat (record_type_code kFirstType) then
           (let r = (if in_fragmented \<and> scratch \<noteq> []
                     then ReportCorruption (size_of scratch) (cstr ''partial record without end(2)'') r else r)
            in (Inr (l\<lparr>rl_prospective_record_offset := physical_record_offset, rl_scratch := fragment,
                       rl_in_fragmented_record := True\<rparr>), r))
         else if record_type = word_of_nat (record_type_code kMiddleType) then
           (if \<not> in_fragmented
            then (Inr l, ReportCorruption (size_of fragment) (cstr ''missing start of fragmented record(1)'') r)
            else (Inr (l\<lparr>rl_scratch := scratch @ fragment\<rparr>), r))
         else if record_type = word_of_nat (record_type_code kLastType) then
           (if \<not> in_fragmented
            then (Inr l, ReportCorruption (size_of fragment) (cstr ''missing start of fragmented record(2)'') r)
            else (Inl (True, scratch @ fragment),
                  r\<lparr>lr_last_record_offset := rl_prospective_record_offset l\<rparr>))
         else if record_type = kEof then (Inl (False, []), r)
         else if record_type = kBadRecord then
           (if in_fragmented
            then (Inr (l\<lparr>rl_in_fragmented_record := False, rl_scratch := []\<rparr>),
                  ReportCorruption (size_of scratch) (cstr ''error in middle of record'') r)
            else (Inr l, r))
         else
           (Inr (l\<lparr>rl_in_fragmented_record := False, rl_scratch := []\<rparr>),
            ReportCorruption (word_of_nat (length fragment + (if in_fragmented then length scratch else 0)))
              (take 39 (cstr ''unknown record type '' @ decimal (unat record_type))) r))"

partial_function (option) ReadRecord_loop ::
    "'f sequential_file_ops \<Rightarrow> read_loop \<Rightarrow> 'f log_reader \<Rightarrow> (bool \<times> bytes \<times> 'f log_reader) option" where
  "ReadRecord_loop S l r =
     Option.bind (ReadPhysicalRecord S (rl_fragment l) r) (\<lambda>(record_type, fragment, r).
       (let l = l\<lparr>rl_fragment := fragment\<rparr>;
            physical_record_offset = lr_end_of_buffer_offset r - word_of_nat (length (lr_buffer r)) -
              word_of_nat kHeaderSize - word_of_nat (length fragment)
        in if lr_resyncing r \<and> record_type = word_of_nat (record_type_code kMiddleType)
           then ReadRecord_loop S l r
           else if lr_resyncing r \<and> record_type = word_of_nat (record_type_code kLastType)
           then ReadRecord_loop S l (r\<lparr>lr_resyncing := False\<rparr>)
           else
             (let step = ReadRecord_switch record_type physical_record_offset l (r\<lparr>lr_resyncing := False\<rparr>)
              in if isl (fst step) then Some (fst (projl (fst step)), snd (projl (fst step)), snd step)
                 else ReadRecord_loop S (projr (fst step)) (snd step))))"

definition ReadRecord ::
    "'f sequential_file_ops \<Rightarrow> 'f log_reader \<Rightarrow> (bool \<times> bytes \<times> 'f log_reader) option" where
  "ReadRecord S r =
     (let (found, r) = (if lr_last_record_offset r < lr_initial_offset r then SkipToInitialBlock S r else (True, r))
      in if \<not> found then Some (False, [], r)
         else ReadRecord_loop S \<lparr>rl_in_fragmented_record = False, rl_prospective_record_offset = 0,
                rl_scratch = [], rl_fragment = []\<rparr> r)"

definition LastRecordOffset :: "'f log_reader \<Rightarrow> u64" where
  "LastRecordOffset r = lr_last_record_offset r"

subsection \<open>Interfaces of the files\<close>

text \<open>A writable file all of whose operations succeed and a sequential file that returns fewer bytes
  than asked for only at its end.\<close>

locale reliable_writable_file =
  fixes W :: "'f writable_file_ops"
    and good :: "'f \<Rightarrow> bool"
    and contents :: "'f \<Rightarrow> bytes"
  assumes append_ok: "good f \<Longrightarrow> \<exists>f'. wf_Append W data f = Some (Status_OK, f') \<and> good f' \<and> contents f' = contents f @ data"
    and flush_ok: "good f \<Longrightarrow> \<exists>f'. wf_Flush W f = Some (Status_OK, f') \<and> good f' \<and> contents f' = contents f"

locale reliable_sequential_file =
  fixes S :: "'f sequential_file_ops"
    and unread :: "'f \<Rightarrow> bytes"
  assumes read_ok: "\<exists>f'. sf_Read S n f = Some (Status_OK, take n (unread f), f') \<and> unread f' = drop n (unread f)"

subsection \<open>The layout of a log\<close>

definition physical_record :: "RecordType \<Rightarrow> bytes \<Rightarrow> bytes" where
  "physical_record t data =
     EncodeFixed32 (Mask (crc32c_Value (word_of_nat (record_type_code t) # data))) @
     [word_of_nat (length data), word_of_nat (drop_bit 8 (length data)), word_of_nat (record_type_code t)] @ data"

definition trailer :: "nat \<Rightarrow> bytes" where
  "trailer off = (if off + kHeaderSize > kBlockSize then replicate (kBlockSize - off) 0 else [])"

definition block_start :: "nat \<Rightarrow> nat" where
  "block_start off = (if off + kHeaderSize > kBlockSize then 0 else off)"

definition fragment_room :: "nat \<Rightarrow> nat" where
  "fragment_room off = kBlockSize - block_start off - kHeaderSize"

function record_layout :: "nat \<Rightarrow> bool \<Rightarrow> bytes \<Rightarrow> (nat \<times> RecordType \<times> bytes) list" where
  "record_layout off first data =
     (if length data \<le> fragment_room off then [(off, fragment_type first True, data)]
      else (off, fragment_type first False, take (fragment_room off) data) #
           record_layout kBlockSize False (drop (fragment_room off) data))"
  by pat_completeness auto
termination
  by (relation "measure (\<lambda>(off, first, data). 2 * length data + (if off + kHeaderSize = kBlockSize then 1 else 0))")
    (auto simp: fragment_room_def block_start_def kBlockSize_def kHeaderSize_def)

declare record_layout.simps [simp del]

definition fragment_bytes :: "nat \<times> RecordType \<times> bytes \<Rightarrow> bytes" where
  "fragment_bytes p = (case p of (off, t, data) \<Rightarrow> trailer off @ physical_record t data)"

definition fragment_end :: "nat \<times> RecordType \<times> bytes \<Rightarrow> nat" where
  "fragment_end p = (case p of (off, t, data) \<Rightarrow> block_start off + kHeaderSize + length data)"

definition record_bytes :: "nat \<Rightarrow> bytes \<Rightarrow> bytes" where
  "record_bytes off data = concat (map fragment_bytes (record_layout off True data))"

definition record_end :: "nat \<Rightarrow> bytes \<Rightarrow> nat" where
  "record_end off data = fragment_end (last (record_layout off True data))"

fun log_bytes :: "nat \<Rightarrow> bytes list \<Rightarrow> bytes" where
  "log_bytes off [] = []"
| "log_bytes off (d # ds) = record_bytes off d @ log_bytes (record_end off d) ds"

subsection \<open>What the writer writes\<close>

lemma InitTypeCrc_nth: "InitTypeCrc ! record_type_code t = crc32c_Value [word_of_nat (record_type_code t)]"
  by (cases t) (simp_all add: InitTypeCrc_def record_type_code_def kMaxRecordType_def upt_rec)

lemma byte_and_255: "(b :: byte) AND 0xFF = b"
proof -
  have "b AND 0xFF = take_bit 8 b" by (simp add: take_bit_eq_mask mask_eq_exp_minus_1)
  then show ?thesis by (simp add: take_bit_word_eq_self)
qed

context reliable_writable_file
begin

lemma EmitPhysicalRecord_writes:
  assumes "good (lw_dest w)" "lw_type_crc w = InitTypeCrc"
  obtains f where "EmitPhysicalRecord W t data w =
      Some (Status_OK, w\<lparr>lw_dest := f, lw_block_offset := lw_block_offset w + (kHeaderSize + length data)\<rparr>)"
    "good f" "contents f = contents (lw_dest w) @ physical_record t data"
proof -
  let ?buf = "EncodeFixed32 (Mask (crc32c_Value (word_of_nat (record_type_code t) # data))) @
    [word_of_nat (length data), word_of_nat (drop_bit 8 (length data)), word_of_nat (record_type_code t)]"
  have crc: "crc32c_Extend (lw_type_crc w ! record_type_code t) data =
      crc32c_Value (word_of_nat (record_type_code t) # data)"
    by (simp add: assms(2) InitTypeCrc_nth crc32c_Extend_Value)
  from append_ok [OF assms(1), of ?buf] obtain f1 where 1: "wf_Append W ?buf (lw_dest w) = Some (Status_OK, f1)"
    "good f1" "contents f1 = contents (lw_dest w) @ ?buf" by blast
  from append_ok [OF 1(2), of data] obtain f2 where 2: "wf_Append W data f1 = Some (Status_OK, f2)"
    "good f2" "contents f2 = contents f1 @ data" by blast
  from flush_ok [OF 2(2)] obtain f3 where 3: "wf_Flush W f2 = Some (Status_OK, f3)"
    "good f3" "contents f3 = contents f2" by blast
  show ?thesis
    by (rule that [of f3])
      (simp_all only: EmitPhysicalRecord_def Let_def crc byte_and_255 1 2 3 option.case prod.case
        status_ok_OK if_True physical_record_def append_assoc)
qed

lemma AddRecord_trailer_writes:
  assumes "good (lw_dest w)" "lw_block_offset w \<le> kBlockSize"
  obtains f where "AddRecord_trailer W w = Some (w\<lparr>lw_dest := f, lw_block_offset := block_start (lw_block_offset w)\<rparr>)"
    "good f" "contents f = contents (lw_dest w) @ trailer (lw_block_offset w)"
proof (cases "lw_block_offset w + kHeaderSize > kBlockSize")
  case False
  then have "AddRecord_trailer W w = Some (w\<lparr>lw_dest := lw_dest w, lw_block_offset := block_start (lw_block_offset w)\<rparr>)"
    by (simp add: AddRecord_trailer_def Let_def block_start_def)
  then show ?thesis using assms False by (intro that) (simp_all add: trailer_def)
next
  case True
  let ?z = "replicate (kBlockSize - lw_block_offset w) 0"
  show ?thesis
  proof (cases "lw_block_offset w = kBlockSize")
    case eq: True
    then have "AddRecord_trailer W w = Some (w\<lparr>lw_dest := lw_dest w, lw_block_offset := block_start (lw_block_offset w)\<rparr>)"
      by (simp add: AddRecord_trailer_def Let_def block_start_def kHeaderSize_def)
    then show ?thesis using assms eq by (intro that) (auto simp: trailer_def)
  next
    case ne: False
    from append_ok [OF assms(1), of ?z] obtain f where f: "wf_Append W ?z (lw_dest w) = Some (Status_OK, f)"
      "good f" "contents f = contents (lw_dest w) @ ?z" by blast
    have "nat (int kBlockSize - int (lw_block_offset w)) = kBlockSize - lw_block_offset w" by simp
    then have "AddRecord_trailer W w = Some (w\<lparr>lw_dest := f, lw_block_offset := block_start (lw_block_offset w)\<rparr>)"
      using f True ne assms(2) by (simp add: AddRecord_trailer_def Let_def block_start_def)
    then show ?thesis using f True by (intro that) (simp_all add: trailer_def)
  qed
qed

lemma AddRecord_loop_writes:
  assumes "good (lw_dest w)" "lw_block_offset w \<le> kBlockSize" "lw_type_crc w = InitTypeCrc"
  shows "\<exists>f. AddRecord_loop W first data w =
      Some (Status_OK, w\<lparr>lw_dest := f, lw_block_offset := fragment_end (last (record_layout (lw_block_offset w) first data))\<rparr>) \<and>
    good f \<and> contents f = contents (lw_dest w) @ concat (map fragment_bytes (record_layout (lw_block_offset w) first data))"
  using assms
proof (induction "lw_block_offset w" first data arbitrary: w rule: record_layout.induct)
  case (1 first data w)
  let ?off = "lw_block_offset w"
  obtain f1 where t: "AddRecord_trailer W w = Some (w\<lparr>lw_dest := f1, lw_block_offset := block_start ?off\<rparr>)"
    "good f1" "contents f1 = contents (lw_dest w) @ trailer ?off"
    using AddRecord_trailer_writes [OF 1(2,3)] by blast
  define w1 where "w1 = w\<lparr>lw_dest := f1, lw_block_offset := block_start ?off\<rparr>"
  have w1: "good (lw_dest w1)" "lw_type_crc w1 = InitTypeCrc" "lw_block_offset w1 = block_start ?off"
    using t 1(4) by (simp_all add: w1_def)
  have room: "kBlockSize - (lw_block_offset w1 + kHeaderSize) = fragment_room ?off"
    by (simp add: w1_def fragment_room_def)
  show ?case
  proof (cases "length data \<le> fragment_room ?off")
    case True
    then have fl: "(if length data < fragment_room ?off then length data else fragment_room ?off) = length data"
      by simp
    obtain f2 where "EmitPhysicalRecord W (fragment_type first True) data w1 =
      Some (Status_OK, w1\<lparr>lw_dest := f2, lw_block_offset := lw_block_offset w1 + (kHeaderSize + length data)\<rparr>)"
      "good f2" "contents f2 = contents (lw_dest w1) @ physical_record (fragment_type first True) data"
      using EmitPhysicalRecord_writes [OF w1(1,2)] by blast
    moreover from this have "AddRecord_loop W first data w =
      Some (Status_OK, w1\<lparr>lw_dest := f2, lw_block_offset := lw_block_offset w1 + (kHeaderSize + length data)\<rparr>)"
      by (simp add: AddRecord_loop.simps [of W first data w] t(1) w1_def [symmetric] room fl Let_def)
    ultimately show ?thesis using True t
      by (intro exI [of _ f2]) (simp add: record_layout.simps [of ?off first data] fragment_end_def fragment_bytes_def w1_def add.assoc)
  next
    case False
    then have fl: "(if length data < fragment_room ?off then length data else fragment_room ?off) = fragment_room ?off"
      "length data \<noteq> fragment_room ?off" by simp_all
    let ?d = "take (fragment_room ?off) data"
    obtain f2 where e: "EmitPhysicalRecord W (fragment_type first False) ?d w1 =
      Some (Status_OK, w1\<lparr>lw_dest := f2, lw_block_offset := lw_block_offset w1 + (kHeaderSize + length ?d)\<rparr>)"
      "good f2" "contents f2 = contents (lw_dest w1) @ physical_record (fragment_type first False) ?d"
      using EmitPhysicalRecord_writes [OF w1(1,2)] by blast
    have off2: "lw_block_offset w1 + (kHeaderSize + fragment_room ?off) = kBlockSize"
      using False by (simp add: w1 fragment_room_def block_start_def kBlockSize_def kHeaderSize_def)
    define w2 where "w2 = w1\<lparr>lw_dest := f2, lw_block_offset := kBlockSize\<rparr>"
    have step: "AddRecord_loop W first data w = AddRecord_loop W False (drop (fragment_room ?off) data) w2"
      using e False by (simp add: AddRecord_loop.simps [of W first data w] t(1) w1_def [symmetric] room fl Let_def
          off2 w2_def)
    have "good (lw_dest w2)" "lw_block_offset w2 \<le> kBlockSize" "lw_type_crc w2 = InitTypeCrc"
      using e(2) w1 by (simp_all add: w2_def)
    from 1(1) [OF False _ this] obtain f3 where
      "AddRecord_loop W False (drop (fragment_room ?off) data) w2 =
        Some (Status_OK, w2\<lparr>lw_dest := f3, lw_block_offset := fragment_end (last (record_layout kBlockSize False (drop (fragment_room ?off) data)))\<rparr>)"
      "good f3" "contents f3 = contents (lw_dest w2) @ concat (map fragment_bytes (record_layout kBlockSize False (drop (fragment_room ?off) data)))"
      by (auto simp: w2_def)
    moreover have "record_layout kBlockSize False (drop (fragment_room ?off) data) \<noteq> []"
      by (simp add: record_layout.simps [of kBlockSize])
    ultimately show ?thesis using False t e unfolding step
      by (intro exI [of _ f3]) (simp add: record_layout.simps [of ?off first data] fragment_bytes_def w2_def w1_def)
  qed
qed

end

subsection \<open>What the reader reads\<close>

lemma record_length_bytes:
  assumes "n < 65536"
  shows "unat ((ucast (word_of_nat n :: byte) AND 0xFF :: u32) OR
    push_bit 8 (ucast (word_of_nat (drop_bit 8 n) :: byte) AND 0xFF)) = n"
proof -
  have high: "\<not> bit n i" if "16 \<le> i" for i
  proof -
    have "n < 2 ^ i" using assms that power_increasing [of 16 i "2 :: nat"] by simp
    then show ?thesis by (simp add: bit_iff_odd)
  qed
  have "(ucast (word_of_nat n :: byte) AND 0xFF :: u32) OR
      push_bit 8 (ucast (word_of_nat (drop_bit 8 n) :: byte) AND 0xFF) = word_of_nat n"
    unfolding u32_and_255
    by (rule bit_eqI) (auto simp: bit_simps bit_of_nat_iff high not_less intro: ccontr)
  then show ?thesis using assms by (simp add: unat_of_nat)
qed

lemma length_physical_record [simp]: "length (physical_record t d) = kHeaderSize + length d"
  by (simp add: physical_record_def kHeaderSize_def)

lemma physical_record_nth:
  "(physical_record t d @ u) ! 4 = word_of_nat (length d)"
  "(physical_record t d @ u) ! 5 = word_of_nat (drop_bit 8 (length d))"
  "(physical_record t d @ u) ! 6 = word_of_nat (record_type_code t)"
  by (simp_all add: physical_record_def nth_append)

lemma physical_record_drop:
  "drop 6 (physical_record t d @ u) = word_of_nat (record_type_code t) # d @ u"
  "drop kHeaderSize (physical_record t d @ u) = d @ u"
  "DecodeFixed32 (physical_record t d @ u) = Mask (crc32c_Value (word_of_nat (record_type_code t) # d))"
  by (simp_all add: physical_record_def kHeaderSize_def codec_simps)

lemma scast_record_type: "scast (word_of_nat (record_type_code t) :: byte) = (word_of_nat (record_type_code t) :: u32)"
  by (cases t) (simp_all add: record_type_code_def)

lemma record_type_code_nonzero: "t \<noteq> kZeroType \<Longrightarrow> (word_of_nat (record_type_code t) :: u32) \<noteq> 0"
  by (cases t) (simp_all add: record_type_code_def)

lemma record_type_code_zero [simp]: "record_type_code kZeroType = 0"
  by (simp add: record_type_code_def)

context reliable_sequential_file
begin

definition reads_at :: "'f log_reader \<Rightarrow> nat \<Rightarrow> bytes \<Rightarrow> bool" where
  "reads_at r off u \<longleftrightarrow> off \<le> kBlockSize \<and> lr_buffer r = take (kBlockSize - off) u \<and>
     unread (lr_file r) = drop (kBlockSize - off) u \<and> (lr_eof r \<longleftrightarrow> length u < kBlockSize - off) \<and>
     lr_initial_offset r = 0 \<and> \<not> lr_resyncing r"

lemma reads_at_fill:
  assumes "reads_at r off (z @ u)" "length z = kBlockSize - off" "kBlockSize < off + kHeaderSize"
  obtains r' where "ReadPhysicalRecord S res r = ReadPhysicalRecord S res r'" "reads_at r' 0 u"
    "lr_reports r' = lr_reports r"
proof -
  obtain f where f: "sf_Read S kBlockSize (lr_file r) = Some (Status_OK, take kBlockSize u, f)"
    "unread f = drop kBlockSize u"
    using read_ok [of kBlockSize "lr_file r"] assms by (auto simp: reads_at_def)
  define r1 where "r1 = r\<lparr>lr_file := f, lr_buffer := take kBlockSize u,
    lr_end_of_buffer_offset := lr_end_of_buffer_offset r + word_of_nat (length (take kBlockSize u))\<rparr>"
  define r' where "r' = (if length (take kBlockSize u) < kBlockSize then r1\<lparr>lr_eof := True\<rparr> else r1)"
  have "length (lr_buffer r) < kHeaderSize" "\<not> lr_eof r" using assms by (auto simp: reads_at_def)
  then have "ReadPhysicalRecord S res r = ReadPhysicalRecord S res r'"
    by (simp only: ReadPhysicalRecord.simps [of S res r] f option.case prod.case Let_def r'_def r1_def
        status_ok_OK not_True_eq_False if_False if_True simp_thms)
  moreover have "reads_at r' 0 u" "lr_reports r' = lr_reports r"
    using assms f \<open>\<not> lr_eof r\<close> by (auto simp: reads_at_def r'_def r1_def)
  ultimately show ?thesis by (rule that)
qed

lemma reads_at_parse:
  assumes r: "reads_at r off (physical_record t d @ u)" and fits: "off + kHeaderSize + length d \<le> kBlockSize"
    and t: "t \<noteq> kZeroType"
  obtains r' where "ReadPhysicalRecord S res r = Some (word_of_nat (record_type_code t), d, r')"
    "reads_at r' (off + kHeaderSize + length d) u" "lr_reports r' = lr_reports r"
proof -
  let ?p = "physical_record t d" and ?k = "kBlockSize - off"
  have k: "7 + length d \<le> ?k" using fits by (simp add: kHeaderSize_def)
  have buf: "lr_buffer r = take ?k (?p @ u)" using r by (simp add: reads_at_def)
  have len: "kHeaderSize + length d \<le> length (lr_buffer r)" using k by (simp add: buf kHeaderSize_def)
  have nth: "lr_buffer r ! 4 = word_of_nat (length d)" "lr_buffer r ! 5 = word_of_nat (drop_bit 8 (length d))"
    "lr_buffer r ! 6 = word_of_nat (record_type_code t)"
    using k by (simp_all add: buf physical_record_nth del: take_append)
  have n: "unat ((ucast (lr_buffer r ! 4) AND 0xFF :: u32) OR push_bit 8 (ucast (lr_buffer r ! 5) AND 0xFF)) = length d"
    unfolding nth by (rule record_length_bytes) (use k in \<open>simp add: kBlockSize_def\<close>)
  have ty: "scast (lr_buffer r ! 6) = (word_of_nat (record_type_code t) :: u32)"
    by (simp only: nth scast_record_type)
  have crc: "crc32c_Value (take (1 + length d) (drop 6 (lr_buffer r))) = Unmask (DecodeFixed32 (lr_buffer r))"
  proof -
    have "take (1 + length d) (drop 6 (lr_buffer r)) = take (1 + length d) (drop 6 (?p @ u))"
      using k by (simp add: buf drop_take del: take_append drop_append)
    moreover have "DecodeFixed32 (lr_buffer r) = DecodeFixed32 (?p @ u)"
      using k by (simp add: buf DecodeFixed32_def del: take_append)
    ultimately show ?thesis by (simp only: physical_record_drop Unmask_Mask) simp
  qed
  have data: "take (length d) (drop kHeaderSize (lr_buffer r)) = d"
    using k by (simp add: buf drop_take physical_record_drop kHeaderSize_def [symmetric] del: take_append drop_append)
      (simp add: kHeaderSize_def)
  define r' where "r' = r\<lparr>lr_buffer := drop (kHeaderSize + length d) (lr_buffer r)\<rparr>"
  have "ReadPhysicalRecord S res r = Some (word_of_nat (record_type_code t), d, r')"
    using len n ty crc data t r record_type_code_nonzero [OF t]
    by (simp add: ReadPhysicalRecord.simps [of S res r] ParsePhysicalRecord_def Let_def r'_def reads_at_def)
  moreover have "reads_at r' (off + kHeaderSize + length d) u"
  proof -
    have "drop (kHeaderSize + length d) (?p @ u) = u" by simp
    then have "lr_buffer r' = take (kBlockSize - (off + kHeaderSize + length d)) u"
      by (simp add: r'_def buf drop_take add.assoc del: take_append drop_append)
    moreover have "unread (lr_file r') = drop (kBlockSize - (off + kHeaderSize + length d)) u"
      using r fits by (simp add: reads_at_def r'_def add.assoc)
    ultimately show ?thesis using r fits by (auto simp: reads_at_def r'_def)
  qed
  ultimately show ?thesis by (rule that) (simp add: r'_def)
qed

lemma reads_at_record:
  assumes "reads_at r off (fragment_bytes (off, t, d) @ u)" "length d \<le> fragment_room off" "t \<noteq> kZeroType"
  obtains r' where "ReadPhysicalRecord S res r = Some (word_of_nat (record_type_code t), d, r')"
    "reads_at r' (fragment_end (off, t, d)) u" "lr_reports r' = lr_reports r"
proof (cases "off + kHeaderSize > kBlockSize")
  case True
  then have a: "reads_at r off (replicate (kBlockSize - off) 0 @ physical_record t d @ u)"
    using assms(1) by (simp add: fragment_bytes_def trailer_def)
  obtain r1 where 1: "ReadPhysicalRecord S res r = ReadPhysicalRecord S res r1"
    "reads_at r1 0 (physical_record t d @ u)" "lr_reports r1 = lr_reports r"
    using reads_at_fill [OF a _ True] by (metis length_replicate)
  have "0 + kHeaderSize + length d \<le> kBlockSize"
    using assms(2) True by (simp add: fragment_room_def block_start_def kBlockSize_def kHeaderSize_def)
  from reads_at_parse [OF 1(2) this assms(3)] show ?thesis
    using 1 True that by (auto simp: fragment_end_def block_start_def)
next
  case False
  then have a: "reads_at r off (physical_record t d @ u)"
    using assms(1) by (simp add: fragment_bytes_def trailer_def)
  have "off + kHeaderSize + length d \<le> kBlockSize"
    using assms(2) False by (simp add: fragment_room_def block_start_def)
  from reads_at_parse [OF a this assms(3)] show ?thesis
    using False that by (auto simp: fragment_end_def block_start_def)
qed

lemma reads_at_parse_truncated:
  assumes r: "reads_at r off (take m (physical_record t d))" and m: "m < kHeaderSize + length d"
    and fits: "off + kHeaderSize + length d \<le> kBlockSize"
  obtains r' where "ReadPhysicalRecord S res r = Some (kEof, res, r')" "lr_reports r' = lr_reports r"
    "\<not> lr_resyncing r'"
proof -
  let ?p = "physical_record t d"
  have buf: "lr_buffer r = take m ?p" and eof: "lr_eof r" and sync: "\<not> lr_resyncing r"
    using r m fits by (auto simp: reads_at_def)
  have len: "length (lr_buffer r) = m" using m by (simp add: buf)
  have "ReadPhysicalRecord S res r = Some (kEof, res, r\<lparr>lr_buffer := []\<rparr>)"
  proof (cases "m < kHeaderSize")
    case True
    with len eof show ?thesis by (simp add: ReadPhysicalRecord.simps [of S res r])
  next
    case False
    then have nth: "lr_buffer r ! 4 = word_of_nat (length d)" "lr_buffer r ! 5 = word_of_nat (drop_bit 8 (length d))"
      using physical_record_nth [of t d "[]"] by (simp_all add: buf kHeaderSize_def)
    have "unat ((ucast (lr_buffer r ! 4) AND 0xFF :: u32) OR push_bit 8 (ucast (lr_buffer r ! 5) AND 0xFF)) = length d"
      unfolding nth by (rule record_length_bytes) (use fits in \<open>simp add: kBlockSize_def\<close>)
    with False len eof m show ?thesis
      by (simp add: ReadPhysicalRecord.simps [of S res r] ParsePhysicalRecord_def Let_def)
  qed
  with sync show ?thesis by (intro that [of "r\<lparr>lr_buffer := []\<rparr>"]) auto
qed

lemma reads_at_truncated:
  assumes "reads_at r off (take m (fragment_bytes (off, t, d)))" "m < length (fragment_bytes (off, t, d))"
    and "length d \<le> fragment_room off"
  obtains r' where "ReadPhysicalRecord S res r = Some (kEof, res, r')" "lr_reports r' = lr_reports r"
    "\<not> lr_resyncing r'"
proof (cases "off + kHeaderSize > kBlockSize")
  case True
  let ?z = "replicate (kBlockSize - off) (0 :: byte)"
  have fits: "0 + kHeaderSize + length d \<le> kBlockSize"
    using assms(3) True by (simp add: fragment_room_def block_start_def kBlockSize_def kHeaderSize_def)
  have fb: "fragment_bytes (off, t, d) = ?z @ physical_record t d"
    using True by (simp add: fragment_bytes_def trailer_def)
  show ?thesis
  proof (cases "m < kBlockSize - off")
    case short: True
    then have "length (lr_buffer r) < kHeaderSize" "lr_eof r" "\<not> lr_resyncing r"
      using assms(1) True by (auto simp: reads_at_def fb)
    then show ?thesis
      by (intro that [of "r\<lparr>lr_buffer := []\<rparr>"]) (auto simp: ReadPhysicalRecord.simps [of S res r])
  next
    case False
    define k where "k = m - (kBlockSize - off)"
    have "reads_at r off (?z @ take k (physical_record t d))"
      using assms(1) False by (simp add: fb k_def)
    then obtain r1 where 1: "ReadPhysicalRecord S res r = ReadPhysicalRecord S res r1"
      "reads_at r1 0 (take k (physical_record t d))" "lr_reports r1 = lr_reports r"
      using reads_at_fill [OF _ _ True] by (metis length_replicate)
    have "k < kHeaderSize + length d" using assms(2) False by (simp add: fb k_def)
    from reads_at_parse_truncated [OF 1(2) this fits] show ?thesis using 1 that by metis
  qed
next
  case False
  then have "fragment_bytes (off, t, d) = physical_record t d" by (simp add: fragment_bytes_def trailer_def)
  moreover have "off + kHeaderSize + length d \<le> kBlockSize"
    using assms(3) False by (simp add: fragment_room_def block_start_def)
  ultimately show ?thesis using reads_at_parse_truncated [of r off m t d] assms(1,2) that by auto
qed

end

lemma record_type_codes:
  "record_type_code kFullType = 1" "record_type_code kFirstType = 2" "record_type_code kMiddleType = 3"
  "record_type_code kLastType = 4"
  by (simp_all add: record_type_code_def)

lemma special_codes: "kEof = 5" "kBadRecord = 6"
  by (simp_all add: kEof_def kBadRecord_def kMaxRecordType_def record_type_codes)

lemmas type_eval = record_type_codes special_codes fragment_type_def

context reliable_sequential_file
begin

text \<open>The loop of \<open>ReadRecord\<close> over the fragments of one record.\<close>

lemma ReadRecord_loop_layout:
  assumes "reads_at r off (take m (concat (map fragment_bytes (record_layout off first data)) @ u))"
    and "rl_in_fragmented_record l \<longleftrightarrow> \<not> first" "first \<longrightarrow> rl_scratch l = []"
  shows "\<exists>r'. lr_reports r' = lr_reports r \<and>
    (let n = length (concat (map fragment_bytes (record_layout off first data))) in
     if n \<le> m
     then ReadRecord_loop S l r = Some (True, rl_scratch l @ data, r') \<and>
       reads_at r' (fragment_end (last (record_layout off first data))) (take (m - n) u)
     else ReadRecord_loop S l r = Some (False, [], r'))"
  using assms
proof (induction off first data arbitrary: r l m rule: record_layout.induct)
  case (1 off first data r l m)
  note IH = 1(1) and 2 = 1(3) and 3 = 1(4)
  define final where "final = (length data \<le> fragment_room off)"
  define t where "t = fragment_type first final"
  define d where "d = (if final then data else take (fragment_room off) data)"
  define more where "more = (if final then [] else record_layout kBlockSize False (drop (fragment_room off) data))"
  have lay: "record_layout off first data = (off, t, d) # more"
    by (simp add: record_layout.simps [of off first data] t_def d_def more_def final_def)
  let ?fb = "fragment_bytes (off, t, d)" and ?rest = "concat (map fragment_bytes more)"
  have room: "length d \<le> fragment_room off" by (auto simp: d_def final_def)
  have t: "t \<noteq> kZeroType" by (simp add: t_def fragment_type_def)
  show ?case
  proof (cases "length ?fb \<le> m")
    case False
    then have "reads_at r off (take m ?fb)" using 1(2) by (simp add: lay)
    then obtain r' where r': "ReadPhysicalRecord S (rl_fragment l) r = Some (kEof, rl_fragment l, r')"
      "lr_reports r' = lr_reports r" "\<not> lr_resyncing r'"
      using reads_at_truncated [OF _ _ room] False by (metis not_le)
    then have "ReadRecord_loop S l r = Some (False, [], r'\<lparr>lr_resyncing := False\<rparr>)"
      by (simp add: ReadRecord_loop.simps [of S l r] ReadRecord_switch_def Let_def type_eval)
    moreover have "\<not> length (concat (map fragment_bytes (record_layout off first data))) \<le> m"
      using False by (simp add: lay)
    ultimately show ?thesis using r' by (intro exI [of _ "r'\<lparr>lr_resyncing := False\<rparr>"]) simp
  next
    case True
    have "reads_at r off (?fb @ take (m - length ?fb) (?rest @ u))" using 1(2) True by (simp add: lay)
    then obtain r1 where 1: "ReadPhysicalRecord S (rl_fragment l) r = Some (word_of_nat (record_type_code t), d, r1)"
      "reads_at r1 (fragment_end (off, t, d)) (take (m - length ?fb) (?rest @ u))" "lr_reports r1 = lr_reports r"
      using reads_at_record [OF _ room t] by metis
    have sync: "\<not> lr_resyncing r1" "r1\<lparr>lr_resyncing := False\<rparr> = r1" using 1(2) by (simp_all add: reads_at_def)
    show ?thesis
    proof (cases final)
      case fin: True
      then have more: "more = []" "d = data" by (simp_all add: more_def d_def)
      define r' where "r' = r1\<lparr>lr_last_record_offset :=
        (if first then lr_end_of_buffer_offset r1 - word_of_nat (length (lr_buffer r1)) -
           word_of_nat kHeaderSize - word_of_nat (length d) else rl_prospective_record_offset l)\<rparr>"
      have "ReadRecord_loop S l r = Some (True, rl_scratch l @ data, r')"
        using 1(1) sync 2 3 fin
        by (simp add: ReadRecord_loop.simps [of S l r] ReadRecord_switch_def Let_def type_eval t_def more r'_def)
      moreover have "reads_at r' (fragment_end (off, t, d)) (take (m - length ?fb) u)"
        using 1(2) by (simp add: more reads_at_def r'_def)
      ultimately show ?thesis using 1(3) True
        by (intro exI [of _ r']) (simp add: lay more r'_def)
    next
      case nfin: False
      then have more: "more = record_layout kBlockSize False (drop (fragment_room off) data)"
        and d: "d = take (fragment_room off) data" and big: "\<not> length data \<le> fragment_room off"
        by (simp_all add: more_def d_def final_def)
      have more_ne: "more \<noteq> []" unfolding more by (simp add: record_layout.simps [of kBlockSize])
      have fe: "fragment_end (off, t, d) = kBlockSize"
        using big by (simp add: fragment_end_def d fragment_room_def block_start_def kBlockSize_def kHeaderSize_def)
      let ?po = "lr_end_of_buffer_offset r1 - word_of_nat (length (lr_buffer r1)) -
        word_of_nat kHeaderSize - word_of_nat (length d)"
      obtain l' where l': "ReadRecord_switch (word_of_nat (record_type_code t)) ?po (l\<lparr>rl_fragment := d\<rparr>) r1 = (Inr l', r1)"
        "rl_in_fragmented_record l'" "rl_scratch l' = rl_scratch l @ d"
        using 2 3 nfin by (cases first) (auto simp: ReadRecord_switch_def Let_def type_eval t_def)
      have step: "ReadRecord_loop S l r = ReadRecord_loop S l' r1"
        using 1(1) l' by (simp add: ReadRecord_loop.simps [of S l r] Let_def sync)
      have "reads_at r1 kBlockSize (take (m - length ?fb)
          (concat (map fragment_bytes (record_layout kBlockSize False (drop (fragment_room off) data))) @ u))"
        using 1(2) by (simp only: fe more)
      from IH [OF big this] obtain r' where r': "lr_reports r' = lr_reports r1"
        "if length ?rest \<le> m - length ?fb
         then ReadRecord_loop S l' r1 = Some (True, rl_scratch l' @ drop (fragment_room off) data, r') \<and>
           reads_at r' (fragment_end (last more)) (take (m - length ?fb - length ?rest) u)
         else ReadRecord_loop S l' r1 = Some (False, [], r')"
        unfolding Let_def more [symmetric] using l' by auto
      have "rl_scratch l' @ drop (fragment_room off) data = rl_scratch l @ data" by (simp add: l' d)
      note r'' = r' [unfolded this]
      show ?thesis
      proof (cases "length ?rest \<le> m - length ?fb")
        case le: True
        with r'' have "ReadRecord_loop S l' r1 = Some (True, rl_scratch l @ data, r')"
          "reads_at r' (fragment_end (last more)) (take (m - (length ?fb + length ?rest)) u)" by simp_all
        then show ?thesis using le True r''(1) 1(3) more_ne
          by (intro exI [of _ r']) (simp add: lay step Let_def)
      next
        case False
        with r'' have "ReadRecord_loop S l' r1 = Some (False, [], r')" by simp
        then show ?thesis using False True r''(1) 1(3)
          by (intro exI [of _ r']) (simp add: lay step Let_def)
      qed
    qed
  qed
qed

end

subsection \<open>A whole log\<close>

fun AddRecords ::
    "'f writable_file_ops \<Rightarrow> bytes list \<Rightarrow> 'f log_writer \<Rightarrow> (Status \<times> 'f log_writer) option" where
  "AddRecords W [] w = Some (Status_OK, w)"
| "AddRecords W (d # ds) w =
     (case AddRecord W d w of
        None \<Rightarrow> None
      | Some (s, w) \<Rightarrow> if status_ok s then AddRecords W ds w else Some (s, w))"

partial_function (option) ReadRecords ::
    "'f sequential_file_ops \<Rightarrow> 'f log_reader \<Rightarrow> (bytes list \<times> 'f log_reader) option" where
  "ReadRecords S r =
     Option.bind (ReadRecord S r) (\<lambda>(ok, d, r).
       if ok then Option.bind (ReadRecords S r) (\<lambda>(ds, r). Some (d # ds, r)) else Some ([], r))"

lemma record_layout_ends: "off \<le> kBlockSize \<Longrightarrow> fragment_end (last (record_layout off first data)) \<le> kBlockSize"
proof (induction off first data rule: record_layout.induct)
  case (1 off first data)
  show ?case
  proof (cases "length data \<le> fragment_room off")
    case True
    with 1(2) show ?thesis
      by (simp add: record_layout.simps [of off] fragment_end_def fragment_room_def block_start_def
          kBlockSize_def kHeaderSize_def split: if_splits)
  next
    case False
    with 1 show ?thesis
      by (simp add: record_layout.simps [of off] record_layout.simps [of kBlockSize])
  qed
qed

lemma record_end_le: "off \<le> kBlockSize \<Longrightarrow> record_end off d \<le> kBlockSize"
  by (simp add: record_end_def record_layout_ends)

lemma length_log_bytes_mono:
  "j \<le> k \<Longrightarrow> length (log_bytes off (take j ds)) \<le> length (log_bytes off (take k ds))"
proof (induction ds arbitrary: off j k)
  case (Cons d ds)
  then show ?case by (cases j; cases k) auto
qed simp

lemma physical_record_nonempty [simp]: "physical_record t d \<noteq> []"
  by (simp add: physical_record_def)

lemma record_bytes_nonempty: "0 < length (record_bytes off d)"
  by (simp add: record_bytes_def record_layout.simps [of off True] fragment_bytes_def)

context reliable_writable_file
begin

lemma AddRecords_writes:
  "good (lw_dest w) \<Longrightarrow> lw_block_offset w \<le> kBlockSize \<Longrightarrow> lw_type_crc w = InitTypeCrc \<Longrightarrow>
   \<exists>w'. AddRecords W ds w = Some (Status_OK, w') \<and>
     contents (lw_dest w') = contents (lw_dest w) @ log_bytes (lw_block_offset w) ds"
proof (induction ds arbitrary: w)
  case (Cons d ds)
  let ?off = "lw_block_offset w"
  from AddRecord_loop_writes [OF Cons.prems, of True d] obtain f where
    f: "AddRecord W d w = Some (Status_OK, w\<lparr>lw_dest := f, lw_block_offset := record_end ?off d\<rparr>)"
      "good f" "contents f = contents (lw_dest w) @ record_bytes ?off d"
    by (auto simp: AddRecord_def record_end_def record_bytes_def)
  let ?w = "w\<lparr>lw_dest := f, lw_block_offset := record_end ?off d\<rparr>"
  have "good (lw_dest ?w)" "lw_block_offset ?w \<le> kBlockSize" "lw_type_crc ?w = InitTypeCrc"
    using f Cons.prems record_end_le by simp_all
  from Cons.IH [OF this] f show ?case by auto
qed simp

end

context reliable_sequential_file
begin

lemma ReadRecord_reads:
  assumes "reads_at r off (take m (record_bytes off d @ u))"
  shows "\<exists>r'. lr_reports r' = lr_reports r \<and>
    (if length (record_bytes off d) \<le> m
     then ReadRecord S r = Some (True, d, r') \<and> reads_at r' (record_end off d) (take (m - length (record_bytes off d)) u)
     else ReadRecord S r = Some (False, [], r'))"
proof -
  let ?l = "\<lparr>rl_in_fragmented_record = False, rl_prospective_record_offset = 0, rl_scratch = [], rl_fragment = []\<rparr>"
  have "ReadRecord S r = ReadRecord_loop S ?l r"
    using assms by (simp add: ReadRecord_def reads_at_def)
  with ReadRecord_loop_layout [of r off m True d u ?l] assms show ?thesis
    by (simp add: record_bytes_def record_end_def Let_def cong: if_cong)
qed

lemma ReadRecords_reads:
  "reads_at r off (take m (log_bytes off ds)) \<Longrightarrow>
   \<exists>k r'. k \<le> length ds \<and> ReadRecords S r = Some (take k ds, r') \<and> lr_reports r' = lr_reports r \<and>
     length (log_bytes off (take k ds)) \<le> m \<and>
     (\<forall>j \<le> length ds. length (log_bytes off (take j ds)) \<le> m \<longrightarrow> j \<le> k)"
proof (induction ds arbitrary: r off m)
  case Nil
  then have "reads_at r off (take 0 (record_bytes off [] @ []))" by simp
  from ReadRecord_reads [OF this] obtain r' where "lr_reports r' = lr_reports r" "ReadRecord S r = Some (False, [], r')"
    using record_bytes_nonempty [of off "[]"] by auto
  then show ?case by (simp add: ReadRecords.simps [of S r])
next
  case (Cons d ds)
  from ReadRecord_reads [of r off m d "log_bytes (record_end off d) ds"] Cons.prems
  obtain r' where r': "lr_reports r' = lr_reports r"
    "if length (record_bytes off d) \<le> m
     then ReadRecord S r = Some (True, d, r') \<and>
       reads_at r' (record_end off d) (take (m - length (record_bytes off d)) (log_bytes (record_end off d) ds))
     else ReadRecord S r = Some (False, [], r')" by auto
  show ?case
  proof (cases "length (record_bytes off d) \<le> m")
    case True
    with r'(2) Cons.IH obtain k r'' where k: "k \<le> length ds" "ReadRecords S r' = Some (take k ds, r'')"
      "lr_reports r'' = lr_reports r'"
      "length (log_bytes (record_end off d) (take k ds)) \<le> m - length (record_bytes off d)"
      "\<forall>j \<le> length ds. length (log_bytes (record_end off d) (take j ds)) \<le> m - length (record_bytes off d) \<longrightarrow> j \<le> k"
      by metis
    have "j \<le> Suc k" if "j \<le> length (d # ds)" "length (log_bytes off (take j (d # ds))) \<le> m" for j
      using that k(5) by (cases j) auto
    with True r' k show ?thesis
      by (intro exI [of _ "Suc k"] exI [of _ r'']) (auto simp: ReadRecords.simps [of S r])
  next
    case False
    have "j \<le> 0" if "length (log_bytes off (take j (d # ds))) \<le> m" for j
      using that False by (cases j) auto
    with False r' show ?thesis
      by (intro exI [of _ 0] exI [of _ r']) (auto simp: ReadRecords.simps [of S r])
  qed
qed

lemma reads_at_start: "reads_at (Reader_new g reporter checksum 0) kBlockSize (unread g)"
  by (simp add: reads_at_def Reader_new_def)

end

lemma log_bytes_at_block_end: "log_bytes kBlockSize ds = log_bytes 0 ds"
proof (cases ds)
  case (Cons d ds')
  have r: "fragment_room kBlockSize = fragment_room 0"
    by (simp add: fragment_room_def block_start_def kHeaderSize_def kBlockSize_def)
  have "fragment_bytes (kBlockSize, t, x) = fragment_bytes (0, t, x)" "fragment_end (kBlockSize, t, x) = fragment_end (0, t, x)" for t x
    by (simp_all add: fragment_bytes_def fragment_end_def trailer_def block_start_def kHeaderSize_def kBlockSize_def)
  with r have "record_bytes kBlockSize d = record_bytes 0 d \<and> record_end kBlockSize d = record_end 0 d"
    by (simp add: record_bytes_def record_end_def record_layout.simps [of kBlockSize True d] record_layout.simps [of 0 True d])
  then show ?thesis by (simp add: Cons)
qed simp

lemma log_truncation:
  assumes W: "reliable_writable_file W good contents" and S: "reliable_sequential_file S unread"
    and f: "good f" "contents f = []"
  shows "\<exists>w. AddRecords W ds (Writer_new f) = Some (Status_OK, w) \<and>
    (\<forall>n g. unread g = take n (contents (lw_dest w)) \<longrightarrow>
      (\<exists>k r. ReadRecords S (Reader_new g reporter checksum 0) = Some (take k ds, r) \<and> lr_reports r = [] \<and>
        (\<forall>j w'. j \<le> length ds \<longrightarrow> AddRecords W (take j ds) (Writer_new f) = Some (Status_OK, w') \<longrightarrow>
          (j \<le> k \<longleftrightarrow> length (contents (lw_dest w')) \<le> n))))"
proof -
  have w: "\<exists>w. AddRecords W xs (Writer_new f) = Some (Status_OK, w) \<and> contents (lw_dest w) = log_bytes 0 xs" for xs
    using reliable_writable_file.AddRecords_writes [OF W, of "Writer_new f" xs] f by (simp add: Writer_new_def)
  from w [of ds] obtain w where 1: "AddRecords W ds (Writer_new f) = Some (Status_OK, w)"
    "contents (lw_dest w) = log_bytes 0 ds" by blast
  have "\<exists>k r. ReadRecords S (Reader_new g reporter checksum 0) = Some (take k ds, r) \<and> lr_reports r = [] \<and>
        (\<forall>j w'. j \<le> length ds \<longrightarrow> AddRecords W (take j ds) (Writer_new f) = Some (Status_OK, w') \<longrightarrow>
          (j \<le> k \<longleftrightarrow> length (contents (lw_dest w')) \<le> n))"
    if g: "unread g = take n (contents (lw_dest w))" for n g
  proof -
    have "reliable_sequential_file.reads_at unread (Reader_new g reporter checksum 0) kBlockSize (take n (log_bytes kBlockSize ds))"
      using reliable_sequential_file.reads_at_start [OF S, of g] g 1(2) by (simp add: log_bytes_at_block_end)
    from reliable_sequential_file.ReadRecords_reads [OF S this] obtain k r where
      k: "k \<le> length ds" "ReadRecords S (Reader_new g reporter checksum 0) = Some (take k ds, r)" "lr_reports r = []"
      "length (log_bytes 0 (take k ds)) \<le> n" "\<forall>j \<le> length ds. length (log_bytes 0 (take j ds)) \<le> n \<longrightarrow> j \<le> k"
      by (auto simp: Reader_new_def log_bytes_at_block_end)
    have "j \<le> k \<longleftrightarrow> length (contents (lw_dest w')) \<le> n"
      if "j \<le> length ds" "AddRecords W (take j ds) (Writer_new f) = Some (Status_OK, w')" for j w'
    proof -
      have "contents (lw_dest w') = log_bytes 0 (take j ds)" using w [of "take j ds"] that(2) by auto
      with k(4,5) that(1) length_log_bytes_mono [of j k 0 ds] show ?thesis by auto
    qed
    with k show ?thesis by blast
  qed
  with 1 show ?thesis by blast
qed

subsection \<open>The POSIX files\<close>

lemma mem_WriteUnbuffered_ok:
  "mo_fds os fd = Some name \<Longrightarrow> mo_files os name = Some c \<Longrightarrow>
   \<exists>os'. WriteUnbuffered mem_kernel filename fd data os = Some (Status_OK, os')"
proof (induction "length data" arbitrary: data os c rule: less_induct)
  case less
  show ?case
  proof (cases "data = []")
    case True
    then show ?thesis by (simp add: WriteUnbuffered.simps [of _ _ _ _ os])
  next
    case False
    let ?n = "min 4096 (length data)"
    let ?os = "os\<lparr>mo_files := (mo_files os)(name \<mapsto> c @ take ?n data)\<rparr>"
    have w: "k_write mem_kernel fd data os = (Inr ?n, ?os)"
      using less.prems by (simp add: mem_kernel_simps mem_write_def Let_def)
    have "length (drop ?n data) < length data" using False by auto
    from less.hyps [OF this, of ?os "c @ take ?n data"] less.prems(1) False w show ?thesis
      by (simp add: WriteUnbuffered.simps [of _ _ _ data os] Let_def)
  qed
qed

lemma mem_FlushBuffer_ok:
  "mem_fs.open_file f os \<Longrightarrow> \<exists>os'. FlushBuffer mem_kernel (f, os) = Some (Status_OK, f\<lparr>pwf_buf := []\<rparr>, os')"
  using mem_WriteUnbuffered_ok [of os "pwf_fd f" "pwf_filename f" _ "pwf_filename f" "pwf_buf f"]
  by (auto simp: FlushBuffer_def mem_fs.open_file_def)

lemma mem_Append_ok:
  assumes "mem_fs.open_file f os"
  shows "\<exists>f' os'. PosixWritableFile_Append mem_kernel data (f, os) = Some (Status_OK, f', os')"
proof -
  define n where "n = min (length data) (kWritableFileBufferSize - length (pwf_buf f))"
  define g where "g = f\<lparr>pwf_buf := pwf_buf f @ take n data\<rparr>"
  have "mem_fs.open_file g os" using assms by (auto simp: mem_fs.open_file_def g_def n_def)
  from mem_FlushBuffer_ok [OF this] obtain os1 where
    1: "FlushBuffer mem_kernel (g, os) = Some (Status_OK, g\<lparr>pwf_buf := []\<rparr>, os1)" by blast
  have "mem_fs.open_file (g\<lparr>pwf_buf := []\<rparr>) os1"
    using mem_fs.FlushBuffer_effect [OF 1 \<open>mem_fs.open_file g os\<close>] by simp
  then obtain os2 where 2: "WriteUnbuffered mem_kernel (pwf_filename g) (pwf_fd g) (drop n data) os1 = Some (Status_OK, os2)"
    using mem_WriteUnbuffered_ok [of os1 "pwf_fd g" "pwf_filename g" _ "pwf_filename g" "drop n data"]
    by (auto simp: mem_fs.open_file_def)
  show ?thesis
    unfolding PosixWritableFile_Append_def Let_def prod.case n_def [symmetric] g_def [symmetric] 1
    by (simp add: 2)
qed

interpretation posix_log_file: reliable_writable_file "PosixWritableFile_ops mem_kernel"
  "\<lambda>(f, os). mem_fs.open_file f os" "\<lambda>(f, os). mem_fs.logical f os"
proof
  fix fe :: "PosixWritableFile \<times> mem_os" and data
  obtain f os where fe: "fe = (f, os)" by (cases fe)
  assume "case fe of (f, os) \<Rightarrow> mem_fs.open_file f os"
  then have g: "mem_fs.open_file f os" by (simp add: fe)
  from mem_Append_ok [OF g] obtain f' os' where
    a: "PosixWritableFile_Append mem_kernel data (f, os) = Some (Status_OK, f', os')" by blast
  from mem_fs.Append_effect [OF a g] a
  show "\<exists>f'. wf_Append (PosixWritableFile_ops mem_kernel) data fe = Some (Status_OK, f') \<and>
      (case f' of (f, os) \<Rightarrow> mem_fs.open_file f os) \<and>
      (case f' of (f, os) \<Rightarrow> mem_fs.logical f os) = (case fe of (f, os) \<Rightarrow> mem_fs.logical f os) @ data"
    by (auto simp: fe)
  from mem_FlushBuffer_ok [OF g] obtain os' where
    b: "FlushBuffer mem_kernel (f, os) = Some (Status_OK, f\<lparr>pwf_buf := []\<rparr>, os')" by blast
  from mem_fs.FlushBuffer_effect [OF b g] b
  show "\<exists>f'. wf_Flush (PosixWritableFile_ops mem_kernel) fe = Some (Status_OK, f') \<and>
      (case f' of (f, os) \<Rightarrow> mem_fs.open_file f os) \<and>
      (case f' of (f, os) \<Rightarrow> mem_fs.logical f os) = (case fe of (f, os) \<Rightarrow> mem_fs.logical f os)"
    by (auto simp: fe PosixWritableFile_Flush_def)
qed

text \<open>A kernel with one file open for reading, whose state is the unread rest of it.\<close>

definition stream_kernel :: "bytes kernel_ops" where
  "stream_kernel =
     \<lparr>k_open = (\<lambda>name mode os. (Inr 3, os)), k_close = (\<lambda>fd os. (Inr (), os)),
      k_read = (\<lambda>fd n os. (Inr (take n os), drop n os)),
      k_pread = (\<lambda>fd n offset os. (Inl 9, os)), k_write = (\<lambda>fd data os. (Inl 9, os)),
      k_lseek_cur = (\<lambda>fd n os. (Inr (), drop (unat n) os)),
      k_fullfsync = (\<lambda>fd os. (Inr (), os)), k_fsync = (\<lambda>fd os. (Inr (), os)),
      k_unlink = (\<lambda>name os. (Inl ENOENT, os)), k_mkdir = (\<lambda>name os. (Inl ENOENT, os)),
      k_rmdir = (\<lambda>name os. (Inl ENOENT, os)), k_stat_size = (\<lambda>name os. (Inl ENOENT, os)),
      k_rename = (\<lambda>a b os. (Inl ENOENT, os)), k_access = (\<lambda>name os. False),
      k_children = (\<lambda>name os. (Inl ENOENT, os)), k_mmap = (\<lambda>fd n os. (Inl 9, os)),
      k_setlk = (\<lambda>fd lock os. (Inr (), os)), k_strerror = (\<lambda>e. [])\<rparr>"

interpretation posix_log_input: reliable_sequential_file "PosixSequentialFile_ops stream_kernel" snd
proof
  fix n and fe :: "PosixSequentialFile \<times> bytes"
  have "PosixSequential_read_loop stream_kernel fd n os = Some (Inr (take n os), drop n os)" for fd os
    by (simp add: PosixSequential_read_loop.simps stream_kernel_def Let_def)
  then show "\<exists>f'. sf_Read (PosixSequentialFile_ops stream_kernel) n fe = Some (Status_OK, take n (snd fe), f') \<and>
      snd f' = drop n (snd fe)"
    by (simp add: PosixSequentialFile_ops_def PosixSequentialFile_Read_def split: prod.splits)
qed

subsection \<open>Properties\<close>

text \<open>C4: the log survives a crash of its writer. Records are added to a new log on a writable file
  whose operations succeed, and the file is cut after an arbitrary number \<open>n\<close> of bytes. Reading
  it back from the start, with or without checksum verification, terminates and returns exactly the
  records whose last byte lies in the first \<open>n\<close> bytes, in order and whole, and reports no
  corruption. With \<open>n\<close> at least the length of the log, all records come back.\<close>

theorem log_survives_truncation:
  assumes "reliable_writable_file W good contents" and "reliable_sequential_file S unread"
    and "good f" "contents f = []"
  shows "\<exists>w. AddRecords W ds (Writer_new f) = Some (Status_OK, w) \<and>
    (\<forall>n g. unread g = take n (contents (lw_dest w)) \<longrightarrow>
      (\<exists>k r. ReadRecords S (Reader_new g reporter checksum 0) = Some (take k ds, r) \<and> lr_reports r = [] \<and>
        (\<forall>j w'. j \<le> length ds \<longrightarrow> AddRecords W (take j ds) (Writer_new f) = Some (Status_OK, w') \<longrightarrow>
          (j \<le> k \<longleftrightarrow> length (contents (lw_dest w')) \<le> n))))"
  using assms by (rule log_truncation)

definition mem_log_file :: "PosixWritableFile \<times> mem_os" where
  "mem_log_file = (PosixWritableFile_new (cstr ''log'') 3,
     \<lparr>mo_files = [cstr ''log'' \<mapsto> []], mo_fds = [3 \<mapsto> cstr ''log''], mo_next = 4\<rparr>)"

theorem log_survives_truncation_witness:
  "\<exists>w g k r. AddRecords (PosixWritableFile_ops mem_kernel) [[1, 2], [3]] (Writer_new mem_log_file) = Some (Status_OK, w) \<and>
     snd g = take 12 (case lw_dest w of (f, os) \<Rightarrow> mem_fs.logical f os) \<and>
     ReadRecords (PosixSequentialFile_ops stream_kernel) (Reader_new g True True 0) = Some (take k [[1, 2], [3]], r) \<and>
     lr_reports r = []"
proof -
  have good: "case mem_log_file of (f, os) \<Rightarrow> mem_fs.open_file f os"
    "(case mem_log_file of (f, os) \<Rightarrow> mem_fs.logical f os) = []"
    by (simp_all add: mem_log_file_def mem_fs.open_file_def mem_fs.logical_def PosixWritableFile_new_def)
  from log_survives_truncation [OF posix_log_file.reliable_writable_file_axioms
      posix_log_input.reliable_sequential_file_axioms good, of "[[1, 2], [3]]" True True]
  obtain w where 1: "AddRecords (PosixWritableFile_ops mem_kernel) [[1, 2], [3]] (Writer_new mem_log_file) = Some (Status_OK, w)"
    "\<And>n g. snd g = take n (case lw_dest w of (f, os) \<Rightarrow> mem_fs.logical f os) \<Longrightarrow>
      \<exists>k r. ReadRecords (PosixSequentialFile_ops stream_kernel) (Reader_new g True True 0) = Some (take k [[1, 2], [3]], r) \<and>
        lr_reports r = []" by blast
  let ?g = "(\<lparr>psf_fd = 3, psf_filename = []\<rparr>, take 12 (case lw_dest w of (f, os) \<Rightarrow> mem_fs.logical f os))"
  from 1(2) [of ?g 12] obtain k r where
    "ReadRecords (PosixSequentialFile_ops stream_kernel) (Reader_new ?g True True 0) = Some (take k [[1, 2], [3]], r)"
    "lr_reports r = []" by auto
  with 1(1) show ?thesis by (intro exI [of _ w] exI [of _ ?g] exI [of _ k] exI [of _ r]) simp
qed

end
