(* ===== verification/Ldb_Block.thy ===== *)
theory Ldb_Block
  imports Ldb_Coding Ldb_Comparator Ldb_Status "HOL-Library.Monad_Syntax"
begin

text \<open>
  Blocks of a table: the builder (\<open>table/block_builder.h\<close>, \<open>table/block_builder.cc\<close>) and the block with its
  iterator (\<open>table/block.h\<close>, \<open>table/block.cc\<close>). Pointers into the block are offsets into its bytes, natural
  numbers; where the code casts to \<open>uint32_t\<close> or adds in 32 bits, the model takes the remainder
  modulo \<open>2^32\<close> or adds words. An operation of the iterator is \<open>None\<close> if it does not return or
  reads outside the contents of the block.
\<close>

section \<open>The builder\<close>

record BlockBuilder =
  bb_block_restart_interval :: nat
  bb_buffer :: bytes
  bb_restarts :: "u32 list"
  bb_counter :: nat
  bb_finished :: bool
  bb_last_key :: bytes

definition BlockBuilder_new :: "nat \<Rightarrow> BlockBuilder" where
  "BlockBuilder_new block_restart_interval =
     \<lparr>bb_block_restart_interval = block_restart_interval, bb_buffer = [], bb_restarts = [0],
      bb_counter = 0, bb_finished = False, bb_last_key = []\<rparr>"

definition BlockBuilder_Reset :: "BlockBuilder \<Rightarrow> BlockBuilder" where
  "BlockBuilder_Reset b =
     b\<lparr>bb_buffer := [], bb_restarts := [0], bb_counter := 0, bb_finished := False, bb_last_key := []\<rparr>"

definition CurrentSizeEstimate :: "BlockBuilder \<Rightarrow> nat" where
  "CurrentSizeEstimate b = length (bb_buffer b) + length (bb_restarts b) * 4 + 4"

definition BlockBuilder_empty :: "BlockBuilder \<Rightarrow> bool" where
  "BlockBuilder_empty b \<longleftrightarrow> bb_buffer b = []"

definition BlockBuilder_Finish :: "BlockBuilder \<Rightarrow> bytes \<times> BlockBuilder" where
  "BlockBuilder_Finish b =
     (let buffer = foldl PutFixed32 (bb_buffer b) (bb_restarts b);
          buffer = PutFixed32 buffer (word_of_nat (length (bb_restarts b)));
          b = b\<lparr>bb_buffer := buffer, bb_finished := True\<rparr>
      in (bb_buffer b, b))"

fun shared_loop :: "bytes \<Rightarrow> bytes \<Rightarrow> nat" where
  "shared_loop (x # xs) (y # ys) = (if x = y then Suc (shared_loop xs ys) else 0)"
| "shared_loop _ _ = 0"

text \<open>The assertions (not finished, keys increase) are obligations of the caller.\<close>

definition BlockBuilder_Add :: "bytes \<Rightarrow> bytes \<Rightarrow> BlockBuilder \<Rightarrow> BlockBuilder" where
  "BlockBuilder_Add key v b =
     (let restart = \<not> bb_counter b < bb_block_restart_interval b;
          shared = (if restart then 0 else shared_loop (bb_last_key b) key);
          b = (if restart
               then b\<lparr>bb_restarts := bb_restarts b @ [word_of_nat (length (bb_buffer b))], bb_counter := 0\<rparr>
               else b);
          non_shared = length key - shared;
          buffer = PutVarint32 (bb_buffer b) (word_of_nat shared);
          buffer = PutVarint32 buffer (word_of_nat non_shared);
          buffer = PutVarint32 buffer (word_of_nat (length v));
          buffer = buffer @ drop shared key;
          buffer = buffer @ v
      in b\<lparr>bb_buffer := buffer, bb_last_key := take shared (bb_last_key b) @ drop shared key,
           bb_counter := bb_counter b + 1\<rparr>)"

section \<open>The block\<close>

record block =
  blk_data :: bytes
  blk_size :: nat
  blk_restart_offset :: nat

definition NumRestarts :: "block \<Rightarrow> nat" where
  "NumRestarts b = unat (DecodeFixed32 (drop (blk_size b - 4) (blk_data b)))"

definition Block_new :: "bytes \<Rightarrow> block" where
  "Block_new contents =
     (let b = \<lparr>blk_data = contents, blk_size = length contents, blk_restart_offset = 0\<rparr>
      in if blk_size b < 4 then b\<lparr>blk_size := 0\<rparr>
         else let max_restarts_allowed = (blk_size b - 4) div 4
              in if NumRestarts b > max_restarts_allowed then b\<lparr>blk_size := 0\<rparr>
                 else b\<lparr>blk_restart_offset := (blk_size b - (1 + NumRestarts b) * 4) mod 2 ^ 32\<rparr>)"

text \<open>\<open>DecodeEntry\<close> at the offset \<open>p\<close>, not reading past \<open>limit\<close>: the three numbers and the offset of the key
  delta. The sum of the last comparison is a sum of 32-bit numbers.\<close>

definition DecodeEntry :: "bytes \<Rightarrow> nat \<Rightarrow> nat \<Rightarrow> (u32 \<times> u32 \<times> u32 \<times> nat) option" where
  "DecodeEntry data p limit =
     (if limit < p + 3 then None
      else let seg = take (limit - p) (drop p data);
               b0 = ucast (seg ! 0) :: u32; b1 = ucast (seg ! 1) :: u32; b2 = ucast (seg ! 2) :: u32
           in do {
             (shared, non_shared, value_length, rest) \<leftarrow>
               (if (b0 OR b1 OR b2) < 128 then Some (b0, b1, b2, drop 3 seg)
                else do {
                  (shared, r) \<leftarrow> GetVarint32Ptr seg;
                  (non_shared, r) \<leftarrow> GetVarint32Ptr r;
                  (value_length, r) \<leftarrow> GetVarint32Ptr r;
                  Some (shared, non_shared, value_length, r)
                });
             if word_of_nat (length rest) < non_shared + value_length then None
             else Some (shared, non_shared, value_length, limit - length rest)
           })"

section \<open>The iterator\<close>

text \<open>The slice \<open>value_\<close> is its offset and its length, or \<open>None\<close> when it points to no byte of the block.\<close>

record block_iter =
  bi_comparator :: comparator_ops
  bi_data :: bytes
  bi_restarts :: nat
  bi_num_restarts :: nat
  bi_current :: nat
  bi_restart_index :: nat
  bi_key :: bytes
  bi_value :: "(nat \<times> nat) option"
  bi_status :: Status

definition BlockIter_new :: "comparator_ops \<Rightarrow> bytes \<Rightarrow> nat \<Rightarrow> nat \<Rightarrow> block_iter" where
  "BlockIter_new c data restarts num_restarts =
     \<lparr>bi_comparator = c, bi_data = data, bi_restarts = restarts, bi_num_restarts = num_restarts,
      bi_current = restarts, bi_restart_index = num_restarts, bi_key = [], bi_value = None,
      bi_status = Status_OK\<rparr>"

definition NextEntryOffset :: "block_iter \<Rightarrow> nat option" where
  "NextEntryOffset it = map_option (\<lambda>(off, len). (off + len) mod 2 ^ 32) (bi_value it)"

definition GetRestartPoint :: "block_iter \<Rightarrow> nat \<Rightarrow> nat option" where
  "GetRestartPoint it index =
     (let p = bi_restarts it + index * 4
      in if p + 4 \<le> length (bi_data it) then Some (unat (DecodeFixed32 (drop p (bi_data it)))) else None)"

definition SeekToRestartPoint :: "nat \<Rightarrow> block_iter \<Rightarrow> block_iter option" where
  "SeekToRestartPoint index it = do {
     offset \<leftarrow> GetRestartPoint it index;
     Some (it\<lparr>bi_key := [], bi_restart_index := index, bi_value := Some (offset, 0)\<rparr>)
   }"

definition BlockIter_Valid :: "block_iter \<Rightarrow> bool" where
  "BlockIter_Valid it \<longleftrightarrow> bi_current it < bi_restarts it"

definition BlockIter_status :: "block_iter \<Rightarrow> Status" where
  "BlockIter_status it = bi_status it"

definition BlockIter_key :: "block_iter \<Rightarrow> bytes" where
  "BlockIter_key it = bi_key it"

definition BlockIter_value :: "block_iter \<Rightarrow> bytes option" where
  "BlockIter_value it =
     (case bi_value it of
        None \<Rightarrow> Some []
      | Some (off, len) \<Rightarrow> if off + len \<le> length (bi_data it) then Some (take len (drop off (bi_data it))) else None)"

definition CorruptionError :: "block_iter \<Rightarrow> block_iter" where
  "CorruptionError it =
     it\<lparr>bi_current := bi_restarts it, bi_restart_index := bi_num_restarts it,
        bi_status := Status_Corruption (cstr ''bad entry in block'') [], bi_key := [], bi_value := None\<rparr>"

function restart_index_loop :: "block_iter \<Rightarrow> nat \<Rightarrow> nat option" where
  "restart_index_loop it index =
     (if index + 1 < bi_num_restarts it
      then do {
        r \<leftarrow> GetRestartPoint it (index + 1);
        if r < bi_current it then restart_index_loop it (index + 1) else Some index
      }
      else Some index)"
  by auto
termination by (relation "measure (\<lambda>(it, index). bi_num_restarts it - index)") auto

declare restart_index_loop.simps [simp del]

definition ParseNextKey :: "block_iter \<Rightarrow> (bool \<times> block_iter) option" where
  "ParseNextKey it = do {
     current \<leftarrow> NextEntryOffset it;
     let it = it\<lparr>bi_current := current\<rparr>;
         p = bi_current it;
         limit = bi_restarts it
     in if p \<ge> limit
        then Some (False, it\<lparr>bi_current := bi_restarts it, bi_restart_index := bi_num_restarts it\<rparr>)
        else (case DecodeEntry (bi_data it) p limit of
                None \<Rightarrow> Some (False, CorruptionError it)
              | Some (shared, non_shared, value_length, p) \<Rightarrow>
                  if length (bi_key it) < unat shared then Some (False, CorruptionError it)
                  else if length (bi_data it) < p + unat non_shared then None
                  else let it = it\<lparr>bi_key := take (unat shared) (bi_key it) @
                                     take (unat non_shared) (drop p (bi_data it)),
                                   bi_value := Some (p + unat non_shared, unat value_length)\<rparr>
                       in do {
                         index \<leftarrow> restart_index_loop it (bi_restart_index it);
                         Some (True, it\<lparr>bi_restart_index := index\<rparr>)
                       })
   }"

definition BlockIter_Next :: "block_iter \<Rightarrow> block_iter option" where
  "BlockIter_Next it = map_option snd (ParseNextKey it)"

definition BlockIter_SeekToFirst :: "block_iter \<Rightarrow> block_iter option" where
  "BlockIter_SeekToFirst it = do {
     it \<leftarrow> SeekToRestartPoint 0 it;
     map_option snd (ParseNextKey it)
   }"

partial_function (option) skip_until :: "nat \<Rightarrow> block_iter \<Rightarrow> block_iter option" where
  "skip_until limit it = do {
     (ok, it) \<leftarrow> ParseNextKey it;
     if ok then do {
       e \<leftarrow> NextEntryOffset it;
       if e < limit then skip_until limit it else Some it
     } else Some it
   }"

definition BlockIter_SeekToLast :: "block_iter \<Rightarrow> block_iter option" where
  "BlockIter_SeekToLast it = do {
     it \<leftarrow> SeekToRestartPoint (bi_num_restarts it - 1) it;
     skip_until (bi_restarts it) it
   }"

text \<open>The first loop of \<open>Prev\<close>: \<open>Inl ()\<close> when no restart point before \<open>original\<close> is left.\<close>

fun Prev_loop :: "block_iter \<Rightarrow> nat \<Rightarrow> nat \<Rightarrow> (unit + nat) option" where
  "Prev_loop it original 0 = do {
     r \<leftarrow> GetRestartPoint it 0;
     Some (if r \<ge> original then Inl () else Inr 0)
   }"
| "Prev_loop it original (Suc index) = do {
     r \<leftarrow> GetRestartPoint it (Suc index);
     if r \<ge> original then Prev_loop it original index else Some (Inr (Suc index))
   }"

definition BlockIter_Prev :: "block_iter \<Rightarrow> block_iter option" where
  "BlockIter_Prev it =
     (let original = bi_current it
      in do {
        r \<leftarrow> Prev_loop it original (bi_restart_index it);
        case r of
          Inl _ \<Rightarrow> Some (it\<lparr>bi_current := bi_restarts it, bi_restart_index := bi_num_restarts it\<rparr>)
        | Inr index \<Rightarrow> do { it \<leftarrow> SeekToRestartPoint index it; skip_until original it }
      })"

text \<open>The binary search of \<open>Seek\<close>: \<open>Inl ()\<close> on a bad entry, \<open>Inr\<close> the restart point found.\<close>

function Seek_search :: "block_iter \<Rightarrow> bytes \<Rightarrow> nat \<Rightarrow> nat \<Rightarrow> (unit + nat) option" where
  "Seek_search it target left right =
     (if left < right
      then let mid = (left + right + 1) div 2
           in do {
             region_offset \<leftarrow> GetRestartPoint it mid;
             case DecodeEntry (bi_data it) region_offset (bi_restarts it) of
               None \<Rightarrow> Some (Inl ())
             | Some (shared, non_shared, value_length, key_ptr) \<Rightarrow>
                 if shared \<noteq> 0 then Some (Inl ())
                 else if length (bi_data it) < key_ptr + unat non_shared then None
                 else if Compare (bi_comparator it) (take (unat non_shared) (drop key_ptr (bi_data it))) target < 0
                 then Seek_search it target mid right
                 else Seek_search it target left (mid - 1)
           }
      else Some (Inr left))"
  by pat_completeness auto
termination by (relation "measure (\<lambda>(it, target, left, right). right - left)") auto

declare Seek_search.simps [simp del]

partial_function (option) Seek_linear :: "bytes \<Rightarrow> block_iter \<Rightarrow> block_iter option" where
  "Seek_linear target it = do {
     (ok, it) \<leftarrow> ParseNextKey it;
     if \<not> ok then Some it
     else if Compare (bi_comparator it) (bi_key it) target \<ge> 0 then Some it
     else Seek_linear target it
   }"

definition BlockIter_Seek :: "bytes \<Rightarrow> block_iter \<Rightarrow> block_iter option" where
  "BlockIter_Seek target it = do {
     r \<leftarrow> Seek_search it target 0 (bi_num_restarts it - 1);
     case r of
       Inl _ \<Rightarrow> Some (CorruptionError it)
     | Inr left \<Rightarrow> do { it \<leftarrow> SeekToRestartPoint left it; Seek_linear target it }
   }"

datatype block_iterator = ErrorIterator Status | EmptyIterator | BlockIterator block_iter

definition Block_NewIterator :: "comparator_ops \<Rightarrow> block \<Rightarrow> block_iterator" where
  "Block_NewIterator c b =
     (if blk_size b < 4 then ErrorIterator (Status_Corruption (cstr ''bad block contents'') [])
      else let num_restarts = NumRestarts b
           in if num_restarts = 0 then EmptyIterator
              else BlockIterator (BlockIter_new c (blk_data b) (blk_restart_offset b) num_restarts))"

section \<open>Well-formed blocks\<close>

text \<open>
  What the iterator relies on: the entries lie one after the other from offset 0 to the restart array, each
  decodes to its shared length, key delta and value; the restart points are entries that share
  nothing, the first of them is the first entry, and the array stores their offsets. \<open>n\<close> is the
  number of entries, \<open>m\<close> the number of restart points, \<open>rst j\<close> the index of the entry at restart \<open>j\<close>.
\<close>

locale block_format =
  fixes data :: bytes and R m n :: nat
    and key val :: "nat \<Rightarrow> bytes" and off rst sh ptr :: "nat \<Rightarrow> nat"
  assumes R: "off n = R" "R < 2 ^ 32" "length data = R + 4 * m + 4" "0 < m"
    and off_step: "i < n \<Longrightarrow> off i < off (Suc i)"
    and rst: "rst 0 = 0" "j < m \<Longrightarrow> rst j \<le> n" "0 < n \<Longrightarrow> j < m \<Longrightarrow> rst j < n" "Suc j < m \<Longrightarrow> rst j < rst (Suc j)"
    and restart: "j < m \<Longrightarrow> DecodeFixed32 (drop (R + j * 4) data) = word_of_nat (off (rst j))"
    and decode: "i < n \<Longrightarrow> DecodeEntry data (off i) R =
        Some (word_of_nat (sh i), word_of_nat (length (key i) - sh i), word_of_nat (length (val i)), ptr i)"
    and extent: "i < n \<Longrightarrow> ptr i + (length (key i) - sh i) + length (val i) = off (Suc i)"
    and delta: "i < n \<Longrightarrow> take (length (key i) - sh i) (drop (ptr i) data) = drop (sh i) (key i)"
    and vals: "i < n \<Longrightarrow> take (length (val i)) (drop (ptr i + (length (key i) - sh i)) data) = val i"
    and shared: "i < n \<Longrightarrow> sh i \<le> length (key i)" "i < n \<Longrightarrow> length (key i) < 2 ^ 32"
      "j < m \<Longrightarrow> sh (rst j) = 0" "i < n \<Longrightarrow> 0 < i \<Longrightarrow> take (sh i) (key (i - 1)) = take (sh i) (key i)"
begin

lemma off_less: "i < j \<Longrightarrow> j \<le> n \<Longrightarrow> off i < off j"
proof (induction j)
  case (Suc j)
  then show ?case using off_step [of j] by (cases "i = j") auto
qed simp

lemma off_le: "i \<le> j \<Longrightarrow> j \<le> n \<Longrightarrow> off i \<le> off j"
  using off_less [of i j] by (cases "i = j") auto

lemma off_le_iff: "i \<le> n \<Longrightarrow> j \<le> n \<Longrightarrow> off i \<le> off j \<longleftrightarrow> i \<le> j"
  using off_le off_less by (meson leD leI)

lemma off_less_iff: "i \<le> n \<Longrightarrow> j \<le> n \<Longrightarrow> off i < off j \<longleftrightarrow> i < j"
  using off_le_iff [of j i] by (simp add: not_le [symmetric])

lemma off_bound: "i \<le> n \<Longrightarrow> off i \<le> R \<and> off i < 2 ^ 32"
  using off_le [of i n] R by auto

lemma rst_less: "j < k \<Longrightarrow> k < m \<Longrightarrow> rst j < rst k"
proof (induction k)
  case (Suc k)
  then show ?case using rst(4) [of k] by (cases "j = k") auto
qed simp

subsection \<open>States of the iterator\<close>

definition on_block :: "comparator_ops \<Rightarrow> block_iter \<Rightarrow> bool" where
  "on_block c it \<longleftrightarrow> bi_comparator it = c \<and> bi_data it = data \<and> bi_restarts it = R \<and> bi_num_restarts it = m \<and>
     bi_status it = Status_OK"

text \<open>The iterator is on entry \<open>i\<close>; it is before entry \<open>i\<close>, about to parse it; it is past the end.\<close>

definition at :: "comparator_ops \<Rightarrow> nat \<Rightarrow> block_iter \<Rightarrow> bool" where
  "at c i it \<longleftrightarrow> on_block c it \<and> i < n \<and> bi_current it = off i \<and> bi_key it = key i \<and>
     bi_value it = Some (off (Suc i) - length (val i), length (val i)) \<and>
     bi_restart_index it < m \<and> rst (bi_restart_index it) \<le> i"

definition before :: "comparator_ops \<Rightarrow> nat \<Rightarrow> block_iter \<Rightarrow> bool" where
  "before c i it \<longleftrightarrow> on_block c it \<and> i \<le> n \<and> NextEntryOffset it = Some (off i) \<and>
     (i < n \<longrightarrow> sh i \<noteq> 0 \<longrightarrow> 0 < i \<and> bi_key it = key (i - 1)) \<and>
     bi_restart_index it < m \<and> rst (bi_restart_index it) \<le> i"

definition ended :: "comparator_ops \<Rightarrow> block_iter \<Rightarrow> bool" where
  "ended c it \<longleftrightarrow> on_block c it \<and> bi_current it = R"

lemma GetRestartPoint_rst:
  assumes "on_block c it" "j < m"
  shows "GetRestartPoint it j = Some (off (rst j))"
proof -
  have "unat (word_of_nat (off (rst j)) :: u32) = off (rst j)"
    using off_bound [OF rst(2) [OF assms(2)]] by (simp add: unsigned_of_nat take_bit_nat_eq_self)
  then show ?thesis using assms R(3) restart [OF assms(2)] by (simp add: GetRestartPoint_def on_block_def Let_def)
qed

lemma at_before: "at c i it \<Longrightarrow> before c (Suc i) it"
  using extent [of i] off_bound [of "Suc i"]
  by (auto simp: at_def before_def NextEntryOffset_def Suc_le_eq)

lemma restart_index_loop_result:
  assumes "on_block c it" "bi_current it = off i" "i < n" "r < m" "rst r \<le> i"
  shows "\<exists>r'. restart_index_loop it r = Some r' \<and> r' < m \<and> rst r' \<le> i"
  using assms
proof (induction "m - r" arbitrary: r rule: less_induct)
  case less
  show ?case
  proof (cases "r + 1 < m \<and> off (rst (r + 1)) < off i")
    case True
    then have "rst (r + 1) \<le> i" using off_less_iff [of "rst (r + 1)" i] rst(2) less.prems(3) by simp
    moreover have "m - (r + 1) < m - r" using True by linarith
    ultimately show ?thesis using less.hyps [of "r + 1"] less.prems True GetRestartPoint_rst [OF less.prems(1), of "r + 1"]
      by (subst restart_index_loop.simps) (simp add: on_block_def)
  next
    case False
    then show ?thesis using less.prems GetRestartPoint_rst [OF less.prems(1), of "r + 1"]
      by (subst restart_index_loop.simps) (auto simp: on_block_def)
  qed
qed

lemma Parse_entry:
  assumes b: "before c i it" and i: "i < n"
  shows "\<exists>it'. ParseNextKey it = Some (True, it') \<and> at c i it'"
proof -
  have o: "on_block c it" and nx: "NextEntryOffset it = Some (off i)"
    and k: "sh i \<noteq> 0 \<Longrightarrow> 0 < i \<and> bi_key it = key (i - 1)" and r: "bi_restart_index it < m" "rst (bi_restart_index it) \<le> i"
    using b i by (simp_all add: before_def)
  have u: "unat (word_of_nat x :: u32) = x" if "x \<le> R" for x
    using that R(2) by (simp add: unsigned_of_nat take_bit_nat_eq_self)
  have ext: "ptr i + (length (key i) - sh i) + length (val i) \<le> R" using extent [OF i] off_bound [of "Suc i"] i by simp
  have us: "unat (word_of_nat (sh i) :: u32) = sh i"
    using shared(1,2) [OF i] by (simp add: unsigned_of_nat take_bit_nat_eq_self)
  have uk: "unat (word_of_nat (length (key i) - sh i) :: u32) = length (key i) - sh i"
    and uv: "unat (word_of_nat (length (val i)) :: u32) = length (val i)" using ext u by simp_all
  have pre: "take (sh i) (bi_key it) = take (sh i) (key i)"
    using k shared(4) [OF i] by (cases "sh i = 0") auto
  have klen: "\<not> length (bi_key it) < sh i"
    using pre shared(1) [OF i] by (metis length_take linorder_not_less min.absorb2 min.absorb3 nat_less_le)
  have key: "take (sh i) (bi_key it) @ take (length (key i) - sh i) (drop (ptr i) data) = key i"
    using pre delta [OF i] by simp
  let ?it = "it\<lparr>bi_current := off i, bi_key := key i,
    bi_value := Some (ptr i + (length (key i) - sh i), length (val i))\<rparr>"
  have o': "on_block c ?it" using o by (simp add: on_block_def)
  obtain r' where r': "restart_index_loop ?it (bi_restart_index it) = Some r'" "r' < m" "rst r' \<le> i"
    using restart_index_loop_result [OF o' _ i r] by auto
  have "ParseNextKey it = Some (True, ?it\<lparr>bi_restart_index := r'\<rparr>)"
    using o off_less [OF i order.refl] R(1,3) decode [OF i] ext klen key r'(1)
    by (simp add: ParseNextKey_def nx on_block_def us uk uv Let_def)
  moreover have "at c i (?it\<lparr>bi_restart_index := r'\<rparr>)"
    using o' i r'(2,3) extent [OF i] by (simp add: at_def on_block_def)
  ultimately show ?thesis by blast
qed

lemma Parse_end:
  assumes "before c n it"
  shows "\<exists>it'. ParseNextKey it = Some (False, it') \<and> ended c it'"
  using assms R(1) by (auto simp: before_def ParseNextKey_def on_block_def ended_def Let_def)

text \<open>\<open>Next\<close> moves to the following entry, or past the end.\<close>

lemma iter_Next:
  assumes "at c i it"
  shows "\<exists>it'. BlockIter_Next it = Some it' \<and> (if Suc i < n then at c (Suc i) it' else ended c it')"
proof (cases "Suc i < n")
  case True
  then show ?thesis using Parse_entry [OF at_before [OF assms] True] by (auto simp: BlockIter_Next_def)
next
  case False
  then have "Suc i = n" using assms by (simp add: at_def)
  then show ?thesis using Parse_end [of c it] at_before [OF assms] by (auto simp: BlockIter_Next_def)
qed

lemma SeekToRestart:
  assumes "on_block c it" "j < m"
  shows "\<exists>it'. SeekToRestartPoint j it = Some it' \<and> before c (rst j) it'"
  using assms GetRestartPoint_rst [OF assms] rst(2) [OF assms(2)] off_bound [OF rst(2) [OF assms(2)]] shared(3) [OF assms(2)]
  by (auto simp: SeekToRestartPoint_def before_def on_block_def NextEntryOffset_def)

lemma iter_SeekToFirst:
  assumes "on_block c it"
  shows "\<exists>it'. BlockIter_SeekToFirst it = Some it' \<and> (if 0 < n then at c 0 it' else ended c it')"
proof -
  obtain it1 where it1: "SeekToRestartPoint 0 it = Some it1" "before c 0 it1"
    using SeekToRestart [OF assms R(4)] rst(1) by auto
  show ?thesis
  proof (cases "0 < n")
    case True
    then show ?thesis using it1 Parse_entry [OF it1(2) True] by (auto simp: BlockIter_SeekToFirst_def)
  next
    case False
    then show ?thesis using it1 Parse_end [of c it1] by (auto simp: BlockIter_SeekToFirst_def)
  qed
qed

lemma skip_until_entry:
  assumes "before c i it" "i < k" "k \<le> n"
  shows "\<exists>it'. skip_until (off k) it = Some it' \<and> at c (k - 1) it'"
  using assms
proof (induction "k - i" arbitrary: i it)
  case (Suc d)
  obtain it1 where it1: "ParseNextKey it = Some (True, it1)" "at c i it1"
    using Parse_entry [OF Suc.prems(1)] Suc.prems by auto
  have nx: "NextEntryOffset it1 = Some (off (Suc i))" using at_before [OF it1(2)] by (simp add: before_def)
  show ?case
  proof (cases "Suc i < k")
    case True
    then have "off (Suc i) < off k" using off_less Suc.prems by simp
    moreover have "\<exists>it'. skip_until (off k) it1 = Some it' \<and> at c (k - 1) it'"
      using Suc.hyps(2) True Suc.prems(3) by (intro Suc.hyps(1) [OF _ at_before [OF it1(2)]]) auto
    ultimately show ?thesis using it1(1) nx by (subst skip_until.simps) simp
  next
    case False
    then have "k = Suc i" using Suc.prems(2) by simp
    then show ?thesis using it1 nx by (subst skip_until.simps) simp
  qed
qed simp

lemma iter_SeekToLast:
  assumes "on_block c it"
  shows "\<exists>it'. BlockIter_SeekToLast it = Some it' \<and> (if 0 < n then at c (n - 1) it' else ended c it')"
proof -
  have nm: "bi_num_restarts it - 1 < m" and R': "bi_restarts it = R" using assms R(4) by (simp_all add: on_block_def)
  obtain it1 where it1: "SeekToRestartPoint (bi_num_restarts it - 1) it = Some it1" "before c (rst (bi_num_restarts it - 1)) it1"
    using SeekToRestart [OF assms nm] by blast
  have r1: "bi_restarts it1 = R" using it1(2) by (simp add: before_def on_block_def)
  show ?thesis
  proof (cases "0 < n")
    case True
    then obtain it' where "skip_until (off n) it1 = Some it'" "at c (n - 1) it'"
      using skip_until_entry [OF it1(2) rst(3) [OF True nm] order.refl] by blast
    then show ?thesis using it1(1) True R(1) r1 by (simp add: BlockIter_SeekToLast_def)
  next
    case False
    then have "rst (bi_num_restarts it - 1) = n" using rst(2) [OF nm] by simp
    then obtain it' where "ParseNextKey it1 = Some (False, it')" "ended c it'" using Parse_end [of c it1] it1(2) by auto
    then show ?thesis using it1(1) False
      by (simp add: BlockIter_SeekToLast_def) (subst skip_until.simps, simp)
  qed
qed

lemma Prev_loop_result:
  assumes "on_block c it" "i < n" "r < m"
  shows "Prev_loop it (off i) r = Some (if i = 0 then Inl () else Inr (Max {j. j \<le> r \<and> rst j < i}))"
  using assms(3)
proof (induction r)
  case 0
  have "{j. j \<le> 0 \<and> rst j < i} = (if i = 0 then {} else {0})" using rst(1) by auto
  then show ?case using GetRestartPoint_rst [OF assms(1) 0] rst(1) off_le_iff [of i 0] assms(2) by (auto simp: not_le)
next
  case (Suc r)
  have g: "GetRestartPoint it (Suc r) = Some (off (rst (Suc r)))" using GetRestartPoint_rst [OF assms(1) Suc.prems] .
  have le: "off i \<le> off (rst (Suc r)) \<longleftrightarrow> i \<le> rst (Suc r)" using off_le_iff rst(2) [OF Suc.prems] assms(2) by simp
  show ?case
  proof (cases "i \<le> rst (Suc r)")
    case True
    then have "{j. j \<le> Suc r \<and> rst j < i} = {j. j \<le> r \<and> rst j < i}" by (auto simp: le_Suc_eq)
    then show ?thesis using Suc g le True by simp
  next
    case False
    then have "Max {j. j \<le> Suc r \<and> rst j < i} = Suc r" by (intro Max_eqI) auto
    then show ?thesis using g le False by simp
  qed
qed

lemma iter_Prev:
  assumes "at c i it"
  shows "\<exists>it'. BlockIter_Prev it = Some it' \<and> (if 0 < i then at c (i - 1) it' else ended c it')"
proof -
  have o: "on_block c it" and i: "i < n" and r: "bi_restart_index it < m" and cur: "bi_current it = off i"
    using assms by (simp_all add: at_def)
  note loop = Prev_loop_result [OF o i r]
  show ?thesis
  proof (cases "0 < i")
    case True
    let ?S = "{j. j \<le> bi_restart_index it \<and> rst j < i}"
    have "finite ?S" "0 \<in> ?S" using rst(1) True by auto
    then have j: "Max ?S \<in> ?S" by (intro Max_in) auto
    then obtain it1 where it1: "SeekToRestartPoint (Max ?S) it = Some it1" "before c (rst (Max ?S)) it1"
      using SeekToRestart [OF o, of "Max ?S"] r by auto
    then obtain it' where "skip_until (off i) it1 = Some it'" "at c (i - 1) it'"
      using skip_until_entry [OF it1(2), of i] j i by auto
    then show ?thesis using loop True cur it1(1) by (simp add: BlockIter_Prev_def Let_def)
  next
    case False
    then show ?thesis using loop cur o by (simp add: BlockIter_Prev_def ended_def on_block_def Let_def)
  qed
qed

subsection \<open>Seeking in a sorted block\<close>

lemma Seek_search_result:
  assumes o: "on_block c it" and n: "0 < n" and k: "key_order (Compare c) valid"
    and v: "\<And>i. i < n \<Longrightarrow> valid (key i)" "valid target"
    and sorted: "\<And>i j. i < j \<Longrightarrow> j < n \<Longrightarrow> Compare c (key i) (key j) < 0"
    and lr: "left \<le> right" "right < m" "left = 0 \<or> Compare c (key (rst left)) target < 0"
  shows "\<exists>j. Seek_search it target left right = Some (Inr j) \<and> j < m \<and> (j = 0 \<or> Compare c (key (rst j)) target < 0)"
  using lr
proof (induction "right - left" arbitrary: left right rule: less_induct)
  case less
  show ?case
  proof (cases "left < right")
    case True
    let ?mid = "(left + right + 1) div 2"
    have mid: "left < ?mid" "?mid \<le> right" "?mid < m" "?mid - 1 < right" using True less.prems(2) by auto
    let ?e = "rst ?mid"
    have e: "?e < n" using rst(3) [OF n mid(3)] .
    have sh: "sh ?e = 0" using shared(3) [OF mid(3)] .
    have R': "ptr ?e + length (key ?e) \<le> R" using extent [OF e] off_bound [of "Suc ?e"] e sh by simp
    then have uk: "unat (word_of_nat (length (key ?e)) :: u32) = length (key ?e)"
      using R(2) by (simp add: unsigned_of_nat take_bit_nat_eq_self)
    have dk: "take (length (key ?e)) (drop (ptr ?e) data) = key ?e" using delta [OF e] sh by simp
    have step: "Seek_search it target left right =
        (if Compare c (key ?e) target < 0 then Seek_search it target ?mid right else Seek_search it target left (?mid - 1))"
      using True o GetRestartPoint_rst [OF o mid(3)] decode [OF e] sh uk dk R' R(3)
      by (subst Seek_search.simps) (simp add: on_block_def Let_def)
    show ?thesis
    proof (cases "Compare c (key ?e) target < 0")
      case True
      then show ?thesis using step less.hyps [of right ?mid] mid less.prems(2) by auto
    next
      case False
      then show ?thesis using step less.hyps [of "?mid - 1" left] mid less.prems by auto
    qed
  next
    case False
    then show ?thesis using less.prems by (subst Seek_search.simps) auto
  qed
qed

lemma Seek_linear_result:
  assumes "before c i it" "i \<le> n"
  shows "\<exists>it'. Seek_linear target it = Some it' \<and>
    (case filter (\<lambda>k. Compare c (key k) target \<ge> 0) [i..<n] of [] \<Rightarrow> ended c it' | k # _ \<Rightarrow> at c k it')"
  using assms
proof (induction "n - i" arbitrary: i it)
  case 0
  then have "i = n" by simp
  then obtain it' where "ParseNextKey it = Some (False, it')" "ended c it'" using Parse_end 0 by auto
  then show ?case using \<open>i = n\<close> by (subst Seek_linear.simps) simp
next
  case (Suc d)
  then have i: "i < n" by simp
  obtain it1 where it1: "ParseNextKey it = Some (True, it1)" "at c i it1" using Parse_entry [OF Suc.prems(1) i] by auto
  then have ck: "bi_comparator it1 = c" "bi_key it1 = key i" by (simp_all add: at_def on_block_def)
  have up: "[i..<n] = i # [Suc i..<n]" using i by (simp add: upt_conv_Cons)
  show ?case
  proof (cases "Compare c (key i) target \<ge> 0")
    case True
    then show ?thesis using it1 ck up by (subst Seek_linear.simps) simp
  next
    case False
    have "\<exists>it'. Seek_linear target it1 = Some it' \<and>
        (case filter (\<lambda>k. Compare c (key k) target \<ge> 0) [Suc i..<n] of [] \<Rightarrow> ended c it' | k # _ \<Rightarrow> at c k it')"
      using Suc.hyps(2) i by (intro Suc.hyps(1) [OF _ at_before [OF it1(2)]]) auto
    then show ?thesis using it1(1) ck up False by (subst Seek_linear.simps) simp
  qed
qed

lemma iter_Seek:
  assumes o: "on_block c it" and k: "key_order (Compare c) valid"
    and v: "\<And>i. i < n \<Longrightarrow> valid (key i)" "valid target"
    and sorted: "\<And>i j. i < j \<Longrightarrow> j < n \<Longrightarrow> Compare c (key i) (key j) < 0"
  shows "\<exists>it'. BlockIter_Seek target it = Some it' \<and>
    (case filter (\<lambda>k. Compare c (key k) target \<ge> 0) [0..<n] of [] \<Rightarrow> ended c it' | k # _ \<Rightarrow> at c k it')"
proof -
  have m: "bi_num_restarts it = m" using o by (simp add: on_block_def)
  obtain j where j: "Seek_search it target 0 (m - 1) = Some (Inr j)" "j < m" "j = 0 \<or> n = 0 \<or> Compare c (key (rst j)) target < 0"
  proof (cases "0 < n")
    case True
    then show ?thesis using that Seek_search_result [OF o True k v sorted, of 0 "m - 1"] R(4) by auto
  next
    case False
    then have "m = 1"
    proof -
      have "\<not> Suc 0 < m" using rst_less [of 0 "Suc 0"] rst(2) [of "Suc 0"] False by auto
      then show ?thesis using R(4) by simp
    qed
    then have "Seek_search it target 0 (m - 1) = Some (Inr 0)" by (subst Seek_search.simps) simp
    then show ?thesis using that [of 0] R(4) by simp
  qed
  obtain it1 where it1: "SeekToRestartPoint j it = Some it1" "before c (rst j) it1" using SeekToRestart [OF o j(2)] by blast
  have "filter (\<lambda>k. Compare c (key k) target \<ge> 0) [0..<rst j] = []"
  proof (rule filter_False, rule ballI)
    fix i assume "i \<in> set [0..<rst j]"
    then have i: "i < rst j" by simp
    then have n: "0 < n" "rst j < n" using rst(2) [OF j(2)] rst(3) [OF _ j(2)] by auto
    have "j \<noteq> 0" using i rst(1) by (metis not_less_zero)
    then have "Compare c (key (rst j)) target < 0" using j(3) n by simp
    with sorted [OF i n(2)] have "Compare c (key i) target < 0"
      using key_order.cmp_less_trans [OF k] v i n by (meson order.strict_trans)
    then show "\<not> Compare c (key i) target \<ge> 0" by simp
  qed
  moreover have "[0..<n] = [0..<rst j] @ [rst j..<n]" using rst(2) [OF j(2)] by (metis le_add_diff_inverse upt_add_eq_append zero_le)
  ultimately have "filter (\<lambda>k. Compare c (key k) target \<ge> 0) [0..<n] = filter (\<lambda>k. Compare c (key k) target \<ge> 0) [rst j..<n]" by simp
  then show ?thesis using Seek_linear_result [OF it1(2) rst(2) [OF j(2)], of target] j(1) it1(1) m
    by (auto simp: BlockIter_Seek_def)
qed

lemma at_entry: "at c i it \<Longrightarrow> BlockIter_Valid it \<and> BlockIter_key it = key i \<and> BlockIter_value it = Some (val i) \<and>
    BlockIter_status it = Status_OK"
proof -
  assume a: "at c i it"
  then have i: "i < n" by (simp add: at_def)
  have e: "off (Suc i) - length (val i) = ptr i + (length (key i) - sh i)" using extent [OF i] by linarith
  have "ptr i + (length (key i) - sh i) + length (val i) \<le> length data"
    using off_bound [of "Suc i"] i R(3) extent [OF i] by linarith
  then show ?thesis using a vals [OF i] off_less [OF i order.refl] R(1)
    by (simp add: at_def on_block_def BlockIter_Valid_def BlockIter_key_def BlockIter_value_def BlockIter_status_def e)
qed

lemma ended_entry: "ended c it \<Longrightarrow> \<not> BlockIter_Valid it \<and> BlockIter_status it = Status_OK"
  by (simp add: ended_def on_block_def BlockIter_Valid_def BlockIter_status_def)

end
section \<open>Blocks that the builder writes\<close>

definition entry_shared :: "nat \<Rightarrow> (bytes \<times> bytes) list \<Rightarrow> nat \<Rightarrow> nat" where
  "entry_shared I es i = (if i mod I = 0 then 0 else shared_loop (fst (es ! (i - 1))) (fst (es ! i)))"

definition entry_bytes :: "nat \<Rightarrow> bytes \<Rightarrow> bytes \<Rightarrow> bytes" where
  "entry_bytes sh k v = EncodeVarint32 (word_of_nat sh) @ EncodeVarint32 (word_of_nat (length k - sh)) @
     EncodeVarint32 (word_of_nat (length v)) @ drop sh k @ v"

definition block_entries :: "nat \<Rightarrow> (bytes \<times> bytes) list \<Rightarrow> bytes list" where
  "block_entries I es = map (\<lambda>i. entry_bytes (entry_shared I es i) (fst (es ! i)) (snd (es ! i))) [0..<length es]"

definition entry_off :: "nat \<Rightarrow> (bytes \<times> bytes) list \<Rightarrow> nat \<Rightarrow> nat" where
  "entry_off I es i = length (concat (take i (block_entries I es)))"

definition restart_count :: "nat \<Rightarrow> nat \<Rightarrow> nat" where
  "restart_count I n = (if n = 0 then 1 else (n - 1) div I + 1)"

definition built :: "nat \<Rightarrow> (bytes \<times> bytes) list \<Rightarrow> BlockBuilder" where
  "built I es = foldl (\<lambda>b (k, v). BlockBuilder_Add k v b) (BlockBuilder_new I) es"

lemma shared_loop_take: "take (shared_loop xs ys) xs = take (shared_loop xs ys) ys"
  "shared_loop xs ys \<le> length xs" "shared_loop xs ys \<le> length ys"
  by (induction xs ys rule: shared_loop.induct) auto

lemma block_entries_snoc:
  "block_entries I (es @ [e]) = block_entries I es @ [entry_bytes (entry_shared I (es @ [e]) (length es)) (fst e) (snd e)]"
proof -
  have "map (\<lambda>i. entry_bytes (entry_shared I (es @ [e]) i) (fst ((es @ [e]) ! i)) (snd ((es @ [e]) ! i))) [0..<length es] =
    block_entries I es"
    unfolding block_entries_def by (rule map_cong) (auto simp: nth_append entry_shared_def)
  then show ?thesis by (simp add: block_entries_def [of I "es @ [e]"])
qed

lemma length_block_entries [simp]: "length (block_entries I es) = length es"
  by (simp add: block_entries_def)

lemma entry_off_snoc: "i \<le> length es \<Longrightarrow> entry_off I (es @ [e]) i = entry_off I es i"
  by (simp add: entry_off_def block_entries_snoc)

lemma restart_count_snoc:
  assumes "0 < I"
  shows "restart_count I (Suc n) = (if n \<noteq> 0 \<and> n mod I = 0 then restart_count I n + 1 else restart_count I n)"
    and "n \<noteq> 0 \<Longrightarrow> n mod I = 0 \<Longrightarrow> restart_count I n * I = n"
    and "(n - 1) mod I + 1 < I \<longleftrightarrow> n mod I \<noteq> 0 \<or> n = 0 \<and> 1 < I"
    and "n mod I \<noteq> 0 \<Longrightarrow> (n - 1) mod I + 1 = n mod I"
proof -
  have d: "(n - 1) div I + 1 = n div I \<and> (n - 1) mod I = I - 1" if nz: "n \<noteq> 0" "n mod I = 0"
  proof -
    obtain q where q: "n = I * q" using nz(2) by auto
    then obtain q' where "q = Suc q'" using nz(1) by (cases q) auto
    then have "n - 1 = (I - 1) + I * q'" using q assms by (simp add: algebra_simps)
    moreover have "(I - 1 + I * q') div I = q'" "(I - 1 + I * q') mod I = I - 1"
      using div_mult_self2 [of I "I - 1" q'] mod_mult_self2 [of "I - 1" I q'] assms by simp_all
    ultimately have "(n - 1) div I = q'" "(n - 1) mod I = I - 1" by (simp_all only:)
    moreover have "n div I = Suc q'" using q \<open>q = Suc q'\<close> assms by simp
    ultimately show ?thesis by simp
  qed
  have e: "(n - 1) div I = n div I \<and> (n - 1) mod I + 1 = n mod I" if "n mod I \<noteq> 0"
  proof -
    have "n = n mod I + I * (n div I)" by simp
    then have n1: "n - 1 = (n mod I - 1) + I * (n div I)" using that by linarith
    have "n mod I - 1 < I" using assms by (meson less_imp_diff_less mod_less_divisor)
    then have "(n - 1) div I = n div I" "(n - 1) mod I = n mod I - 1"
      unfolding n1 using div_mult_self2 [of I "n mod I - 1" "n div I"] mod_mult_self2 [of "n mod I - 1" I "n div I"] assms
      by (simp_all only: div_less mod_less add_0_right)
    then show ?thesis using that by simp
  qed
  show "restart_count I (Suc n) = (if n \<noteq> 0 \<and> n mod I = 0 then restart_count I n + 1 else restart_count I n)"
    using d e by (cases "n = 0"; cases "n mod I = 0") (auto simp: restart_count_def)
  show "n \<noteq> 0 \<Longrightarrow> n mod I = 0 \<Longrightarrow> restart_count I n * I = n" using d by (auto simp: restart_count_def)
  show "n mod I \<noteq> 0 \<Longrightarrow> (n - 1) mod I + 1 = n mod I" using e by blast
  show "(n - 1) mod I + 1 < I \<longleftrightarrow> n mod I \<noteq> 0 \<or> n = 0 \<and> 1 < I"
  proof (cases "n mod I = 0")
    case True
    then show ?thesis using d assms by (cases "n = 0") auto
  next
    case False
    then show ?thesis using e [OF False] assms by simp
  qed
qed

lemma built_state:
  assumes I: "0 < I"
  shows "bb_block_restart_interval (built I es) = I" "bb_buffer (built I es) = concat (block_entries I es)"
    "bb_restarts (built I es) = map (\<lambda>j. word_of_nat (entry_off I es (j * I))) [0..<restart_count I (length es)]"
    "bb_counter (built I es) = (if es = [] then 0 else (length es - 1) mod I + 1)"
    "bb_last_key (built I es) = (if es = [] then [] else fst (last es))"
proof (induction es rule: rev_induct)
  case Nil
  {
    case 1 show ?case by (simp add: built_def BlockBuilder_new_def)
  next
    case 2 show ?case by (simp add: built_def BlockBuilder_new_def block_entries_def)
  next
    case 3 show ?case by (simp add: built_def BlockBuilder_new_def restart_count_def entry_off_def block_entries_def)
  next
    case 4 show ?case by (simp add: built_def BlockBuilder_new_def)
  next
    case 5 show ?case by (simp add: built_def BlockBuilder_new_def)
  }
next
  case (snoc e es)
  let ?b = "built I es"
  let ?n = "length es"
  obtain k v where e: "e = (k, v)" by (cases e)
  have step: "built I (es @ [e]) = BlockBuilder_Add k v ?b" by (simp add: built_def e)
  have restart: "\<not> bb_counter ?b < I \<longleftrightarrow> ?n \<noteq> 0 \<and> ?n mod I = 0"
    using snoc.IH(4) restart_count_snoc(3) [OF I, of ?n] I by auto
  let ?sh = "if \<not> bb_counter ?b < I then 0 else shared_loop (bb_last_key ?b) k"
  have sh: "?sh = entry_shared I (es @ [e]) ?n"
  proof (cases "?n = 0")
    case True
    then show ?thesis using snoc.IH(5) by (cases "\<not> bb_counter ?b < I") (auto simp: entry_shared_def)
  next
    case False
    then have "last es = es ! (?n - 1)" by (simp add: last_conv_nth)
    then show ?thesis using False restart snoc.IH(5) e by (auto simp: entry_shared_def nth_append)
  qed
  have shk: "take (shared_loop (bb_last_key ?b) k) (bb_last_key ?b) @ drop (shared_loop (bb_last_key ?b) k) k = k"
    using shared_loop_take(1) [of "bb_last_key ?b" k] by simp
  have buf: "bb_buffer (built I (es @ [e])) = concat (block_entries I (es @ [e]))"
    unfolding step block_entries_snoc sh [symmetric] using snoc.IH(1,2) e
    by (simp add: BlockBuilder_Add_def Let_def Put_append entry_bytes_def)
  have len: "length (bb_buffer ?b) = entry_off I es ?n" using snoc.IH(2) by (simp add: entry_off_def)
  {
    case 1
    show ?case using snoc.IH(1) by (simp add: step BlockBuilder_Add_def Let_def)
  next
    case 2
    show ?case by (rule buf)
  next
    case 3
    have old: "map (\<lambda>j. word_of_nat (entry_off I (es @ [e]) (j * I)) :: u32) [0..<restart_count I ?n] =
        map (\<lambda>j. word_of_nat (entry_off I es (j * I))) [0..<restart_count I ?n]"
    proof (rule map_cong [OF refl])
      fix j assume "j \<in> set [0..<restart_count I ?n]"
      then have "j * I \<le> ?n"
        by (auto simp: restart_count_def split: if_splits) (metis Suc_leI div_le_mono less_Suc_eq_le mult.commute order_trans times_div_less_eq_dividend diff_le_self less_eq_div_iff_mult_less_eq I)
      then show "word_of_nat (entry_off I (es @ [e]) (j * I)) = (word_of_nat (entry_off I es (j * I)) :: u32)"
        by (simp add: entry_off_snoc)
    qed
    show ?case
    proof (cases "?n \<noteq> 0 \<and> ?n mod I = 0")
      case True
      then have c: "restart_count I (Suc ?n) = Suc (restart_count I ?n)" "restart_count I ?n * I = ?n"
        using restart_count_snoc [OF I, of ?n] by simp_all
      have "bb_restarts (built I (es @ [e])) = bb_restarts ?b @ [word_of_nat (length (bb_buffer ?b))]"
        using True restart snoc.IH(1) by (simp add: step BlockBuilder_Add_def Let_def)
      then show ?thesis using c old len snoc.IH(3) by (simp add: entry_off_snoc)
    next
      case False
      then have "restart_count I (Suc ?n) = restart_count I ?n" using restart_count_snoc(1) [OF I, of ?n] by simp
      moreover have "bb_restarts (built I (es @ [e])) = bb_restarts ?b"
        using False restart snoc.IH(1) by (simp add: step BlockBuilder_Add_def Let_def)
      ultimately show ?thesis using old snoc.IH(3) by simp
    qed
  next
    case 4
    show ?case
    proof (cases "?n = 0 \<or> ?n mod I = 0")
      case True
      then have "bb_counter ?b = 0 \<or> \<not> bb_counter ?b < I" "?n mod I = 0" using restart snoc.IH(4) by auto
      then show ?thesis using snoc.IH(1) by (auto simp: step BlockBuilder_Add_def Let_def)
    next
      case False
      then show ?thesis using restart snoc.IH(1,4) restart_count_snoc(4) [OF I, of ?n]
        by (auto simp: step BlockBuilder_Add_def Let_def)
    qed
  next
    case 5
    show ?case unfolding step using shk e snoc.IH(1) by (simp add: BlockBuilder_Add_def Let_def)
  }
qed
subsection \<open>The bytes of a finished block\<close>

definition built_bytes :: "nat \<Rightarrow> (bytes \<times> bytes) list \<Rightarrow> bytes" where
  "built_bytes I es = fst (BlockBuilder_Finish (built I es))"

lemma foldl_PutFixed32: "foldl PutFixed32 b ws = b @ concat (map EncodeFixed32 ws)"
  by (induction ws arbitrary: b) (simp_all add: PutFixed32_def)

lemma built_bytes_eq:
  assumes "0 < I"
  shows "built_bytes I es = concat (block_entries I es) @
    concat (map (\<lambda>j. EncodeFixed32 (word_of_nat (entry_off I es (j * I)))) [0..<restart_count I (length es)]) @
    EncodeFixed32 (word_of_nat (restart_count I (length es)))"
  by (simp add: built_bytes_def BlockBuilder_Finish_def Let_def foldl_PutFixed32 PutFixed32_def built_state [OF assms] comp_def)

lemma drop_restart_array:
  assumes "j < length ws"
  shows "DecodeFixed32 (drop (4 * j) (concat (map EncodeFixed32 ws) @ rest)) = ws ! j"
  using assms
proof (induction ws arbitrary: j)
  case (Cons w ws)
  show ?case
  proof (cases j)
    case 0
    then show ?thesis by (simp add: codec_simps)
  next
    case (Suc j')
    then show ?thesis using Cons by simp
  qed
qed simp

lemma length_restart_array: "length (concat (map (\<lambda>j. EncodeFixed32 (f j)) xs)) = 4 * length xs"
  by (induction xs) simp_all

lemma GetVarint32Ptr_small:
  assumes "(ucast b :: u32) < 128"
  shows "GetVarint32Ptr (b # rest) = Some (ucast b, rest)"
proof -
  have "unat (ucast b :: u32) = unat b" by (simp add: unsigned_ucast_eq take_bit_nat_eq_self unat_u8_less [THEN less_le_trans])
  then have "unat (ucast (ucast b :: u32) :: u64) < 128" using assms by (simp add: word_less_nat_alt)
  then have lt: "(ucast (ucast b :: u32) :: u64) < 128" by (simp only: word_less_nat_alt) simp
  have "EncodeVarint32 (ucast b) = [ucast (ucast (ucast b :: u32) :: u64)]"
    unfolding EncodeVarint32_eq_EncodeVarint64_aux by (rule EncodeVarint64_small [OF lt])
  also have "(ucast (ucast (ucast b :: u32) :: u64) :: byte) = b" by (rule bit_word_eqI) (auto simp: bit_simps)
  finally show ?thesis using GetVarint32Ptr_enc [of "ucast b" rest] by simp
qed

text \<open>The fast path of \<open>DecodeEntry\<close> for three one-byte numbers gives what the general path gives.\<close>

lemma or_less_128:
  assumes "(a OR b :: u32) < 128"
  shows "a < 128" "b < 128"
proof -
  have "a \<le> a OR b" "b \<le> a OR b" by (rule le_word_or2, rule le_word_or1)
  then show "a < 128" "b < 128" using assms by (simp_all only: order.strict_trans1)
qed

definition decode_header :: "bytes \<Rightarrow> (u32 \<times> u32 \<times> u32 \<times> bytes) option" where
  "decode_header seg = do {
     (shared, r) \<leftarrow> GetVarint32Ptr seg;
     (non_shared, r) \<leftarrow> GetVarint32Ptr r;
     (value_length, r) \<leftarrow> GetVarint32Ptr r;
     Some (shared, non_shared, value_length, r)
   }"

lemma decode_header_fast:
  assumes "3 \<le> length seg" "((ucast (seg ! 0) :: u32) OR ucast (seg ! 1) OR ucast (seg ! 2)) < 128"
  shows "decode_header seg = Some (ucast (seg ! 0), ucast (seg ! 1), ucast (seg ! 2), drop 3 seg)"
proof -
  obtain x y z r where seg: "seg = x # y # z # r"
    using assms(1) by (metis Suc_le_length_iff numeral_3_eq_3)
  have "(ucast x :: u32) < 128" "(ucast y :: u32) < 128" "(ucast z :: u32) < 128"
  proof -
    have "((ucast x :: u32) OR ucast y OR ucast z) < 128" using assms(2) by (simp add: seg)
    then show "(ucast x :: u32) < 128" "(ucast y :: u32) < 128" "(ucast z :: u32) < 128"
      by (blast dest: or_less_128)+
  qed
  then show ?thesis by (simp add: seg decode_header_def GetVarint32Ptr_small numeral_2_eq_2 numeral_3_eq_3)
qed

lemma DecodeEntry_header:
  assumes "p + 3 \<le> limit" "limit \<le> length data"
  shows "DecodeEntry data p limit = do {
     (shared, non_shared, value_length, rest) \<leftarrow> decode_header (take (limit - p) (drop p data));
     if word_of_nat (length rest) < non_shared + value_length then None
     else Some (shared, non_shared, value_length, limit - length rest)
   }"
proof -
  let ?seg = "take (limit - p) (drop p data)"
  have l: "3 \<le> length ?seg" using assms by simp
  have nl: "\<not> limit < p + 3" using assms by simp
  have "DecodeEntry data p limit = do {
     (shared, non_shared, value_length, rest) \<leftarrow>
       (if ((ucast (?seg ! 0) :: u32) OR ucast (?seg ! 1) OR ucast (?seg ! 2)) < 128
        then Some (ucast (?seg ! 0), ucast (?seg ! 1), ucast (?seg ! 2), drop 3 ?seg) else decode_header ?seg);
     if word_of_nat (length rest) < non_shared + value_length then None
     else Some (shared, non_shared, value_length, limit - length rest)
   }"
    unfolding DecodeEntry_def decode_header_def Let_def by (simp only: nl if_False)
  moreover have "(if ((ucast (?seg ! 0) :: u32) OR ucast (?seg ! 1) OR ucast (?seg ! 2)) < 128
        then Some (ucast (?seg ! 0), ucast (?seg ! 1), ucast (?seg ! 2), drop 3 ?seg) else decode_header ?seg) = decode_header ?seg"
    using decode_header_fast [OF l] by presburger
  ultimately show ?thesis by (simp only:)
qed

lemma decode_header_entry:
  "decode_header (entry_bytes sh k v @ tail) =
   Some (word_of_nat sh, word_of_nat (length k - sh), word_of_nat (length v), drop sh k @ v @ tail)"
  by (simp add: decode_header_def entry_bytes_def codec_simps)

lemma entry_bytes_length: "3 \<le> length (entry_bytes sh k v)"
proof -
  have "1 \<le> length (EncodeVarint32 w)" for w
    unfolding EncodeVarint32_eq_EncodeVarint64_aux by (simp add: Suc_le_eq)
  from this [of "word_of_nat sh"] this [of "word_of_nat (length k - sh)"] this [of "word_of_nat (length v)"]
  show ?thesis unfolding entry_bytes_def length_append by linarith
qed

lemma DecodeEntry_entry:
  assumes d: "drop p data = entry_bytes sh k v @ tail" and limit: "limit = p + length (entry_bytes sh k v) + r" "r \<le> length tail"
    "limit < 2 ^ 32" "p \<le> length data" and sh: "sh \<le> length k"
  shows "DecodeEntry data p limit =
    Some (word_of_nat sh, word_of_nat (length k - sh), word_of_nat (length v),
          p + length (entry_bytes sh k v) - (length k - sh) - length v)"
proof -
  let ?rest = "drop sh k @ v @ take r tail"
  have "length data = p + length (entry_bytes sh k v) + length tail"
    using arg_cong [OF d, of length] limit(4) by simp
  then have l: "p + 3 \<le> limit" "limit \<le> length data" using entry_bytes_length [of sh k v] limit by linarith+
  have seg: "take (limit - p) (drop p data) = entry_bytes sh k v @ take r tail" using d limit(1) by simp
  have lr: "length ?rest = (length k - sh) + length v + r" using limit(2) by simp
  have eb: "(length k - sh) + length v \<le> length (entry_bytes sh k v)" by (simp add: entry_bytes_def)
  have "\<not> (word_of_nat (length ?rest) :: u32) < word_of_nat (length k - sh) + word_of_nat (length v)"
  proof -
    have "(word_of_nat (length k - sh) + word_of_nat (length v) :: u32) = word_of_nat ((length k - sh) + length v)" by simp
    moreover have b: "(length k - sh) + length v < 2 ^ 32" "length ?rest < 2 ^ 32" using eb limit lr by linarith+
    moreover have "take_bit 32 ((length k - sh) + length v) = (length k - sh) + length v" "take_bit 32 (length ?rest) = length ?rest"
      using b by (simp_all only: take_bit_nat_eq_self)
    ultimately show ?thesis using lr by (simp only: word_less_nat_alt unsigned_of_nat len_of_numeral_defs) simp
  qed
  then have "DecodeEntry data p limit =
    Some (word_of_nat sh, word_of_nat (length k - sh), word_of_nat (length v), limit - length ?rest)"
    unfolding DecodeEntry_header [OF l] seg decode_header_entry by (simp only: bind.bind_lunit prod.case if_False)
  moreover have "limit - length ?rest = p + length (entry_bytes sh k v) - (length k - sh) - length v"
    using lr eb limit(1) by linarith
  ultimately show ?thesis by (simp only:)
qed


lemma block_entries_nth: "i < length es \<Longrightarrow> block_entries I es ! i = entry_bytes (entry_shared I es i) (fst (es ! i)) (snd (es ! i))"
  by (simp add: block_entries_def)

lemma entry_off_Suc:
  "i < length es \<Longrightarrow> entry_off I es (Suc i) = entry_off I es i + length (entry_bytes (entry_shared I es i) (fst (es ! i)) (snd (es ! i)))"
  by (simp add: entry_off_def take_Suc_conv_app_nth block_entries_nth)

lemma entry_off_0 [simp]: "entry_off I es 0 = 0"
  by (simp add: entry_off_def)

lemma entry_off_all: "entry_off I es (length es) = length (concat (block_entries I es))"
  by (simp add: entry_off_def)

lemma drop_entry_off:
  assumes "i < length es"
  shows "drop (entry_off I es i) (concat (block_entries I es) @ tail) =
    entry_bytes (entry_shared I es i) (fst (es ! i)) (snd (es ! i)) @ concat (drop (Suc i) (block_entries I es)) @ tail"
proof -
  have "block_entries I es = take i (block_entries I es) @ block_entries I es ! i # drop (Suc i) (block_entries I es)"
    using assms by (simp add: id_take_nth_drop)
  then have "concat (block_entries I es) = concat (take i (block_entries I es)) @ block_entries I es ! i @ concat (drop (Suc i) (block_entries I es))"
    by (metis concat.simps(2) concat_append)
  then show ?thesis using assms by (simp add: entry_off_def block_entries_nth)
qed

lemma entry_shared_le:
  assumes "i < length es"
  shows "entry_shared I es i \<le> length (fst (es ! i))" "0 < i \<Longrightarrow> entry_shared I es i \<le> length (fst (es ! (i - 1)))"
    "0 < i \<Longrightarrow> take (entry_shared I es i) (fst (es ! (i - 1))) = take (entry_shared I es i) (fst (es ! i))"
  using shared_loop_take by (auto simp: entry_shared_def)

lemma entry_off_mono: "i \<le> j \<Longrightarrow> j \<le> length es \<Longrightarrow> entry_off I es i + (j - i) \<le> entry_off I es j"
proof (induction j)
  case (Suc j)
  then show ?case using entry_off_Suc [of j es I] entry_bytes_length [of "entry_shared I es j" "fst (es ! j)" "snd (es ! j)"]
    by (cases "i = Suc j") (auto simp: Suc_diff_le)
qed simp

lemma key_length_off: "i < length es \<Longrightarrow> length (fst (es ! i)) \<le> entry_off I es (Suc i)"
proof (induction i)
  case 0
  then show ?case by (simp add: entry_off_Suc entry_shared_def entry_bytes_def)
next
  case (Suc i)
  have "length (fst (es ! Suc i)) - entry_shared I es (Suc i) \<le> length (entry_bytes (entry_shared I es (Suc i)) (fst (es ! Suc i)) (snd (es ! Suc i)))"
    by (simp add: entry_bytes_def)
  moreover have "entry_shared I es (Suc i) \<le> length (fst (es ! i))" using entry_shared_le(2) [OF Suc.prems, of I] by simp
  ultimately show ?case using Suc.IH Suc.prems entry_off_Suc [OF Suc.prems, of I] by simp
qed

text \<open>The contract of a finished block: a builder with a positive restart interval whose entries take less than 4 GiB.\<close>

locale built_block =
  fixes I :: nat and es :: "(bytes \<times> bytes) list"
  assumes interval: "0 < I" and size: "length (bb_buffer (built I es)) < 2 ^ 32"
begin

abbreviation "es_key i \<equiv> fst (es ! i)"
abbreviation "es_val i \<equiv> snd (es ! i)"
abbreviation "es_ptr i \<equiv> entry_off I es (Suc i) - (length (es_key i) - entry_shared I es i) - length (es_val i)"
abbreviation "es_restarts \<equiv> restart_count I (length es)"

lemma entries_size: "entry_off I es (length es) < 2 ^ 32"
  using size by (simp add: built_state [OF interval] entry_off_all)

lemma restarts_bound: "es_restarts < 2 ^ 32" "0 < es_restarts" "j < es_restarts \<Longrightarrow> j * I \<le> length es"
  "0 < length es \<Longrightarrow> j < es_restarts \<Longrightarrow> j * I < length es"
proof -
  have "(length es - 1) div I + 1 \<le> length es" if "es \<noteq> []"
    using div_le_dividend [of "length es - 1" I] that by (cases es) (simp_all add: less_Suc_eq_le)
  then have "es_restarts \<le> max 1 (length es)" by (simp add: restart_count_def le_max_iff_disj)
  moreover have "length es < 2 ^ 32" using entry_off_mono [of 0 "length es" es I] entries_size by simp
  ultimately show "es_restarts < 2 ^ 32" by (simp add: max_def split: if_splits)
  show "0 < es_restarts" by (simp add: restart_count_def)
  show lt: "0 < length es \<Longrightarrow> j < es_restarts \<Longrightarrow> j * I < length es"
  proof -
    assume a: "0 < length es" "j < es_restarts"
    then have "j \<le> (length es - 1) div I" by (simp add: restart_count_def)
    then have "j * I \<le> length es - 1" using interval by (simp add: less_eq_div_iff_mult_less_eq)
    then show ?thesis using a by linarith
  qed
  show "j < es_restarts \<Longrightarrow> j * I \<le> length es" using lt by (cases "es = []") (auto simp: restart_count_def)
qed

lemma tail_bytes: "\<exists>tail. built_bytes I es = concat (block_entries I es) @ tail \<and> length tail = 4 * es_restarts + 4"
  unfolding built_bytes_eq [OF interval] by (intro exI conjI, rule refl) (simp add: length_restart_array)

lemma entry_at:
  assumes "i < length es"
  obtains tail where "drop (entry_off I es i) (built_bytes I es) = entry_bytes (entry_shared I es i) (es_key i) (es_val i) @ tail"
    "entry_off I es (length es) = entry_off I es (Suc i) + (length tail - (4 * es_restarts + 4))" "4 * es_restarts + 4 \<le> length tail"
proof -
  obtain t where t: "built_bytes I es = concat (block_entries I es) @ t" "length t = 4 * es_restarts + 4" using tail_bytes by blast
  have "entry_off I es (length es) = entry_off I es (Suc i) + length (concat (drop (Suc i) (block_entries I es)))"
    unfolding entry_off_all entry_off_def length_append [symmetric] concat_append [symmetric] append_take_drop_id by simp
  then show ?thesis using that [OF drop_entry_off [OF assms, of I t, folded t(1)]] t(2) by simp
qed

end


sublocale built_block \<subseteq> block_format "built_bytes I es" "entry_off I es (length es)" "restart_count I (length es)" "length es"
  "\<lambda>i. fst (es ! i)" "\<lambda>i. snd (es ! i)" "entry_off I es" "\<lambda>j. j * I" "entry_shared I es"
  "\<lambda>i. entry_off I es (Suc i) - (length (fst (es ! i)) - entry_shared I es i) - length (snd (es ! i))"
proof
  note e = entry_off_Suc
  have eb: "(length (es_key i) - entry_shared I es i) + length (es_val i) \<le> length (entry_bytes (entry_shared I es i) (es_key i) (es_val i))" for i
    by (simp add: entry_bytes_def)
  have drops: "drop (es_ptr i) (built_bytes I es) = drop (entry_shared I es i) (es_key i) @ es_val i @ tail"
    if d: "drop (entry_off I es i) (built_bytes I es) = entry_bytes (entry_shared I es i) (es_key i) (es_val i) @ tail" and i: "i < length es" for i tail
  proof -
    let ?h = "EncodeVarint32 (word_of_nat (entry_shared I es i)) @ EncodeVarint32 (word_of_nat (length (es_key i) - entry_shared I es i)) @
     EncodeVarint32 (word_of_nat (length (es_val i)))"
    have "es_ptr i = length ?h + entry_off I es i" using e [OF i, of I] by (simp add: entry_bytes_def)
    then have "drop (es_ptr i) (built_bytes I es) = drop (length ?h) (entry_bytes (entry_shared I es i) (es_key i) (es_val i) @ tail)"
      unfolding d [symmetric] drop_drop by (simp only:)
    then show ?thesis by (simp add: entry_bytes_def)
  qed
  show "entry_off I es (length es) < 2 ^ 32" by (rule entries_size)
  show "length (built_bytes I es) = entry_off I es (length es) + 4 * es_restarts + 4"
    using tail_bytes by (auto simp: entry_off_all)
  show "0 < es_restarts" by (rule restarts_bound)
  show "0 * I = 0" by simp
  fix i j
  show "entry_off I es i < entry_off I es (Suc i)" if "i < length es" using e [OF that, of I] entry_bytes_length [of "entry_shared I es i" "es_key i" "es_val i"] by linarith
  show "j * I \<le> length es" if "j < es_restarts" using restarts_bound(3) that .
  show "j * I < length es" if "0 < length es" "j < es_restarts" using restarts_bound(4) that .
  show "j * I < Suc j * I" using interval by simp
  show "DecodeFixed32 (drop (entry_off I es (length es) + j * 4) (built_bytes I es)) = word_of_nat (entry_off I es (j * I))" if "j < es_restarts"
    using drop_restart_array [of j "map (\<lambda>j. word_of_nat (entry_off I es (j * I))) [0..<es_restarts]" "EncodeFixed32 (word_of_nat es_restarts)"] that
    by (simp add: built_bytes_eq [OF interval] entry_off_all comp_def mult.commute)
  show "DecodeEntry (built_bytes I es) (entry_off I es i) (entry_off I es (length es)) =
        Some (word_of_nat (entry_shared I es i), word_of_nat (length (es_key i) - entry_shared I es i), word_of_nat (length (es_val i)), es_ptr i)"
    if i: "i < length es"
  proof -
    obtain tail where t: "drop (entry_off I es i) (built_bytes I es) = entry_bytes (entry_shared I es i) (es_key i) (es_val i) @ tail"
      "entry_off I es (length es) = entry_off I es (Suc i) + (length tail - (4 * es_restarts + 4))" "4 * es_restarts + 4 \<le> length tail"
      by (rule entry_at [OF i])
    have "entry_off I es i \<le> length (built_bytes I es)" using t(1) entry_bytes_length [of "entry_shared I es i" "es_key i" "es_val i"]
      by (cases "entry_off I es i \<le> length (built_bytes I es)") auto
    then show ?thesis unfolding e [OF i]
      by (intro DecodeEntry_entry [OF t(1) _ _ entries_size _ entry_shared_le(1) [OF i], of "length tail - (4 * es_restarts + 4)"])
        (use t(2) e [OF i, of I] in simp_all)
  qed
  show "es_ptr i + (length (es_key i) - entry_shared I es i) + length (es_val i) = entry_off I es (Suc i)" if "i < length es"
    using e [OF that, of I] eb [of i] by linarith
  show "take (length (es_key i) - entry_shared I es i) (drop (es_ptr i) (built_bytes I es)) = drop (entry_shared I es i) (es_key i)" if i: "i < length es"
  proof -
    obtain tail where "drop (entry_off I es i) (built_bytes I es) = entry_bytes (entry_shared I es i) (es_key i) (es_val i) @ tail"
      by (rule entry_at [OF i])
    from drops [OF this i] show ?thesis by simp
  qed
  show "take (length (es_val i)) (drop (es_ptr i + (length (es_key i) - entry_shared I es i)) (built_bytes I es)) = es_val i" if i: "i < length es"
  proof -
    obtain tail where "drop (entry_off I es i) (built_bytes I es) = entry_bytes (entry_shared I es i) (es_key i) (es_val i) @ tail"
      by (rule entry_at [OF i])
    from drops [OF this i] have "drop (length (es_key i) - entry_shared I es i) (drop (es_ptr i) (built_bytes I es)) = es_val i @ tail" by simp
    then show ?thesis by (simp add: add.commute)
  qed
  show "entry_shared I es i \<le> length (es_key i)" if "i < length es" using entry_shared_le(1) [OF that] .
  show "length (es_key i) < 2 ^ 32" if "i < length es"
    using key_length_off [OF that, of I] entry_off_mono [of "Suc i" "length es" es I] entries_size that by simp
  show "entry_shared I es (j * I) = 0" by (simp add: entry_shared_def)
  show "take (entry_shared I es i) (es_key (i - 1)) = take (entry_shared I es i) (es_key i)" if "i < length es" "0 < i"
    using entry_shared_le(3) [OF that] .
qed simp


section \<open>Reading a block\<close>

text \<open>The entries an iterator shows from where it stands until it is no longer valid, \<open>None\<close> if it
  does not get there in the given number of steps or stops with an error.\<close>

fun scan :: "(block_iter \<Rightarrow> block_iter option) \<Rightarrow> nat \<Rightarrow> block_iter \<Rightarrow> (bytes \<times> bytes) list option" where
  "scan step 0 it = None"
| "scan step (Suc fuel) it =
     (if BlockIter_Valid it
      then do {
        v \<leftarrow> BlockIter_value it;
        it' \<leftarrow> step it;
        es \<leftarrow> scan step fuel it';
        Some ((BlockIter_key it, v) # es)
      }
      else if BlockIter_status it = Status_OK then Some [] else None)"

context block_format
begin

lemma scan_ended: "ended c it \<Longrightarrow> scan step (Suc f) it = Some []"
  using ended_entry [of c it] by simp

lemma scan_Next: "at c i it \<Longrightarrow> n \<le> i + f \<Longrightarrow> scan BlockIter_Next (Suc f) it = Some (map (\<lambda>i. (key i, val i)) [i..<n])"
proof (induction f arbitrary: i it)
  case 0
  then show ?case by (simp add: at_def)
next
  case (Suc f)
  have i: "i < n" using Suc.prems by (simp add: at_def)
  obtain it' where it': "BlockIter_Next it = Some it'" "if Suc i < n then at c (Suc i) it' else ended c it'"
    using iter_Next [OF Suc.prems(1)] by blast
  have "scan BlockIter_Next (Suc f) it' = Some (map (\<lambda>i. (key i, val i)) [Suc i..<n])"
    using it'(2) Suc.IH [of "Suc i" it'] Suc.prems(2) scan_ended [of c it'] by (cases "Suc i < n") simp_all
  then show ?case using at_entry [OF Suc.prems(1)] it'(1) i by (simp add: upt_conv_Cons del: scan.simps(2) add: scan.simps(2) [of BlockIter_Next "Suc f" it])
qed

lemma scan_Prev: "at c i it \<Longrightarrow> i < f \<Longrightarrow> scan BlockIter_Prev (Suc f) it = Some (rev (map (\<lambda>i. (key i, val i)) [0..<Suc i]))"
proof (induction f arbitrary: i it)
  case (Suc f)
  obtain it' where it': "BlockIter_Prev it = Some it'" "if 0 < i then at c (i - 1) it' else ended c it'"
    using iter_Prev [OF Suc.prems(1)] by blast
  have "scan BlockIter_Prev (Suc f) it' = Some (rev (map (\<lambda>i. (key i, val i)) [0..<i]))"
    using it'(2) Suc.IH [of "i - 1" it'] Suc.prems(2) scan_ended [of c it'] by (cases i) simp_all
  then show ?case using at_entry [OF Suc.prems(1)] it'(1) by (simp del: scan.simps(2) add: scan.simps(2) [of BlockIter_Prev "Suc f" it])
qed simp

lemma scan_forward:
  assumes "on_block c it"
  shows "BlockIter_SeekToFirst it \<bind> scan BlockIter_Next (Suc n) = Some (map (\<lambda>i. (key i, val i)) [0..<n])"
  using iter_SeekToFirst [OF assms] scan_Next [of c 0 _ n] scan_ended by (cases "0 < n") (auto simp del: scan.simps)

lemma scan_backward:
  assumes "on_block c it"
  shows "BlockIter_SeekToLast it \<bind> scan BlockIter_Prev (Suc n) = Some (rev (map (\<lambda>i. (key i, val i)) [0..<n]))"
  using iter_SeekToLast [OF assms] scan_Prev [of c "n - 1" _ n] scan_ended by (cases "0 < n") (auto simp del: scan.simps)

lemma scan_Seek:
  assumes o: "on_block c it" and k: "key_order (Compare c) valid"
    and v: "\<And>i. i < n \<Longrightarrow> valid (key i)" "valid target"
    and sorted: "\<And>i j. i < j \<Longrightarrow> j < n \<Longrightarrow> Compare c (key i) (key j) < 0"
  shows "BlockIter_Seek target it \<bind> scan BlockIter_Next (Suc n) =
    Some (dropWhile (\<lambda>(k, _). Compare c k target < 0) (map (\<lambda>i. (key i, val i)) [0..<n]))"
proof -
  let ?F = "filter (\<lambda>k. Compare c (key k) target \<ge> 0) [0..<n]"
  obtain it' where it': "BlockIter_Seek target it = Some it'" "case ?F of [] \<Rightarrow> ended c it' | k # _ \<Rightarrow> at c k it'"
    using iter_Seek [OF assms] by blast
  have dw: "dropWhile (\<lambda>(k, _). Compare c k target < 0) (map (\<lambda>i. (key i, val i)) xs) =
      (case filter (\<lambda>k. Compare c (key k) target \<ge> 0) xs of [] \<Rightarrow> [] | k # _ \<Rightarrow> map (\<lambda>i. (key i, val i)) (dropWhile (\<lambda>i. i \<noteq> k) xs))" for xs
    by (induction xs) (auto split: list.splits dest: filter_eq_ConsD)
  show ?thesis
  proof (cases ?F)
    case Nil
    then have "ended c it'" using it'(2) by simp
    then show ?thesis unfolding dw Nil it'(1) by (simp add: scan_ended del: scan.simps)
  next
    case (Cons k ks)
    then have at: "at c k it'" using it'(2) by simp
    then have "k < n" by (simp add: at_def)
    then have "[0..<n] = [0..<k] @ k # [Suc k..<n]" using upt_add_eq_append [of 0 k "n - k"] by (simp add: upt_conv_Cons)
    then have "dropWhile (\<lambda>i. i \<noteq> k) [0..<n] = [k..<n]" 
      using \<open>k < n\<close> dropWhile_append2 [of "[0..<k]" "\<lambda>i. i \<noteq> k" "k # [Suc k..<n]"] by (simp add: upt_conv_Cons [of k n] del: dropWhile_append2)
    then show ?thesis using it'(1) scan_Next [OF at, of n] dw [of "[0..<n]"] Cons by (simp del: scan.simps)
  qed
qed

end

context built_block
begin

lemma built_bytes_length: "length (built_bytes I es) = entry_off I es (length es) + 4 * es_restarts + 4"
  using R(3) .

lemma built_NumRestarts:
  "NumRestarts \<lparr>blk_data = built_bytes I es, blk_size = length (built_bytes I es), blk_restart_offset = r\<rparr> = es_restarts"
proof -
  have "drop (length (built_bytes I es) - 4) (built_bytes I es) = EncodeFixed32 (word_of_nat es_restarts)"
    using built_bytes_length by (simp add: built_bytes_eq [OF interval] entry_off_all length_restart_array)
  then show ?thesis using restarts_bound(1) DecodeFixed32_enc [of "word_of_nat es_restarts" "[]"]
    by (simp add: NumRestarts_def unsigned_of_nat take_bit_nat_eq_self)
qed

lemma built_iterator:
  "\<exists>it. Block_NewIterator c (Block_new (built_bytes I es)) = BlockIterator it \<and> on_block c it"
proof -
  have "Block_new (built_bytes I es) = \<lparr>blk_data = built_bytes I es, blk_size = length (built_bytes I es), blk_restart_offset = entry_off I es (length es)\<rparr>"
    using built_NumRestarts built_bytes_length entries_size by (simp add: Block_new_def Let_def)
  then show ?thesis using built_NumRestarts built_bytes_length restarts_bound(2)
    by (simp add: Block_NewIterator_def Let_def on_block_def BlockIter_new_def)
qed

lemma map_entries: "map (\<lambda>i. (fst (es ! i), snd (es ! i))) [0..<length es] = es"
  by (simp add: map_nth)

lemma built_scans:
  "\<exists>it. Block_NewIterator c (Block_new (built_bytes I es)) = BlockIterator it \<and>
    BlockIter_SeekToFirst it \<bind> scan BlockIter_Next (Suc (length es)) = Some es \<and>
    BlockIter_SeekToLast it \<bind> scan BlockIter_Prev (Suc (length es)) = Some (rev es)"
  using built_iterator [of c] scan_forward scan_backward unfolding map_entries by blast

lemma built_Seek:
  assumes "key_order (Compare c) valid" "\<forall>(k, v) \<in> set es. valid k" "valid target"
    and "sorted_wrt (\<lambda>(k, _) (k', _). Compare c k k' < 0) es"
  shows "\<exists>it. Block_NewIterator c (Block_new (built_bytes I es)) = BlockIterator it \<and>
    BlockIter_Seek target it \<bind> scan BlockIter_Next (Suc (length es)) =
      Some (dropWhile (\<lambda>(k, _). Compare c k target < 0) es)"
proof -
  obtain it where it: "Block_NewIterator c (Block_new (built_bytes I es)) = BlockIterator it" "on_block c it"
    using built_iterator by blast
  have v: "valid (fst (es ! i))" if "i < length es" for i using nth_mem [OF that] assms(2) by (auto simp: case_prod_beta)
  have s: "Compare c (fst (es ! i)) (fst (es ! j)) < 0" if "i < j" "j < length es" for i j
    using sorted_wrt_nth_less [OF assms(4) that] by (simp add: case_prod_beta)
  show ?thesis using it(1) scan_Seek [OF it(2) assms(1) v assms(3) s] unfolding map_entries by blast
qed

end


text \<open>C35: A finished block is read back exactly: whatever entries went into a builder with a positive restart
  interval, as long as they take less than 4 GiB, an iterator over the finished bytes shows them all,
  in order, from \<open>SeekToFirst\<close> by \<open>Next\<close>, and in the opposite order from \<open>SeekToLast\<close> by \<open>Prev\<close>, and
  ends without an error; prefix compression and restart points lose nothing.\<close>

theorem block_round_trip:
  assumes "0 < I" "length (bb_buffer (built I es)) < 2 ^ 32"
  shows "\<exists>it. Block_NewIterator c (Block_new (built_bytes I es)) = BlockIterator it \<and>
    BlockIter_SeekToFirst it \<bind> scan BlockIter_Next (Suc (length es)) = Some es \<and>
    BlockIter_SeekToLast it \<bind> scan BlockIter_Prev (Suc (length es)) = Some (rev es)"
  using built_block.built_scans [OF built_block.intro] assms by blast

text \<open>A block with prefix compression and two restart points.\<close>

definition sample_entries :: "(bytes \<times> bytes) list" where
  "sample_entries = [([1, 2], [9]), ([1, 2, 3], [8, 8]), ([1, 4], []), ([2], [7])]"

lemma sample_entries_size: "length (bb_buffer (built 2 sample_entries)) < 2 ^ 32"
proof -
  have "length (bb_buffer (built 2 sample_entries)) = 22" by code_simp
  then show ?thesis by simp
qed

interpretation sample: built_block 2 sample_entries
  using sample_entries_size by unfold_locales simp

lemma block_round_trip_witness:
  "(0::nat) < 2 \<and> length (bb_buffer (built 2 sample_entries)) < 2 ^ 32 \<and>
   (\<exists>it. Block_NewIterator BytewiseComparator (Block_new (built_bytes 2 sample_entries)) = BlockIterator it \<and>
    BlockIter_SeekToFirst it \<bind> scan BlockIter_Next (Suc (length sample_entries)) = Some sample_entries \<and>
    BlockIter_SeekToLast it \<bind> scan BlockIter_Prev (Suc (length sample_entries)) = Some (rev sample_entries))"
  using block_round_trip [OF _ sample_entries_size, of BytewiseComparator] sample_entries_size by simp

text \<open>C36: \<open>Seek\<close> in a finished block whose keys increase in the order of the comparator leaves the iterator on the first
  entry whose key is not below the target, or past the end when there is none: reading on from there
  gives exactly the entries that are not below the target.\<close>

theorem block_seek:
  assumes "0 < I" "length (bb_buffer (built I es)) < 2 ^ 32" "key_order (Compare c) valid"
    and "\<forall>(k, v) \<in> set es. valid k" "valid target" "sorted_wrt (\<lambda>(k, _) (k', _). Compare c k k' < 0) es"
  shows "\<exists>it. Block_NewIterator c (Block_new (built_bytes I es)) = BlockIterator it \<and>
    BlockIter_Seek target it \<bind> scan BlockIter_Next (Suc (length es)) =
      Some (dropWhile (\<lambda>(k, _). Compare c k target < 0) es)"
  using built_block.built_Seek [OF built_block.intro] assms by blast

lemma block_seek_witness:
  "sorted_wrt (\<lambda>(k, _) (k', _). Compare BytewiseComparator k k' < 0) sample_entries \<and>
   (\<exists>it. Block_NewIterator BytewiseComparator (Block_new (built_bytes 2 sample_entries)) = BlockIterator it \<and>
    BlockIter_Seek [1, 3] it \<bind> scan BlockIter_Next (Suc (length sample_entries)) =
      Some (dropWhile (\<lambda>(k, _). Compare BytewiseComparator k [1, 3] < 0) sample_entries))"
proof -
  have s: "sorted_wrt (\<lambda>(k, _) (k', _). Compare BytewiseComparator k k' < 0) sample_entries" by code_simp
  have k: "key_order (Compare BytewiseComparator) (\<lambda>_. True)"
    using bytewise.key_order_axioms by (simp add: BytewiseComparator_def)
  show ?thesis using block_seek [OF _ sample_entries_size k _ _ s] s by simp
qed


text \<open>C37: What \<open>DecodeEntry\<close> accepts: it always moves forward over the three lengths and, seen in 32 bits, what
  follows fits before the limit; but because the two lengths are added in 32 bits, the key delta and the
  value lie before the limit exactly when their sum does not wrap around.\<close>

theorem decode_entry_range:
  assumes "DecodeEntry data p limit = Some (s, non_shared, value_length, q)" "limit \<le> length data" "limit < 2 ^ 32"
  shows "p + 3 \<le> q \<and> q + unat (non_shared + value_length) \<le> limit \<and>
    (q + unat non_shared + unat value_length \<le> limit \<longleftrightarrow> unat non_shared + unat value_length < 2 ^ 32)"
proof -
  have l: "p + 3 \<le> limit" using assms(1) by (simp add: DecodeEntry_def split: if_splits)
  obtain rest where rest: "decode_header (take (limit - p) (drop p data)) = Some (s, non_shared, value_length, rest)"
    "\<not> word_of_nat (length rest) < non_shared + value_length" "q = limit - length rest"
    using assms(1) unfolding DecodeEntry_header [OF l assms(2)] by (auto split: bind_splits if_splits)
  have "length rest + 3 \<le> length (take (limit - p) (drop p data))"
    using rest(1) by (auto simp: decode_header_def split: bind_splits dest!: GetVarint32Ptr_shorter)
  then have lr: "length rest + 3 \<le> limit - p" by simp
  have "unat (non_shared + value_length) \<le> length rest" using rest(2) lr assms(3)
    by (simp add: not_less word_le_nat_alt unsigned_of_nat take_bit_nat_eq_self)
  moreover have "unat (non_shared + value_length) = unat non_shared + unat value_length \<longleftrightarrow> unat non_shared + unat value_length < 2 ^ 32"
    using unat_add_lem [of non_shared value_length] by simp
  ultimately show ?thesis using lr l rest(3) assms(3) by auto
qed

lemma decode_entry_range_witness:
  "DecodeEntry [0, 1, 255, 255, 255, 255, 15, 7] 0 8 = Some (0, 1, 2 ^ 32 - 1, 7) \<and> \<not> 7 + 1 + unat (2 ^ 32 - 1 :: u32) \<le> 8"
proof -
  have d: "DecodeEntry [0, 1, 255, 255, 255, 255, 15, 7] 0 8 = Some (0, 1, 2 ^ 32 - 1, 7)" by code_simp
  then show ?thesis using decode_entry_range [OF d] by simp
qed

end
