(* ===== verification/Ldb_Iterator.thy ===== *)
theory Ldb_Iterator
  imports Ldb_Block
begin

text \<open>
  Iterators: the interface (\<open>include/leveldb/iterator.h\<close>, \<open>table/iterator.cc\<close>), the caching wrapper
  (\<open>table/iterator_wrapper.h\<close>) and the two-level iterator (\<open>table/two_level_iterator.cc\<close>).

  An implementation of the interface is a record of operations. What an iterator shares with others
  (the file it reads, the block cache) is an environment of type \<open>'e\<close> that the operations pass on. An
  operation is \<open>None\<close> if it does not return or accesses memory it must not. The contract that
  the users of an iterator rely on is the locale \<open>cursor\<close>: the iterator walks up and down a fixed
  list of entries.
\<close>

section \<open>The interface\<close>

record ('i, 'e) iterator_ops =
  it_Valid :: "'i \<Rightarrow> bool"
  it_SeekToFirst :: "'i \<Rightarrow> 'e \<Rightarrow> ('i \<times> 'e) option"
  it_SeekToLast :: "'i \<Rightarrow> 'e \<Rightarrow> ('i \<times> 'e) option"
  it_Seek :: "bytes \<Rightarrow> 'i \<Rightarrow> 'e \<Rightarrow> ('i \<times> 'e) option"
  it_Next :: "'i \<Rightarrow> 'e \<Rightarrow> ('i \<times> 'e) option"
  it_Prev :: "'i \<Rightarrow> 'e \<Rightarrow> ('i \<times> 'e) option"
  it_key :: "'i \<Rightarrow> bytes"
  it_value :: "'i \<Rightarrow> bytes option"
  it_status :: "'i \<Rightarrow> Status"
  it_delete :: "'i \<Rightarrow> 'e \<Rightarrow> 'e"

text \<open>The cleanup functions registered with an iterator, the head of the list first.\<close>

definition RegisterCleanup :: "('e \<Rightarrow> 'e) \<Rightarrow> ('e \<Rightarrow> 'e) list \<Rightarrow> ('e \<Rightarrow> 'e) list" where
  "RegisterCleanup func cleanups = (case cleanups of [] \<Rightarrow> [func] | head # rest \<Rightarrow> head # func # rest)"

definition Iterator_delete :: "('e \<Rightarrow> 'e) list \<Rightarrow> 'e \<Rightarrow> 'e" where
  "Iterator_delete cleanups e = fold (\<lambda>func. func) cleanups e"

text \<open>The iterator of a block, or one of the two that have no entries, with its cleanup functions. The
  assertions of \<open>EmptyIterator\<close> (it is never asked for an entry) are obligations of the caller.\<close>

type_synonym 'e cleanup_iterator = "block_iterator \<times> ('e \<Rightarrow> 'e) list"

definition block_iterator_move ::
    "(block_iter \<Rightarrow> block_iter option) \<Rightarrow> 'e cleanup_iterator \<Rightarrow> 'e \<Rightarrow> ('e cleanup_iterator \<times> 'e) option" where
  "block_iterator_move step it e =
     (case fst it of
        BlockIterator b \<Rightarrow> map_option (\<lambda>b. ((BlockIterator b, snd it), e)) (step b)
      | _ \<Rightarrow> Some (it, e))"

definition block_iterator_ops :: "('e cleanup_iterator, 'e) iterator_ops" where
  "block_iterator_ops =
     \<lparr>it_Valid = (\<lambda>(it, _). case it of BlockIterator b \<Rightarrow> BlockIter_Valid b | _ \<Rightarrow> False),
      it_SeekToFirst = block_iterator_move BlockIter_SeekToFirst,
      it_SeekToLast = block_iterator_move BlockIter_SeekToLast,
      it_Seek = (\<lambda>target. block_iterator_move (BlockIter_Seek target)),
      it_Next = block_iterator_move BlockIter_Next,
      it_Prev = block_iterator_move BlockIter_Prev,
      it_key = (\<lambda>(it, _). case it of BlockIterator b \<Rightarrow> BlockIter_key b | _ \<Rightarrow> []),
      it_value = (\<lambda>(it, _). case it of BlockIterator b \<Rightarrow> BlockIter_value b | _ \<Rightarrow> Some []),
      it_status = (\<lambda>(it, _). case it of BlockIterator b \<Rightarrow> BlockIter_status b | ErrorIterator s \<Rightarrow> s
                     | EmptyIterator \<Rightarrow> Status_OK),
      it_delete = (\<lambda>(_, cleanups) e. Iterator_delete cleanups e)\<rparr>"

section \<open>The wrapper\<close>

record 'i IteratorWrapper =
  iw_iter :: "'i option"
  iw_valid :: bool
  iw_key :: bytes

definition IteratorWrapper_new :: "'i IteratorWrapper" where
  "IteratorWrapper_new = \<lparr>iw_iter = None, iw_valid = False, iw_key = []\<rparr>"

definition IteratorWrapper_Update :: "('i, 'e) iterator_ops \<Rightarrow> 'i \<Rightarrow> 'i IteratorWrapper \<Rightarrow> 'i IteratorWrapper" where
  "IteratorWrapper_Update I iter w =
     (let w = w\<lparr>iw_iter := Some iter, iw_valid := it_Valid I iter\<rparr>
      in if iw_valid w then w\<lparr>iw_key := it_key I iter\<rparr> else w)"

definition IteratorWrapper_Set ::
    "('i, 'e) iterator_ops \<Rightarrow> 'i option \<Rightarrow> 'i IteratorWrapper \<Rightarrow> 'e \<Rightarrow> 'i IteratorWrapper \<times> 'e" where
  "IteratorWrapper_Set I iter w e =
     (let e = (case iw_iter w of None \<Rightarrow> e | Some old \<Rightarrow> it_delete I old e)
      in case iter of
           None \<Rightarrow> (w\<lparr>iw_iter := None, iw_valid := False\<rparr>, e)
         | Some iter \<Rightarrow> (IteratorWrapper_Update I iter w, e))"

definition IteratorWrapper_move ::
    "('i, 'e) iterator_ops \<Rightarrow> ('i \<Rightarrow> 'e \<Rightarrow> ('i \<times> 'e) option) \<Rightarrow> 'i IteratorWrapper \<Rightarrow> 'e \<Rightarrow> ('i IteratorWrapper \<times> 'e) option" where
  "IteratorWrapper_move I step w e =
     (case iw_iter w of
        None \<Rightarrow> None
      | Some iter \<Rightarrow> map_option (\<lambda>(iter, e). (IteratorWrapper_Update I iter w, e)) (step iter e))"

definition IteratorWrapper_Next where
  "IteratorWrapper_Next I = IteratorWrapper_move I (it_Next I)"

definition IteratorWrapper_Prev where
  "IteratorWrapper_Prev I = IteratorWrapper_move I (it_Prev I)"

definition IteratorWrapper_Seek where
  "IteratorWrapper_Seek I k = IteratorWrapper_move I (it_Seek I k)"

definition IteratorWrapper_SeekToFirst where
  "IteratorWrapper_SeekToFirst I = IteratorWrapper_move I (it_SeekToFirst I)"

definition IteratorWrapper_SeekToLast where
  "IteratorWrapper_SeekToLast I = IteratorWrapper_move I (it_SeekToLast I)"

definition IteratorWrapper_value :: "('i, 'e) iterator_ops \<Rightarrow> 'i IteratorWrapper \<Rightarrow> bytes option" where
  "IteratorWrapper_value I w = (case iw_iter w of None \<Rightarrow> None | Some iter \<Rightarrow> it_value I iter)"

definition IteratorWrapper_status :: "('i, 'e) iterator_ops \<Rightarrow> 'i IteratorWrapper \<Rightarrow> Status option" where
  "IteratorWrapper_status I w = map_option (it_status I) (iw_iter w)"

section \<open>The two-level iterator\<close>

text \<open>\<open>block_function\<close>, its argument and the read options are one parameter, the function that makes a
  data iterator from an index value.\<close>

record ('i, 'd) TwoLevelIterator =
  tl_status :: Status
  tl_index_iter :: "'i IteratorWrapper"
  tl_data_iter :: "'d IteratorWrapper"
  tl_data_block_handle :: bytes

type_synonym ('d, 'e) block_function = "bytes \<Rightarrow> 'e \<Rightarrow> ('d \<times> 'e) option"

definition NewTwoLevelIterator :: "('i, 'e) iterator_ops \<Rightarrow> 'i \<Rightarrow> ('i, 'd) TwoLevelIterator" where
  "NewTwoLevelIterator I index_iter =
     \<lparr>tl_status = Status_OK, tl_index_iter = IteratorWrapper_Update I index_iter IteratorWrapper_new,
      tl_data_iter = IteratorWrapper_new, tl_data_block_handle = []\<rparr>"

definition TwoLevel_SaveError :: "Status \<Rightarrow> ('i, 'd) TwoLevelIterator \<Rightarrow> ('i, 'd) TwoLevelIterator" where
  "TwoLevel_SaveError s t = (if status_ok (tl_status t) \<and> \<not> status_ok s then t\<lparr>tl_status := s\<rparr> else t)"

definition SetDataIterator ::
    "('d, 'e) iterator_ops \<Rightarrow> 'd option \<Rightarrow> ('i, 'd) TwoLevelIterator \<Rightarrow> 'e \<Rightarrow> ('i, 'd) TwoLevelIterator \<times> 'e" where
  "SetDataIterator D data_iter t e =
     (let t = (case iw_iter (tl_data_iter t) of None \<Rightarrow> t | Some it \<Rightarrow> TwoLevel_SaveError (it_status D it) t);
          (w, e) = IteratorWrapper_Set D data_iter (tl_data_iter t) e
      in (t\<lparr>tl_data_iter := w\<rparr>, e))"

definition InitDataBlock ::
    "('i, 'e) iterator_ops \<Rightarrow> ('d, 'e) iterator_ops \<Rightarrow> ('d, 'e) block_function \<Rightarrow>
     ('i, 'd) TwoLevelIterator \<Rightarrow> 'e \<Rightarrow> (('i, 'd) TwoLevelIterator \<times> 'e) option" where
  "InitDataBlock I D block_function t e =
     (if \<not> iw_valid (tl_index_iter t) then Some (SetDataIterator D None t e)
      else do {
        handle \<leftarrow> IteratorWrapper_value I (tl_index_iter t);
        if \<not> Option.is_none (iw_iter (tl_data_iter t)) \<and> slice_compare handle (tl_data_block_handle t) = 0
        then Some (t, e)
        else do {
          (iter, e) \<leftarrow> block_function handle e;
          let t = t\<lparr>tl_data_block_handle := handle\<rparr> in Some (SetDataIterator D (Some iter) t e)
        }
      })"

text \<open>An operation on the index iterator or on the data iterator; the second does nothing if there is none.\<close>

definition index_move ::
    "('i IteratorWrapper \<Rightarrow> 'e \<Rightarrow> ('i IteratorWrapper \<times> 'e) option) \<Rightarrow>
     ('i, 'd) TwoLevelIterator \<Rightarrow> 'e \<Rightarrow> (('i, 'd) TwoLevelIterator \<times> 'e) option" where
  "index_move step t e = map_option (\<lambda>(w, e). (t\<lparr>tl_index_iter := w\<rparr>, e)) (step (tl_index_iter t) e)"

definition data_move ::
    "('d IteratorWrapper \<Rightarrow> 'e \<Rightarrow> ('d IteratorWrapper \<times> 'e) option) \<Rightarrow>
     ('i, 'd) TwoLevelIterator \<Rightarrow> 'e \<Rightarrow> (('i, 'd) TwoLevelIterator \<times> 'e) option" where
  "data_move step t e =
     (if Option.is_none (iw_iter (tl_data_iter t)) then Some (t, e)
      else map_option (\<lambda>(w, e). (t\<lparr>tl_data_iter := w\<rparr>, e)) (step (tl_data_iter t) e))"

partial_function (option) SkipEmptyDataBlocksForward ::
    "('i, 'e) iterator_ops \<Rightarrow> ('d, 'e) iterator_ops \<Rightarrow> ('d, 'e) block_function \<Rightarrow>
     ('i, 'd) TwoLevelIterator \<Rightarrow> 'e \<Rightarrow> (('i, 'd) TwoLevelIterator \<times> 'e) option" where
  "SkipEmptyDataBlocksForward I D block_function t e =
     (if Option.is_none (iw_iter (tl_data_iter t)) \<or> \<not> iw_valid (tl_data_iter t)
      then if \<not> iw_valid (tl_index_iter t) then Some (SetDataIterator D None t e)
           else do {
             (t, e) \<leftarrow> index_move (IteratorWrapper_Next I) t e;
             (t, e) \<leftarrow> InitDataBlock I D block_function t e;
             (t, e) \<leftarrow> data_move (IteratorWrapper_SeekToFirst D) t e;
             SkipEmptyDataBlocksForward I D block_function t e
           }
      else Some (t, e))"

partial_function (option) SkipEmptyDataBlocksBackward ::
    "('i, 'e) iterator_ops \<Rightarrow> ('d, 'e) iterator_ops \<Rightarrow> ('d, 'e) block_function \<Rightarrow>
     ('i, 'd) TwoLevelIterator \<Rightarrow> 'e \<Rightarrow> (('i, 'd) TwoLevelIterator \<times> 'e) option" where
  "SkipEmptyDataBlocksBackward I D block_function t e =
     (if Option.is_none (iw_iter (tl_data_iter t)) \<or> \<not> iw_valid (tl_data_iter t)
      then if \<not> iw_valid (tl_index_iter t) then Some (SetDataIterator D None t e)
           else do {
             (t, e) \<leftarrow> index_move (IteratorWrapper_Prev I) t e;
             (t, e) \<leftarrow> InitDataBlock I D block_function t e;
             (t, e) \<leftarrow> data_move (IteratorWrapper_SeekToLast D) t e;
             SkipEmptyDataBlocksBackward I D block_function t e
           }
      else Some (t, e))"

definition TwoLevel_Seek where
  "TwoLevel_Seek I D block_function target t e = do {
     (t, e) \<leftarrow> index_move (IteratorWrapper_Seek I target) t e;
     (t, e) \<leftarrow> InitDataBlock I D block_function t e;
     (t, e) \<leftarrow> data_move (IteratorWrapper_Seek D target) t e;
     SkipEmptyDataBlocksForward I D block_function t e
   }"

definition TwoLevel_SeekToFirst where
  "TwoLevel_SeekToFirst I D block_function t e = do {
     (t, e) \<leftarrow> index_move (IteratorWrapper_SeekToFirst I) t e;
     (t, e) \<leftarrow> InitDataBlock I D block_function t e;
     (t, e) \<leftarrow> data_move (IteratorWrapper_SeekToFirst D) t e;
     SkipEmptyDataBlocksForward I D block_function t e
   }"

definition TwoLevel_SeekToLast where
  "TwoLevel_SeekToLast I D block_function t e = do {
     (t, e) \<leftarrow> index_move (IteratorWrapper_SeekToLast I) t e;
     (t, e) \<leftarrow> InitDataBlock I D block_function t e;
     (t, e) \<leftarrow> data_move (IteratorWrapper_SeekToLast D) t e;
     SkipEmptyDataBlocksBackward I D block_function t e
   }"

definition TwoLevel_Next where
  "TwoLevel_Next I D block_function t e = do {
     (w, e) \<leftarrow> IteratorWrapper_Next D (tl_data_iter t) e;
     SkipEmptyDataBlocksForward I D block_function (t\<lparr>tl_data_iter := w\<rparr>) e
   }"

definition TwoLevel_Prev where
  "TwoLevel_Prev I D block_function t e = do {
     (w, e) \<leftarrow> IteratorWrapper_Prev D (tl_data_iter t) e;
     SkipEmptyDataBlocksBackward I D block_function (t\<lparr>tl_data_iter := w\<rparr>) e
   }"

definition TwoLevel_status :: "('i, 'e) iterator_ops \<Rightarrow> ('d, 'e) iterator_ops \<Rightarrow> ('i, 'd) TwoLevelIterator \<Rightarrow> Status" where
  "TwoLevel_status I D t =
     (case IteratorWrapper_status I (tl_index_iter t) of
        Some s \<Rightarrow>
          if \<not> status_ok s then s
          else (case IteratorWrapper_status D (tl_data_iter t) of
                  Some s \<Rightarrow> if \<not> status_ok s then s else tl_status t
                | None \<Rightarrow> tl_status t)
      | None \<Rightarrow> tl_status t)"

definition TwoLevel_delete where
  "TwoLevel_delete I D t e =
     (let e = (case iw_iter (tl_data_iter t) of None \<Rightarrow> e | Some it \<Rightarrow> it_delete D it e)
      in case iw_iter (tl_index_iter t) of None \<Rightarrow> e | Some it \<Rightarrow> it_delete I it e)"

definition TwoLevelIterator_ops ::
    "('i, 'e) iterator_ops \<Rightarrow> ('d, 'e) iterator_ops \<Rightarrow> ('d, 'e) block_function \<Rightarrow>
     (('i, 'd) TwoLevelIterator, 'e) iterator_ops" where
  "TwoLevelIterator_ops I D block_function =
     \<lparr>it_Valid = (\<lambda>t. iw_valid (tl_data_iter t)),
      it_SeekToFirst = TwoLevel_SeekToFirst I D block_function,
      it_SeekToLast = TwoLevel_SeekToLast I D block_function,
      it_Seek = TwoLevel_Seek I D block_function,
      it_Next = TwoLevel_Next I D block_function,
      it_Prev = TwoLevel_Prev I D block_function,
      it_key = (\<lambda>t. iw_key (tl_data_iter t)),
      it_value = (\<lambda>t. IteratorWrapper_value D (tl_data_iter t)),
      it_status = TwoLevel_status I D,
      it_delete = TwoLevel_delete I D\<rparr>"

section \<open>The contract of an iterator\<close>

text \<open>The index of the first entry whose key is not below the target.\<close>

definition first_from :: "(bytes \<Rightarrow> bytes \<Rightarrow> int) \<Rightarrow> bytes \<Rightarrow> (bytes \<times> bytes) list \<Rightarrow> nat option" where
  "first_from cmp target es = find (\<lambda>i. cmp (fst (es ! i)) target \<ge> 0) [0..<length es]"

lemma first_from_Some:
  "first_from cmp target es = Some i \<longleftrightarrow>
     i < length es \<and> cmp (fst (es ! i)) target \<ge> 0 \<and> (\<forall>j < i. cmp (fst (es ! j)) target < 0)"
  by (auto simp: first_from_def find_Some_iff not_le)

lemma first_from_None: "first_from cmp target es = None \<longleftrightarrow> (\<forall>i < length es. cmp (fst (es ! i)) target < 0)"
  by (auto simp: first_from_def find_None_iff not_le)

text \<open>
  An iterator over the entries \<open>es\<close>, in an environment that satisfies \<open>inv\<close>: \<open>at (Some i)\<close> holds of an
  iterator on entry \<open>i\<close>, \<open>at None\<close> of one that is not valid. Every move returns and ends where it should, without an error.
\<close>

locale cursor =
  fixes I :: "('i, 'e) iterator_ops" and es :: "(bytes \<times> bytes) list" and at :: "nat option \<Rightarrow> 'i \<Rightarrow> bool"
    and inv :: "'e \<Rightarrow> bool" and cmp :: "bytes \<Rightarrow> bytes \<Rightarrow> int" and valid :: "bytes \<Rightarrow> bool"
  assumes at_Some: "at (Some i) it \<Longrightarrow> i < length es \<and> it_Valid I it \<and> it_key I it = fst (es ! i) \<and> it_value I it = Some (snd (es ! i))"
    and at_None: "at None it \<Longrightarrow> \<not> it_Valid I it"
    and at_status: "at k it \<Longrightarrow> it_status I it = Status_OK"
    and SeekToFirst: "at k it \<Longrightarrow> inv e \<Longrightarrow>
      \<exists>it' e'. it_SeekToFirst I it e = Some (it', e') \<and> inv e' \<and> at (if es = [] then None else Some 0) it'"
    and SeekToLast: "at k it \<Longrightarrow> inv e \<Longrightarrow>
      \<exists>it' e'. it_SeekToLast I it e = Some (it', e') \<and> inv e' \<and> at (if es = [] then None else Some (length es - 1)) it'"
    and Seek: "at k it \<Longrightarrow> inv e \<Longrightarrow> valid target \<Longrightarrow>
      \<exists>it' e'. it_Seek I target it e = Some (it', e') \<and> inv e' \<and> at (first_from cmp target es) it'"
    and Next: "at (Some i) it \<Longrightarrow> inv e \<Longrightarrow>
      \<exists>it' e'. it_Next I it e = Some (it', e') \<and> inv e' \<and> at (if Suc i < length es then Some (Suc i) else None) it'"
    and Prev: "at (Some i) it \<Longrightarrow> inv e \<Longrightarrow>
      \<exists>it' e'. it_Prev I it e = Some (it', e') \<and> inv e' \<and> at (if 0 < i then Some (i - 1) else None) it'"
    and delete: "at k it \<Longrightarrow> inv e \<Longrightarrow> inv (it_delete I it e)"
begin

lemma Valid_iff: "at k it \<Longrightarrow> it_Valid I it \<longleftrightarrow> k \<noteq> None"
  using at_Some at_None by (cases k) auto

text \<open>A wrapper around an iterator at \<open>k\<close> whose cached fields agree with it.\<close>

definition wrapped :: "nat option \<Rightarrow> 'i IteratorWrapper \<Rightarrow> bool" where
  "wrapped k w \<longleftrightarrow> (\<exists>it. iw_iter w = Some it \<and> at k it \<and> iw_valid w = it_Valid I it \<and> (it_Valid I it \<longrightarrow> iw_key w = it_key I it))"

lemma wrapped_Update: "at k it \<Longrightarrow> wrapped k (IteratorWrapper_Update I it w)"
  by (auto simp: wrapped_def IteratorWrapper_Update_def Let_def)

lemma wrapped_valid: "wrapped k w \<Longrightarrow> iw_valid w \<longleftrightarrow> k \<noteq> None"
  using Valid_iff by (auto simp: wrapped_def)

lemma wrapped_iter: "wrapped k w \<Longrightarrow> \<not> Option.is_none (iw_iter w)"
  by (auto simp: wrapped_def)

lemma wrapped_entry: "wrapped (Some i) w \<Longrightarrow> i < length es \<and> iw_key w = fst (es ! i) \<and> IteratorWrapper_value I w = Some (snd (es ! i))"
  using at_Some by (auto simp: wrapped_def IteratorWrapper_value_def)

lemma wrapped_status: "wrapped k w \<Longrightarrow> IteratorWrapper_status I w = Some Status_OK"
  using at_status by (auto simp: wrapped_def IteratorWrapper_status_def)

lemma wrapped_move:
  assumes "wrapped k w" and "\<And>it. at k it \<Longrightarrow> \<exists>it' e'. step it e = Some (it', e') \<and> inv e' \<and> at k' it'"
  shows "\<exists>w' e'. IteratorWrapper_move I step w e = Some (w', e') \<and> inv e' \<and> wrapped k' w'"
  using assms wrapped_Update by (fastforce simp: wrapped_def IteratorWrapper_move_def)

lemma wrapped_SeekToFirst: "wrapped k w \<Longrightarrow> inv e \<Longrightarrow>
    \<exists>w' e'. IteratorWrapper_SeekToFirst I w e = Some (w', e') \<and> inv e' \<and> wrapped (if es = [] then None else Some 0) w'"
  unfolding IteratorWrapper_SeekToFirst_def by (erule wrapped_move) (rule SeekToFirst)

lemma wrapped_SeekToLast: "wrapped k w \<Longrightarrow> inv e \<Longrightarrow>
    \<exists>w' e'. IteratorWrapper_SeekToLast I w e = Some (w', e') \<and> inv e' \<and> wrapped (if es = [] then None else Some (length es - 1)) w'"
  unfolding IteratorWrapper_SeekToLast_def by (erule wrapped_move) (rule SeekToLast)

lemma wrapped_Seek: "wrapped k w \<Longrightarrow> inv e \<Longrightarrow> valid target \<Longrightarrow>
    \<exists>w' e'. IteratorWrapper_Seek I target w e = Some (w', e') \<and> inv e' \<and> wrapped (first_from cmp target es) w'"
  unfolding IteratorWrapper_Seek_def by (erule wrapped_move) (rule Seek)

lemma wrapped_Next: "wrapped (Some i) w \<Longrightarrow> inv e \<Longrightarrow>
    \<exists>w' e'. IteratorWrapper_Next I w e = Some (w', e') \<and> inv e' \<and> wrapped (if Suc i < length es then Some (Suc i) else None) w'"
  unfolding IteratorWrapper_Next_def by (erule wrapped_move) (rule Next)

lemma wrapped_Prev: "wrapped (Some i) w \<Longrightarrow> inv e \<Longrightarrow>
    \<exists>w' e'. IteratorWrapper_Prev I w e = Some (w', e') \<and> inv e' \<and> wrapped (if 0 < i then Some (i - 1) else None) w'"
  unfolding IteratorWrapper_Prev_def by (erule wrapped_move) (rule Prev)

end

section \<open>The two-level iterator walks the concatenation of its blocks\<close>

text \<open>
  The index is a cursor over separators and block handles; a handle gives a cursor over its block; a
  separator is not below the keys of its block and below the keys of the later ones.
\<close>

locale two_level =
  index: cursor I ies iat inv cmp valid + order: key_order cmp valid
  for I :: "('i, 'e) iterator_ops" and ies :: "(bytes \<times> bytes) list" and iat inv cmp valid +
  fixes D :: "('d, 'e) iterator_ops" and bf :: "('d, 'e) block_function"
    and blocks :: "(bytes \<times> bytes) list list" and dat :: "nat \<Rightarrow> nat option \<Rightarrow> 'd \<Rightarrow> bool"
  assumes data: "j < length ies \<Longrightarrow> cursor D (blocks ! j) (dat j) inv cmp valid"
    and blocks: "length blocks = length ies"
    and open_block: "j < length ies \<Longrightarrow> inv e \<Longrightarrow> \<exists>d e'. bf (snd (ies ! j)) e = Some (d, e') \<and> inv e' \<and> dat j None d"
    and handles: "i < length ies \<Longrightarrow> j < length ies \<Longrightarrow> snd (ies ! i) = snd (ies ! j) \<Longrightarrow> i = j"
    and keys: "j < length ies \<Longrightarrow> valid (fst (ies ! j))" "j < length ies \<Longrightarrow> (k, v) \<in> set (blocks ! j) \<Longrightarrow> valid k"
    and separator: "j < length ies \<Longrightarrow> (k, v) \<in> set (blocks ! j) \<Longrightarrow> cmp k (fst (ies ! j)) \<le> 0"
      "i < j \<Longrightarrow> j < length ies \<Longrightarrow> (k, v) \<in> set (blocks ! j) \<Longrightarrow> cmp (fst (ies ! i)) k < 0"
begin

abbreviation "m \<equiv> length ies"
abbreviation "dwrapped j \<equiv> cursor.wrapped D (dat j)"

definition base :: "nat \<Rightarrow> nat" where
  "base j = length (concat (take j blocks))"

lemma base_0 [simp]: "base 0 = 0"
  by (simp add: base_def)

lemma base_Suc: "j < m \<Longrightarrow> base (Suc j) = base j + length (blocks ! j)"
  by (simp add: base_def take_Suc_conv_app_nth blocks)

lemma base_all: "base m = length (concat blocks)"
  by (simp add: base_def blocks [symmetric])

lemma base_mono: "i \<le> j \<Longrightarrow> j \<le> m \<Longrightarrow> base i \<le> base j"
proof (induction j)
  case (Suc j)
  then show ?case using base_Suc [of j] by (cases "i = Suc j") auto
qed simp

lemma base_nth: "j < m \<Longrightarrow> i < length (blocks ! j) \<Longrightarrow> concat blocks ! (base j + i) = blocks ! j ! i"
proof -
  assume j: "j < m" and i: "i < length (blocks ! j)"
  have "blocks = take j blocks @ blocks ! j # drop (Suc j) blocks" using j blocks by (simp add: id_take_nth_drop)
  then have "concat blocks = concat (take j blocks) @ blocks ! j @ concat (drop (Suc j) blocks)"
    by (metis concat.simps(2) concat_append)
  then show ?thesis using i by (simp add: base_def nth_append)
qed

lemma base_less: "j < m \<Longrightarrow> i < length (blocks ! j) \<Longrightarrow> base j + i < length (concat blocks)"
  using base_Suc [of j] base_mono [of "Suc j" m] base_all by simp

lemma concat_position:
  assumes "g < length (concat blocks)"
  obtains j i where "j < m" "i < length (blocks ! j)" "g = base j + i"
proof -
  have "\<exists>j i. j < k \<and> i < length (blocks ! j) \<and> g = base j + i" if "g < base k" "k \<le> m" for k
    using that
  proof (induction k)
    case (Suc k)
    show ?case
    proof (cases "g < base k")
      case True
      then show ?thesis using Suc.IH Suc.prems(2) by (meson less_SucI Suc_leD)
    next
      case False
      then show ?thesis using Suc.prems base_Suc [of k] by (intro exI [of _ k] exI [of _ "g - base k"]) auto
    qed
  qed simp
  then show ?thesis using that assms base_all by (metis order.refl)
qed

text \<open>States: the data iterator is absent or belongs to the block of the stored handle.\<close>

definition tl_ok :: "nat option \<Rightarrow> (nat \<times> nat option) option \<Rightarrow> ('i, 'd) TwoLevelIterator \<Rightarrow> bool" where
  "tl_ok k p t \<longleftrightarrow> tl_status t = Status_OK \<and> index.wrapped k (tl_index_iter t) \<and>
     (case p of None \<Rightarrow> iw_iter (tl_data_iter t) = None \<and> \<not> iw_valid (tl_data_iter t)
      | Some (j, i) \<Rightarrow> j < m \<and> dwrapped j i (tl_data_iter t) \<and> tl_data_block_handle t = snd (ies ! j))"

definition tl_at :: "nat option \<Rightarrow> ('i, 'd) TwoLevelIterator \<Rightarrow> bool" where
  "tl_at g t \<longleftrightarrow> (case g of None \<Rightarrow> \<exists>k. tl_ok k None t
     | Some g \<Rightarrow> \<exists>j i. g = base j + i \<and> tl_ok (Some j) (Some (j, Some i)) t)"

lemmas dwrapped_valid = cursor.wrapped_valid [OF data]
lemmas dwrapped_iter = cursor.wrapped_iter [OF data]
lemmas dwrapped_status = cursor.wrapped_status [OF data]
lemmas dwrapped_def = cursor.wrapped_def [OF data]
lemmas dwrapped_Update = cursor.wrapped_Update [OF data]

lemma SetDataIterator_result:
  assumes "tl_ok k p t" "inv e"
  shows "\<exists>e'. inv e' \<and> SetDataIterator D None t e = (t\<lparr>tl_data_iter := (tl_data_iter t)\<lparr>iw_iter := None, iw_valid := False\<rparr>\<rparr>, e') \<and>
    SetDataIterator D (Some d) t e = (t\<lparr>tl_data_iter := IteratorWrapper_Update D d (tl_data_iter t)\<rparr>, e')"
proof (cases p)
  case None
  then show ?thesis using assms by (auto simp: SetDataIterator_def IteratorWrapper_Set_def tl_ok_def)
next
  case (Some q)
  obtain j i where q: "q = (j, i)" by (cases q)
  have j: "j < m" "dwrapped j i (tl_data_iter t)" using assms Some q by (simp_all add: tl_ok_def)
  then obtain it where it: "iw_iter (tl_data_iter t) = Some it" "dat j i it" using dwrapped_def [OF j(1)] by auto
  have "it_status D it = Status_OK" "inv (it_delete D it e)"
    using cursor.at_status [OF data [OF j(1)] it(2)] cursor.delete [OF data [OF j(1)] it(2) assms(2)] by simp_all
  then show ?thesis using it by (simp add: SetDataIterator_def IteratorWrapper_Set_def TwoLevel_SaveError_def)
qed

lemma SetDataIterator_None:
  assumes "tl_ok k p t" "inv e"
  shows "\<exists>t' e'. SetDataIterator D None t e = (t', e') \<and> inv e' \<and> tl_ok k None t'"
  using SetDataIterator_result [OF assms, of undefined] assms(1) by (auto simp: tl_ok_def)

lemma SetDataIterator_Some:
  assumes "tl_ok k p t" "inv e" "j < m" "dat j i d"
  shows "\<exists>t' e'. SetDataIterator D (Some d) (t\<lparr>tl_data_block_handle := snd (ies ! j)\<rparr>) e = (t', e') \<and> inv e' \<and> tl_ok k (Some (j, i)) t'"
proof -
  obtain e' where e': "inv e'" "SetDataIterator D (Some d) t e = (t\<lparr>tl_data_iter := IteratorWrapper_Update D d (tl_data_iter t)\<rparr>, e')"
    using SetDataIterator_result [OF assms(1,2)] by blast
  have "SetDataIterator D (Some d) (t\<lparr>tl_data_block_handle := h\<rparr>) e =
      (let (t, e) = SetDataIterator D (Some d) t e in (t\<lparr>tl_data_block_handle := h\<rparr>, e))" for h
    by (simp add: SetDataIterator_def TwoLevel_SaveError_def IteratorWrapper_Set_def Let_def split: option.split)
  then show ?thesis using e' assms(1,3) dwrapped_Update [OF assms(3,4)] by (simp add: tl_ok_def)
qed

lemma InitDataBlock_None:
  assumes "tl_ok None p t" "inv e"
  shows "\<exists>t' e'. InitDataBlock I D bf t e = Some (t', e') \<and> inv e' \<and> tl_ok None None t'"
proof -
  have "\<not> iw_valid (tl_index_iter t)" using assms(1) index.wrapped_valid by (auto simp: tl_ok_def)
  then show ?thesis using SetDataIterator_None [OF assms] by (auto simp: InitDataBlock_def)
qed

lemma InitDataBlock_Some:
  assumes "tl_ok (Some j) p t" "inv e"
  shows "\<exists>t' e' i. InitDataBlock I D bf t e = Some (t', e') \<and> inv e' \<and> tl_ok (Some j) (Some (j, i)) t'"
proof -
  have w: "index.wrapped (Some j) (tl_index_iter t)" using assms(1) by (simp add: tl_ok_def)
  have ix: "iw_valid (tl_index_iter t)" "j < m" "IteratorWrapper_value I (tl_index_iter t) = Some (snd (ies ! j))"
    using index.wrapped_valid [OF w] index.wrapped_entry [OF w] by simp_all
  show ?thesis
  proof (cases "\<not> Option.is_none (iw_iter (tl_data_iter t)) \<and> slice_compare (snd (ies ! j)) (tl_data_block_handle t) = 0")
    case True
    then obtain j' i where p: "p = Some (j', i)" using assms(1) by (cases p) (auto simp: tl_ok_def)
    then have "tl_data_block_handle t = snd (ies ! j')" "j' < m" using assms(1) by (simp_all add: tl_ok_def)
    then have "j' = j" using True handles [of j j'] ix(2) by (simp add: slice_compare_eq)
    then show ?thesis using True ix assms p by (auto simp: InitDataBlock_def)
  next
    case False
    obtain d e' where d: "bf (snd (ies ! j)) e = Some (d, e')" "inv e'" "dat j None d" using open_block [OF ix(2) assms(2)] by blast
    then have "InitDataBlock I D bf t e = Some (SetDataIterator D (Some d) (t\<lparr>tl_data_block_handle := snd (ies ! j)\<rparr>) e')"
      using False ix by (auto simp: InitDataBlock_def)
    then show ?thesis using SetDataIterator_Some [OF assms(1) d(2) ix(2) d(3)] by auto
  qed
qed

lemma index_move_ok:
  assumes "tl_ok k p t" and "\<And>w. index.wrapped k w \<Longrightarrow> \<exists>w' e'. step w e = Some (w', e') \<and> inv e' \<and> index.wrapped k' w'"
  shows "\<exists>t' e'. index_move step t e = Some (t', e') \<and> inv e' \<and> tl_ok k' p t'"
proof -
  have "index.wrapped k (tl_index_iter t)" using assms(1) by (simp add: tl_ok_def)
  from assms(2) [OF this] assms(1) show ?thesis by (cases p) (auto simp: index_move_def tl_ok_def)
qed

lemma data_move_None: "tl_ok k None t \<Longrightarrow> data_move step t e = Some (t, e)"
  by (simp add: data_move_def tl_ok_def)

lemma data_move_ok:
  assumes "tl_ok k (Some (j, i)) t" and "\<And>w. j < m \<Longrightarrow> dwrapped j i w \<Longrightarrow> \<exists>w' e'. step w e = Some (w', e') \<and> inv e' \<and> dwrapped j i' w'"
  shows "\<exists>t' e'. data_move step t e = Some (t', e') \<and> inv e' \<and> tl_ok k (Some (j, i')) t'"
proof -
  have j: "j < m" "dwrapped j i (tl_data_iter t)" using assms(1) by (simp_all add: tl_ok_def)
  then have "\<not> Option.is_none (iw_iter (tl_data_iter t))" using dwrapped_iter by blast
  then show ?thesis using assms(2) [OF j] assms(1) by (auto simp: data_move_def tl_ok_def)
qed

lemma tl_ok_data_valid: "tl_ok k p t \<Longrightarrow>
    (Option.is_none (iw_iter (tl_data_iter t)) \<or> \<not> iw_valid (tl_data_iter t)) \<longleftrightarrow> (case p of Some (_, Some _) \<Rightarrow> False | _ \<Rightarrow> True)"
  using dwrapped_valid dwrapped_iter by (fastforce simp: tl_ok_def split: option.splits)

lemma tl_ok_index_valid: "tl_ok k p t \<Longrightarrow> iw_valid (tl_index_iter t) \<longleftrightarrow> k \<noteq> None"
  using index.wrapped_valid by (simp add: tl_ok_def)

text \<open>From a block that is exhausted, the iterator goes on to the first entry after it, or before it.\<close>

lemma SkipForward_None:
  assumes "tl_ok None p t" "inv e" "case p of Some (_, Some _) \<Rightarrow> False | _ \<Rightarrow> True"
  shows "\<exists>t' e'. SkipEmptyDataBlocksForward I D bf t e = Some (t', e') \<and> inv e' \<and> tl_at None t'"
  using SetDataIterator_None [OF assms(1,2)] tl_ok_data_valid [OF assms(1)] tl_ok_index_valid [OF assms(1)] assms(3)
  by (subst SkipEmptyDataBlocksForward.simps) (auto simp: tl_at_def)

lemma SkipBackward_None:
  assumes "tl_ok None p t" "inv e" "case p of Some (_, Some _) \<Rightarrow> False | _ \<Rightarrow> True"
  shows "\<exists>t' e'. SkipEmptyDataBlocksBackward I D bf t e = Some (t', e') \<and> inv e' \<and> tl_at None t'"
  using SetDataIterator_None [OF assms(1,2)] tl_ok_data_valid [OF assms(1)] tl_ok_index_valid [OF assms(1)] assms(3)
  by (subst SkipEmptyDataBlocksBackward.simps) (auto simp: tl_at_def)

lemma SkipForward_at:
  assumes "tl_ok (Some j) (Some (j, Some i)) t" "inv e"
  shows "\<exists>t' e'. SkipEmptyDataBlocksForward I D bf t e = Some (t', e') \<and> inv e' \<and> tl_at (Some (base j + i)) t'"
  using tl_ok_data_valid [OF assms(1)] assms
  by (subst SkipEmptyDataBlocksForward.simps) (auto simp: tl_at_def)

lemma SkipBackward_at:
  assumes "tl_ok (Some j) (Some (j, Some i)) t" "inv e"
  shows "\<exists>t' e'. SkipEmptyDataBlocksBackward I D bf t e = Some (t', e') \<and> inv e' \<and> tl_at (Some (base j + i)) t'"
  using tl_ok_data_valid [OF assms(1)] assms
  by (subst SkipEmptyDataBlocksBackward.simps) (auto simp: tl_at_def)


lemma tl_ok_index: "tl_ok (Some j) p t \<Longrightarrow> j < m"
  using index.wrapped_entry [of j "tl_index_iter t"] by (simp add: tl_ok_def)

lemma index_SeekToFirst: "tl_ok k p t \<Longrightarrow> inv e \<Longrightarrow>
    \<exists>t' e'. index_move (IteratorWrapper_SeekToFirst I) t e = Some (t', e') \<and> inv e' \<and> tl_ok (if ies = [] then None else Some 0) p t'"
  by (erule index_move_ok) (rule index.wrapped_SeekToFirst)

lemma index_SeekToLast: "tl_ok k p t \<Longrightarrow> inv e \<Longrightarrow>
    \<exists>t' e'. index_move (IteratorWrapper_SeekToLast I) t e = Some (t', e') \<and> inv e' \<and> tl_ok (if ies = [] then None else Some (m - 1)) p t'"
  by (erule index_move_ok) (rule index.wrapped_SeekToLast)

lemma index_Seek: "tl_ok k p t \<Longrightarrow> inv e \<Longrightarrow> valid target \<Longrightarrow>
    \<exists>t' e'. index_move (IteratorWrapper_Seek I target) t e = Some (t', e') \<and> inv e' \<and> tl_ok (first_from cmp target ies) p t'"
  by (erule index_move_ok) (rule index.wrapped_Seek)

lemma index_Next: "tl_ok (Some j) p t \<Longrightarrow> inv e \<Longrightarrow>
    \<exists>t' e'. index_move (IteratorWrapper_Next I) t e = Some (t', e') \<and> inv e' \<and> tl_ok (if Suc j < m then Some (Suc j) else None) p t'"
  by (erule index_move_ok) (rule index.wrapped_Next)

lemma index_Prev: "tl_ok (Some j) p t \<Longrightarrow> inv e \<Longrightarrow>
    \<exists>t' e'. index_move (IteratorWrapper_Prev I) t e = Some (t', e') \<and> inv e' \<and> tl_ok (if 0 < j then Some (j - 1) else None) p t'"
  by (erule index_move_ok) (rule index.wrapped_Prev)

lemma data_SeekToFirst: "tl_ok k (Some (j, i)) t \<Longrightarrow> inv e \<Longrightarrow>
    \<exists>t' e'. data_move (IteratorWrapper_SeekToFirst D) t e = Some (t', e') \<and> inv e' \<and>
      tl_ok k (Some (j, if blocks ! j = [] then None else Some 0)) t'"
  by (erule data_move_ok) (rule cursor.wrapped_SeekToFirst [OF data])

lemma data_SeekToLast: "tl_ok k (Some (j, i)) t \<Longrightarrow> inv e \<Longrightarrow>
    \<exists>t' e'. data_move (IteratorWrapper_SeekToLast D) t e = Some (t', e') \<and> inv e' \<and>
      tl_ok k (Some (j, if blocks ! j = [] then None else Some (length (blocks ! j) - 1))) t'"
  by (erule data_move_ok) (rule cursor.wrapped_SeekToLast [OF data])

lemma data_Seek: "tl_ok k (Some (j, i)) t \<Longrightarrow> inv e \<Longrightarrow> valid target \<Longrightarrow>
    \<exists>t' e'. data_move (IteratorWrapper_Seek D target) t e = Some (t', e') \<and> inv e' \<and>
      tl_ok k (Some (j, first_from cmp target (blocks ! j))) t'"
  by (erule data_move_ok) (rule cursor.wrapped_Seek [OF data])

abbreviation "exhausted p \<equiv> (case p of Some (_, Some _) \<Rightarrow> False | _ \<Rightarrow> True)"

definition pos :: "nat \<Rightarrow> nat option" where
  "pos g = (if g < length (concat blocks) then Some g else None)"

definition prior :: "nat \<Rightarrow> nat option" where
  "prior g = (if 0 < g then Some (g - 1) else None)"

lemma SkipForward_Some:
  assumes "tl_ok (Some j) p t" "inv e" "exhausted p"
  shows "\<exists>t' e'. SkipEmptyDataBlocksForward I D bf t e = Some (t', e') \<and> inv e' \<and> tl_at (pos (base (Suc j))) t'"
  using assms
proof (induction "m - j" arbitrary: j p t e rule: less_induct)
  case less
  have jm: "j < m" using tl_ok_index [OF less.prems(1)] .
  obtain t1 e1 where 1: "index_move (IteratorWrapper_Next I) t e = Some (t1, e1)" "inv e1" "tl_ok (if Suc j < m then Some (Suc j) else None) p t1"
    using index_Next [OF less.prems(1,2)] by blast
  show ?case
  proof (cases "Suc j < m")
    case True
    obtain t2 e2 i where 2: "InitDataBlock I D bf t1 e1 = Some (t2, e2)" "inv e2" "tl_ok (Some (Suc j)) (Some (Suc j, i)) t2"
      using InitDataBlock_Some [OF _ 1(2), of "Suc j" p t1] 1(3) True by auto
    obtain t3 e3 where 3: "data_move (IteratorWrapper_SeekToFirst D) t2 e2 = Some (t3, e3)" "inv e3"
      "tl_ok (Some (Suc j)) (Some (Suc j, if blocks ! Suc j = [] then None else Some 0)) t3"
      using data_SeekToFirst [OF 2(3,2)] by blast
    have step: "SkipEmptyDataBlocksForward I D bf t e = SkipEmptyDataBlocksForward I D bf t3 e3"
      using tl_ok_data_valid [OF less.prems(1)] tl_ok_index_valid [OF less.prems(1)] less.prems(3) 1(1) 2(1) 3(1)
      by (subst SkipEmptyDataBlocksForward.simps) simp
    show ?thesis
    proof (cases "blocks ! Suc j = []")
      case empty: True
      have "base (Suc (Suc j)) = base (Suc j)" using base_Suc [OF True] empty by simp
      moreover have ok: "tl_ok (Some (Suc j)) (Some (Suc j, None)) t3" using 3(3) empty by simp
      ultimately show ?thesis using less.hyps [OF _ ok 3(2)] True step by simp
    next
      case False
      then have "tl_ok (Some (Suc j)) (Some (Suc j, Some 0)) t3" "pos (base (Suc j)) = Some (base (Suc j) + 0)"
        using 3(3) base_less [OF True, of 0] by (simp_all add: pos_def)
      then show ?thesis using SkipForward_at [OF _ 3(2)] step by presburger
    qed
  next
    case False
    obtain t2 e2 where 2: "InitDataBlock I D bf t1 e1 = Some (t2, e2)" "inv e2" "tl_ok None None t2"
      using InitDataBlock_None [OF _ 1(2), of p t1] 1(3) False by auto
    have "SkipEmptyDataBlocksForward I D bf t e = SkipEmptyDataBlocksForward I D bf t2 e2"
      using tl_ok_data_valid [OF less.prems(1)] tl_ok_index_valid [OF less.prems(1)] less.prems(3) 1(1) 2(1)
      by (subst SkipEmptyDataBlocksForward.simps) (simp add: data_move_None [OF 2(3)])
    moreover have "pos (base (Suc j)) = None" 
    proof -
      have "Suc j = m" using False jm by linarith
      then show ?thesis using base_all by (simp add: pos_def)
    qed
    ultimately show ?thesis using SkipForward_None [OF 2(3,2)] by simp
  qed
qed

lemma SkipBackward_Some:
  assumes "tl_ok (Some j) p t" "inv e" "exhausted p"
  shows "\<exists>t' e'. SkipEmptyDataBlocksBackward I D bf t e = Some (t', e') \<and> inv e' \<and> tl_at (prior (base j)) t'"
  using assms
proof (induction j arbitrary: p t e)
  case 0
  obtain t1 e1 where 1: "index_move (IteratorWrapper_Prev I) t e = Some (t1, e1)" "inv e1" "tl_ok None p t1"
    using index_Prev [OF 0(1,2)] by auto
  obtain t2 e2 where 2: "InitDataBlock I D bf t1 e1 = Some (t2, e2)" "inv e2" "tl_ok None None t2"
    using InitDataBlock_None [OF 1(3,2)] by auto
  have "SkipEmptyDataBlocksBackward I D bf t e = SkipEmptyDataBlocksBackward I D bf t2 e2"
    using tl_ok_data_valid [OF 0(1)] tl_ok_index_valid [OF 0(1)] 0(3) 1(1) 2(1)
    by (subst SkipEmptyDataBlocksBackward.simps) (simp add: data_move_None [OF 2(3)])
  then show ?case using SkipBackward_None [OF 2(3,2)] by (simp add: prior_def)
next
  case (Suc j)
  have jm: "j < m" using tl_ok_index [OF Suc.prems(1)] by simp
  obtain t1 e1 where 1: "index_move (IteratorWrapper_Prev I) t e = Some (t1, e1)" "inv e1" "tl_ok (Some j) p t1"
    using index_Prev [OF Suc.prems(1,2)] by auto
  obtain t2 e2 i where 2: "InitDataBlock I D bf t1 e1 = Some (t2, e2)" "inv e2" "tl_ok (Some j) (Some (j, i)) t2"
    using InitDataBlock_Some [OF 1(3,2)] by auto
  obtain t3 e3 where 3: "data_move (IteratorWrapper_SeekToLast D) t2 e2 = Some (t3, e3)" "inv e3"
    "tl_ok (Some j) (Some (j, if blocks ! j = [] then None else Some (length (blocks ! j) - 1))) t3"
    using data_SeekToLast [OF 2(3,2)] by blast
  have step: "SkipEmptyDataBlocksBackward I D bf t e = SkipEmptyDataBlocksBackward I D bf t3 e3"
    using tl_ok_data_valid [OF Suc.prems(1)] tl_ok_index_valid [OF Suc.prems(1)] Suc.prems(3) 1(1) 2(1) 3(1)
    by (subst SkipEmptyDataBlocksBackward.simps) simp
  show ?case
  proof (cases "blocks ! j = []")
    case True
    then show ?thesis using Suc.IH [OF _ 3(2), of "Some (j, None)" t3] 3(3) step base_Suc [OF jm] by simp
  next
    case False
    then have "tl_ok (Some j) (Some (j, Some (length (blocks ! j) - 1))) t3" using 3(3) by simp
    moreover have "prior (base (Suc j)) = Some (base j + (length (blocks ! j) - 1))"
      using False base_Suc [OF jm] by (cases "blocks ! j") (simp_all add: prior_def)
    ultimately show ?thesis using SkipBackward_at [OF _ 3(2), of j "length (blocks ! j) - 1" t3] step by simp
  qed
qed


lemma tl_at_ok: "tl_at g t \<Longrightarrow> \<exists>k p. tl_ok k p t"
  by (cases g) (auto simp: tl_at_def)

text \<open>After a move of the index: open its block, move in it, and go on if that block is exhausted.\<close>

lemma enter_forward:
  assumes "tl_ok (Some j) p t" "inv e"
    and "\<And>t e i. tl_ok (Some j) (Some (j, i)) t \<Longrightarrow> inv e \<Longrightarrow> \<exists>t' e'. data_move step t e = Some (t', e') \<and> inv e' \<and> tl_ok (Some j) (Some (j, i')) t'"
  shows "\<exists>t' e'. InitDataBlock I D bf t e \<bind> (\<lambda>(t, e). data_move step t e \<bind> (\<lambda>(t, e). SkipEmptyDataBlocksForward I D bf t e)) = Some (t', e') \<and>
    inv e' \<and> tl_at (case i' of Some i \<Rightarrow> Some (base j + i) | None \<Rightarrow> pos (base (Suc j))) t'"
proof -
  obtain t1 e1 i where 1: "InitDataBlock I D bf t e = Some (t1, e1)" "inv e1" "tl_ok (Some j) (Some (j, i)) t1"
    using InitDataBlock_Some [OF assms(1,2)] by blast
  obtain t2 e2 where 2: "data_move step t1 e1 = Some (t2, e2)" "inv e2" "tl_ok (Some j) (Some (j, i')) t2"
    using assms(3) [OF 1(3,2)] by blast
  show ?thesis using 1(1) 2 SkipForward_Some [OF 2(3,2)] SkipForward_at [of j _ t2 e2] by (cases i') auto
qed

lemma enter_backward:
  assumes "tl_ok (Some j) p t" "inv e"
    and "\<And>t e i. tl_ok (Some j) (Some (j, i)) t \<Longrightarrow> inv e \<Longrightarrow> \<exists>t' e'. data_move step t e = Some (t', e') \<and> inv e' \<and> tl_ok (Some j) (Some (j, i')) t'"
  shows "\<exists>t' e'. InitDataBlock I D bf t e \<bind> (\<lambda>(t, e). data_move step t e \<bind> (\<lambda>(t, e). SkipEmptyDataBlocksBackward I D bf t e)) = Some (t', e') \<and>
    inv e' \<and> tl_at (case i' of Some i \<Rightarrow> Some (base j + i) | None \<Rightarrow> prior (base j)) t'"
proof -
  obtain t1 e1 i where 1: "InitDataBlock I D bf t e = Some (t1, e1)" "inv e1" "tl_ok (Some j) (Some (j, i)) t1"
    using InitDataBlock_Some [OF assms(1,2)] by blast
  obtain t2 e2 where 2: "data_move step t1 e1 = Some (t2, e2)" "inv e2" "tl_ok (Some j) (Some (j, i')) t2"
    using assms(3) [OF 1(3,2)] by blast
  show ?thesis using 1(1) 2 SkipBackward_Some [OF 2(3,2)] SkipBackward_at [of j _ t2 e2] by (cases i') auto
qed

lemma enter_None:
  assumes "tl_ok None p t" "inv e"
  shows "\<exists>t' e'. InitDataBlock I D bf t e \<bind> (\<lambda>(t, e). data_move step t e \<bind> (\<lambda>(t, e). SkipEmptyDataBlocksForward I D bf t e)) = Some (t', e') \<and>
      inv e' \<and> tl_at None t'"
    "\<exists>t' e'. InitDataBlock I D bf t e \<bind> (\<lambda>(t, e). data_move step t e \<bind> (\<lambda>(t, e). SkipEmptyDataBlocksBackward I D bf t e)) = Some (t', e') \<and>
      inv e' \<and> tl_at None t'"
proof -
  obtain t1 e1 where 1: "InitDataBlock I D bf t e = Some (t1, e1)" "inv e1" "tl_ok None None t1"
    using InitDataBlock_None [OF assms] by blast
  show "\<exists>t' e'. InitDataBlock I D bf t e \<bind> (\<lambda>(t, e). data_move step t e \<bind> (\<lambda>(t, e). SkipEmptyDataBlocksForward I D bf t e)) = Some (t', e') \<and>
      inv e' \<and> tl_at None t'"
    using 1(1) SkipForward_None [OF 1(3,2)] by (simp add: data_move_None [OF 1(3)])
  show "\<exists>t' e'. InitDataBlock I D bf t e \<bind> (\<lambda>(t, e). data_move step t e \<bind> (\<lambda>(t, e). SkipEmptyDataBlocksBackward I D bf t e)) = Some (t', e') \<and>
      inv e' \<and> tl_at None t'"
    using 1(1) SkipBackward_None [OF 1(3,2)] by (simp add: data_move_None [OF 1(3)])
qed

lemma TwoLevel_SeekToFirst_ok:
  assumes "tl_at g t" "inv e"
  shows "\<exists>t' e'. TwoLevel_SeekToFirst I D bf t e = Some (t', e') \<and> inv e' \<and> tl_at (if concat blocks = [] then None else Some 0) t'"
proof -
  obtain k p where "tl_ok k p t" using tl_at_ok [OF assms(1)] by blast
  then obtain t1 e1 where 1: "index_move (IteratorWrapper_SeekToFirst I) t e = Some (t1, e1)" "inv e1" "tl_ok (if ies = [] then None else Some 0) p t1"
    using index_SeekToFirst [OF _ assms(2)] by blast
  show ?thesis
  proof (cases "ies = []")
    case True
    then show ?thesis using enter_None(1) [OF _ 1(2), of p t1] 1 blocks by (auto simp: TwoLevel_SeekToFirst_def)
  next
    case False
    then have m: "0 < m" and ok: "tl_ok (Some 0) p t1" using 1(3) by simp_all
    have d: "\<exists>t' e'. data_move (IteratorWrapper_SeekToFirst D) t e = Some (t', e') \<and> inv e' \<and>
        tl_ok (Some 0) (Some (0, if blocks ! 0 = [] then None else Some 0)) t'" if "tl_ok (Some 0) (Some (0, i)) t" "inv e" for t e i
      using data_SeekToFirst [OF that] .
    have "\<exists>t' e'. TwoLevel_SeekToFirst I D bf t e = Some (t', e') \<and> inv e' \<and>
        tl_at (case (if blocks ! 0 = [] then None else Some 0) of Some i \<Rightarrow> Some (base 0 + i) | None \<Rightarrow> pos (base (Suc 0))) t'"
      unfolding TwoLevel_SeekToFirst_def 1(1) bind.bind_lunit prod.case by (rule enter_forward [OF ok 1(2)]) (rule d)
    moreover have "(case (if blocks ! 0 = [] then None else Some 0) of Some i \<Rightarrow> Some (base 0 + i) | None \<Rightarrow> pos (base (Suc 0))) =
        (if concat blocks = [] then None else Some 0)"
      using base_Suc [OF m] base_less [OF m, of 0] by (auto simp: pos_def simp del: concat_eq_Nil_conv)
    ultimately show ?thesis by simp
  qed
qed

lemma TwoLevel_SeekToLast_ok:
  assumes "tl_at g t" "inv e"
  shows "\<exists>t' e'. TwoLevel_SeekToLast I D bf t e = Some (t', e') \<and> inv e' \<and>
    tl_at (if concat blocks = [] then None else Some (length (concat blocks) - 1)) t'"
proof -
  obtain k p where "tl_ok k p t" using tl_at_ok [OF assms(1)] by blast
  then obtain t1 e1 where 1: "index_move (IteratorWrapper_SeekToLast I) t e = Some (t1, e1)" "inv e1" "tl_ok (if ies = [] then None else Some (m - 1)) p t1"
    using index_SeekToLast [OF _ assms(2)] by blast
  show ?thesis
  proof (cases "ies = []")
    case True
    then show ?thesis using enter_None(2) [OF _ 1(2), of p t1] 1 blocks by (auto simp: TwoLevel_SeekToLast_def)
  next
    case False
    then have m: "m - 1 < m" "Suc (m - 1) = m" by simp_all
    have ok: "tl_ok (Some (m - 1)) p t1" using 1(3) False by simp
    let ?i = "if blocks ! (m - 1) = [] then None else Some (length (blocks ! (m - 1)) - 1)"
    have d: "\<exists>t' e'. data_move (IteratorWrapper_SeekToLast D) t e = Some (t', e') \<and> inv e' \<and>
        tl_ok (Some (m - 1)) (Some (m - 1, ?i)) t'" if "tl_ok (Some (m - 1)) (Some (m - 1, i)) t" "inv e" for t e i
      using data_SeekToLast [OF that] .
    have "\<exists>t' e'. TwoLevel_SeekToLast I D bf t e = Some (t', e') \<and> inv e' \<and>
        tl_at (case ?i of Some i \<Rightarrow> Some (base (m - 1) + i) | None \<Rightarrow> prior (base (m - 1))) t'"
      unfolding TwoLevel_SeekToLast_def 1(1) bind.bind_lunit prod.case by (rule enter_backward [OF ok 1(2)]) (rule d)
    moreover have "(case ?i of Some i \<Rightarrow> Some (base (m - 1) + i) | None \<Rightarrow> prior (base (m - 1))) =
        (if concat blocks = [] then None else Some (length (concat blocks) - 1))"
    proof -
      have len: "length (concat blocks) = base (m - 1) + length (blocks ! (m - 1))"
        using base_Suc [OF m(1)] base_all unfolding m(2) by simp
      have "concat blocks = [] \<longleftrightarrow> length (concat blocks) = 0" by (simp only: length_0_conv)
      then show ?thesis unfolding len by (cases "blocks ! (m - 1)") (simp_all add: prior_def)
    qed
    ultimately show ?thesis by simp
  qed
qed


lemma TwoLevel_Next_ok:
  assumes "tl_at (Some g) t" "inv e"
  shows "\<exists>t' e'. TwoLevel_Next I D bf t e = Some (t', e') \<and> inv e' \<and> tl_at (pos (Suc g)) t'"
proof -
  obtain j i where g: "g = base j + i" and ok: "tl_ok (Some j) (Some (j, Some i)) t" using assms(1) by (auto simp: tl_at_def)
  then have j: "j < m" "dwrapped j (Some i) (tl_data_iter t)" by (simp_all add: tl_ok_def)
  have i: "i < length (blocks ! j)" using cursor.wrapped_entry [OF data [OF j(1)] j(2)] by simp
  obtain w e1 where 1: "IteratorWrapper_Next D (tl_data_iter t) e = Some (w, e1)" "inv e1"
    "dwrapped j (if Suc i < length (blocks ! j) then Some (Suc i) else None) w"
    using cursor.wrapped_Next [OF data [OF j(1)] j(2) assms(2)] by blast
  then have ok': "tl_ok (Some j) (Some (j, if Suc i < length (blocks ! j) then Some (Suc i) else None)) (t\<lparr>tl_data_iter := w\<rparr>)"
    using ok by (simp add: tl_ok_def)
  have n: "TwoLevel_Next I D bf t e = SkipEmptyDataBlocksForward I D bf (t\<lparr>tl_data_iter := w\<rparr>) e1"
    using 1(1) by (simp add: TwoLevel_Next_def)
  show ?thesis
  proof (cases "Suc i < length (blocks ! j)")
    case True
    then have "pos (Suc g) = Some (base j + Suc i)" using base_less [OF j(1) True] g by (simp add: pos_def)
    then show ?thesis using SkipForward_at [OF _ 1(2), of j "Suc i" "t\<lparr>tl_data_iter := w\<rparr>"] ok' True n by simp
  next
    case False
    then have "Suc g = base (Suc j)" using i g base_Suc [OF j(1)] by simp
    then show ?thesis using SkipForward_Some [OF _ 1(2), of j "Some (j, None)" "t\<lparr>tl_data_iter := w\<rparr>"] ok' False n by simp
  qed
qed

lemma TwoLevel_Prev_ok:
  assumes "tl_at (Some g) t" "inv e"
  shows "\<exists>t' e'. TwoLevel_Prev I D bf t e = Some (t', e') \<and> inv e' \<and> tl_at (prior g) t'"
proof -
  obtain j i where g: "g = base j + i" and ok: "tl_ok (Some j) (Some (j, Some i)) t" using assms(1) by (auto simp: tl_at_def)
  then have j: "j < m" "dwrapped j (Some i) (tl_data_iter t)" by (simp_all add: tl_ok_def)
  obtain w e1 where 1: "IteratorWrapper_Prev D (tl_data_iter t) e = Some (w, e1)" "inv e1"
    "dwrapped j (if 0 < i then Some (i - 1) else None) w"
    using cursor.wrapped_Prev [OF data [OF j(1)] j(2) assms(2)] by blast
  then have ok': "tl_ok (Some j) (Some (j, if 0 < i then Some (i - 1) else None)) (t\<lparr>tl_data_iter := w\<rparr>)"
    using ok by (simp add: tl_ok_def)
  have n: "TwoLevel_Prev I D bf t e = SkipEmptyDataBlocksBackward I D bf (t\<lparr>tl_data_iter := w\<rparr>) e1"
    using 1(1) by (simp add: TwoLevel_Prev_def)
  show ?thesis
  proof (cases "0 < i")
    case True
    then show ?thesis using SkipBackward_at [OF _ 1(2), of j "i - 1" "t\<lparr>tl_data_iter := w\<rparr>"] ok' n g by (simp add: prior_def)
  next
    case False
    then show ?thesis using SkipBackward_Some [OF _ 1(2), of j "Some (j, None)" "t\<lparr>tl_data_iter := w\<rparr>"] ok' n g by simp
  qed
qed

lemma below_target:
  assumes "valid target" "j < m" "cmp (fst (ies ! j)) target < 0" "i < length (blocks ! j)"
  shows "cmp (fst (blocks ! j ! i)) target < 0"
proof -
  have e: "(fst (blocks ! j ! i), snd (blocks ! j ! i)) \<in> set (blocks ! j)" using assms(4) by simp
  show ?thesis
    using order.cmp_le_less_trans [OF keys(2) [OF assms(2) e] keys(1) [OF assms(2)] assms(1) separator(1) [OF assms(2) e] assms(3)] .
qed

lemma from_target:
  assumes "valid target" "k < j" "j < m" "cmp (fst (ies ! k)) target \<ge> 0" "i < length (blocks ! j)"
  shows "cmp (fst (blocks ! j ! i)) target \<ge> 0"
proof (rule ccontr)
  have e: "(fst (blocks ! j ! i), snd (blocks ! j ! i)) \<in> set (blocks ! j)" using assms(5) by simp
  assume "\<not> ?thesis"
  then show False
    using order.cmp_less_trans [OF keys(1) keys(2) [OF assms(3) e] assms(1) separator(2) [OF assms(2,3) e]] assms by simp
qed

lemma first_from_blocks:
  assumes "valid target"
  shows "first_from cmp target ies = None \<Longrightarrow> first_from cmp target (concat blocks) = None"
    and "first_from cmp target ies = Some j \<Longrightarrow> first_from cmp target (concat blocks) =
      (case first_from cmp target (blocks ! j) of Some i \<Rightarrow> Some (base j + i) | None \<Rightarrow> pos (base (Suc j)))"
proof -
  assume "first_from cmp target ies = None"
  then have lt: "cmp (fst (ies ! j)) target < 0" if "j < m" for j using that by (simp add: first_from_None)
  have "cmp (fst (concat blocks ! g)) target < 0" if g: "g < length (concat blocks)" for g
    using g
  proof (rule concat_position)
    fix j i assume "j < m" "i < length (blocks ! j)" "g = base j + i"
    then show ?thesis using below_target [OF assms _ lt] base_nth by simp
  qed
  then show "first_from cmp target (concat blocks) = None" by (simp add: first_from_None)
next
  assume "first_from cmp target ies = Some j"
  then have j: "j < m" "cmp (fst (ies ! j)) target \<ge> 0" and lt: "\<And>k. k < j \<Longrightarrow> cmp (fst (ies ! k)) target < 0"
    by (auto simp: first_from_Some)
  have below: "cmp (fst (concat blocks ! g)) target < 0" if g: "g < base j" for g
  proof -
    have "g < length (concat blocks)" using g base_mono [of j m] j base_all by simp
    then show ?thesis
    proof (rule concat_position)
      fix k i assume k: "k < m" "i < length (blocks ! k)" "g = base k + i"
      have "k < j" using base_mono [of j k] k g by (meson leD leI le_add1 less_le_trans less_imp_le order.trans)
      then show ?thesis using below_target [OF assms _ lt] base_nth k by simp
    qed
  qed
  show "first_from cmp target (concat blocks) =
      (case first_from cmp target (blocks ! j) of Some i \<Rightarrow> Some (base j + i) | None \<Rightarrow> pos (base (Suc j)))"
  proof (cases "first_from cmp target (blocks ! j)")
    case (Some i)
    then have i: "i < length (blocks ! j)" "cmp (fst (blocks ! j ! i)) target \<ge> 0" "\<forall>k < i. cmp (fst (blocks ! j ! k)) target < 0"
      by (auto simp: first_from_Some)
    have "cmp (fst (concat blocks ! g)) target < 0" if "g < base j + i" for g
      using below [of g] i(3) base_nth [OF j(1), of "g - base j"] i(1) that by (cases "g < base j") auto
    then have "first_from cmp target (concat blocks) = Some (base j + i)"
      using base_less [OF j(1) i(1)] base_nth [OF j(1) i(1)] i(2) by (simp add: first_from_Some)
    then show ?thesis using Some by simp
  next
    case None
    then have i: "\<forall>k < length (blocks ! j). cmp (fst (blocks ! j ! k)) target < 0" by (simp add: first_from_None)
    have lower: "cmp (fst (concat blocks ! g)) target < 0" if "g < base (Suc j)" for g
      using below [of g] i base_nth [OF j(1), of "g - base j"] base_Suc [OF j(1)] that by (cases "g < base j") auto
    show ?thesis
    proof (cases "base (Suc j) < length (concat blocks)")
      case True
      have "cmp (fst (concat blocks ! base (Suc j))) target \<ge> 0"
        using True
      proof (rule concat_position)
        fix k i assume k: "k < m" "i < length (blocks ! k)" "base (Suc j) = base k + i"
        have "\<not> k \<le> j" using base_mono [of "Suc k" "Suc j"] base_Suc [OF k(1)] k j(1) by auto
        then show ?thesis using from_target [OF assms _ k(1) j(2) k(2)] base_nth [OF k(1,2)] k(3) by simp
      qed
      then show ?thesis using True lower None by (simp add: pos_def first_from_Some)
    next
      case False
      then have "first_from cmp target (concat blocks) = None" using lower by (simp add: first_from_None)
      then show ?thesis using None False by (simp add: pos_def)
    qed
  qed
qed

lemma TwoLevel_Seek_ok:
  assumes "tl_at g t" "inv e" "valid target"
  shows "\<exists>t' e'. TwoLevel_Seek I D bf target t e = Some (t', e') \<and> inv e' \<and> tl_at (first_from cmp target (concat blocks)) t'"
proof -
  obtain k p where "tl_ok k p t" using tl_at_ok [OF assms(1)] by blast
  then obtain t1 e1 where 1: "index_move (IteratorWrapper_Seek I target) t e = Some (t1, e1)" "inv e1" "tl_ok (first_from cmp target ies) p t1"
    using index_Seek [OF _ assms(2,3)] by blast
  show ?thesis
  proof (cases "first_from cmp target ies")
    case None
    then show ?thesis using enter_None(1) [OF _ 1(2), of p t1] 1 first_from_blocks(1) [OF assms(3)] by (auto simp: TwoLevel_Seek_def)
  next
    case (Some j)
    show ?thesis using enter_forward [OF _ 1(2) data_Seek [OF _ _ assms(3)], of j p t1] 1 Some first_from_blocks(2) [OF assms(3) Some]
      by (auto simp: TwoLevel_Seek_def)
  qed
qed

end

sublocale two_level \<subseteq> tl: cursor "TwoLevelIterator_ops I D bf" "concat blocks" tl_at inv cmp valid
proof
  fix g t k e i
  let ?T = "TwoLevelIterator_ops I D bf"
  show "i < length (concat blocks) \<and> it_Valid ?T t \<and> it_key ?T t = fst (concat blocks ! i) \<and> it_value ?T t = Some (snd (concat blocks ! i))"
    if at: "tl_at (Some i) t"
  proof -
    obtain j i' where g: "i = base j + i'" and ok: "tl_ok (Some j) (Some (j, Some i')) t" using at by (auto simp: tl_at_def)
    then have j: "j < m" "dwrapped j (Some i') (tl_data_iter t)" by (simp_all add: tl_ok_def)
    then show ?thesis using cursor.wrapped_entry [OF data [OF j(1)] j(2)] cursor.wrapped_valid [OF data [OF j(1)] j(2)] g base_nth base_less
      by (simp add: TwoLevelIterator_ops_def)
  qed
  show "\<not> it_Valid ?T t" if "tl_at None t" using that by (auto simp: TwoLevelIterator_ops_def tl_at_def tl_ok_def)
  show "it_status ?T t = Status_OK" if at: "tl_at k t"
  proof -
    obtain k' p where ok: "tl_ok k' p t" using tl_at_ok [OF at] by blast
    then have "IteratorWrapper_status I (tl_index_iter t) = Some Status_OK" "tl_status t = Status_OK"
      using index.wrapped_status by (auto simp: tl_ok_def)
    moreover have "IteratorWrapper_status D (tl_data_iter t) \<in> {None, Some Status_OK}"
      using ok dwrapped_status by (auto simp: tl_ok_def IteratorWrapper_status_def split: option.splits)
    ultimately show ?thesis by (auto simp: TwoLevelIterator_ops_def TwoLevel_status_def)
  qed
  show "\<exists>it' e'. it_SeekToFirst ?T t e = Some (it', e') \<and> inv e' \<and> tl_at (if concat blocks = [] then None else Some 0) it'"
    if "tl_at k t" "inv e" using TwoLevel_SeekToFirst_ok [OF that] by (simp add: TwoLevelIterator_ops_def)
  show "\<exists>it' e'. it_SeekToLast ?T t e = Some (it', e') \<and> inv e' \<and> tl_at (if concat blocks = [] then None else Some (length (concat blocks) - 1)) it'"
    if "tl_at k t" "inv e" using TwoLevel_SeekToLast_ok [OF that] by (simp add: TwoLevelIterator_ops_def)
  show "\<exists>it' e'. it_Seek ?T target t e = Some (it', e') \<and> inv e' \<and> tl_at (first_from cmp target (concat blocks)) it'"
    if "tl_at k t" "inv e" "valid target" for target using TwoLevel_Seek_ok [OF that] by (simp add: TwoLevelIterator_ops_def)
  show "\<exists>it' e'. it_Next ?T t e = Some (it', e') \<and> inv e' \<and> tl_at (if Suc i < length (concat blocks) then Some (Suc i) else None) it'"
    if "tl_at (Some i) t" "inv e" using TwoLevel_Next_ok [OF that] by (simp add: TwoLevelIterator_ops_def pos_def)
  show "\<exists>it' e'. it_Prev ?T t e = Some (it', e') \<and> inv e' \<and> tl_at (if 0 < i then Some (i - 1) else None) it'"
    if "tl_at (Some i) t" "inv e" using TwoLevel_Prev_ok [OF that] by (simp add: TwoLevelIterator_ops_def prior_def)
  show "inv (it_delete ?T t e)" if at: "tl_at k t" and e: "inv e"
  proof -
    obtain k' p where ok: "tl_ok k' p t" using tl_at_ok [OF at] by blast
    then obtain ix where ix: "iw_iter (tl_index_iter t) = Some ix" "iat k' ix" by (auto simp: tl_ok_def index.wrapped_def)
    show ?thesis
    proof (cases p)
      case None
      then show ?thesis using ok ix index.delete [OF ix(2) e] by (simp add: TwoLevelIterator_ops_def TwoLevel_delete_def tl_ok_def)
    next
      case (Some q)
      obtain j i where q: "q = (j, i)" by (cases q)
      have j: "j < m" "dwrapped j i (tl_data_iter t)" using ok Some q by (simp_all add: tl_ok_def)
      then obtain it where it: "iw_iter (tl_data_iter t) = Some it" "dat j i it" using dwrapped_def [OF j(1)] by auto
      show ?thesis using it ix index.delete [OF ix(2) cursor.delete [OF data [OF j(1)] it(2) e]] by (simp add: TwoLevelIterator_ops_def TwoLevel_delete_def)
    qed
  qed
qed

section \<open>Block iterators are cursors\<close>

lemma find_filter: "find P xs = (case filter P xs of [] \<Rightarrow> None | x # _ \<Rightarrow> Some x)"
  by (induction xs) auto

lemma block_iterator_ops_simps [simp]:
  "it_Valid block_iterator_ops (BlockIterator b, cs) = BlockIter_Valid b"
  "it_key block_iterator_ops (BlockIterator b, cs) = BlockIter_key b"
  "it_value block_iterator_ops (BlockIterator b, cs) = BlockIter_value b"
  "it_status block_iterator_ops (BlockIterator b, cs) = BlockIter_status b"
  "it_delete block_iterator_ops (it, cs) e = Iterator_delete cs e"
  "it_SeekToFirst block_iterator_ops = block_iterator_move BlockIter_SeekToFirst"
  "it_SeekToLast block_iterator_ops = block_iterator_move BlockIter_SeekToLast"
  "it_Seek block_iterator_ops target = block_iterator_move (BlockIter_Seek target)"
  "it_Next block_iterator_ops = block_iterator_move BlockIter_Next"
  "it_Prev block_iterator_ops = block_iterator_move BlockIter_Prev"
  by (simp_all add: block_iterator_ops_def)

lemma block_iterator_move_Block [simp]:
  "block_iterator_move step (BlockIterator b, cs) e = map_option (\<lambda>b. ((BlockIterator b, cs), e)) (step b)"
  by (simp add: block_iterator_move_def)

text \<open>The blocks of a table: a finished block whose keys increase.\<close>

locale sorted_block =
  built_block I es + order: key_order "Compare c" valid
  for I :: nat and es :: "(bytes \<times> bytes) list" and c :: comparator_ops and valid :: "bytes \<Rightarrow> bool" +
  fixes inv :: "'e \<Rightarrow> bool"
  assumes entry_keys: "(k, v) \<in> set es \<Longrightarrow> valid k"
    and increasing: "sorted_wrt (\<lambda>(k, _) (k', _). Compare c k k' < 0) es"
begin

definition block_at :: "nat option \<Rightarrow> 'e cleanup_iterator \<Rightarrow> bool" where
  "block_at k it \<longleftrightarrow> (\<exists>b. fst it = BlockIterator b \<and>
     (case k of Some i \<Rightarrow> at c i b | None \<Rightarrow> on_block c b \<and> \<not> BlockIter_Valid b)) \<and>
     (\<forall>f \<in> set (snd it). \<forall>e. inv e \<longrightarrow> inv (f e))"

lemma Iterator_delete_inv: "\<forall>f \<in> set cs. \<forall>e. inv e \<longrightarrow> inv (f e) \<Longrightarrow> inv e \<Longrightarrow> inv (Iterator_delete cs e)"
  unfolding Iterator_delete_def by (induction cs arbitrary: e) auto

lemma block_at_move:
  assumes "block_at k it" "inv e" and "\<And>b. on_block c b \<Longrightarrow> (\<And>i. k = Some i \<Longrightarrow> at c i b) \<Longrightarrow>
      \<exists>b'. step b = Some b' \<and> (case k' of Some i \<Rightarrow> at c i b' | None \<Rightarrow> ended c b')"
  shows "\<exists>it' e'. block_iterator_move step it e = Some (it', e') \<and> inv e' \<and> block_at k' it'"
proof -
  obtain b cs where it: "it = (BlockIterator b, cs)" "on_block c b" "\<And>i. k = Some i \<Longrightarrow> at c i b" "\<forall>f \<in> set cs. \<forall>e. inv e \<longrightarrow> inv (f e)"
    using assms(1) by (cases it) (auto simp: block_at_def at_def split: option.splits)
  obtain b' where "step b = Some b'" "case k' of Some i \<Rightarrow> at c i b' | None \<Rightarrow> ended c b'" using assms(3) [OF it(2,3)] by blast
  then show ?thesis using it(1,4) assms(2) ended_entry
    by (auto simp: block_at_def ended_def split: option.splits)
qed

lemma first_from_entries: "first_from (Compare c) target es =
    (case filter (\<lambda>k. Compare c (fst (es ! k)) target \<ge> 0) [0..<length es] of [] \<Rightarrow> None | k # _ \<Rightarrow> Some k)"
  by (simp add: first_from_def find_filter)

lemma es_sorted: "i < j \<Longrightarrow> j < length es \<Longrightarrow> Compare c (fst (es ! i)) (fst (es ! j)) < 0"
  using sorted_wrt_nth_less [OF increasing] by (simp add: case_prod_beta)

lemma es_valid: "i < length es \<Longrightarrow> valid (fst (es ! i))"
  using nth_mem [of i es] entry_keys [of "fst (es ! i)" "snd (es ! i)"] by simp

lemma new_block_at:
  assumes "\<forall>f \<in> set cs. \<forall>e. inv e \<longrightarrow> inv (f e)"
  shows "block_at None (Block_NewIterator c (Block_new (built_bytes I es)), cs)"
proof -
  obtain b where "Block_NewIterator c (Block_new (built_bytes I es)) = BlockIterator b" "on_block c b"
    using built_iterator by blast
  moreover from this(1) have "\<not> BlockIter_Valid b"
    by (auto simp: Block_NewIterator_def BlockIter_new_def BlockIter_Valid_def Let_def split: if_splits)
  ultimately show ?thesis using assms by (simp add: block_at_def)
qed

end

sublocale sorted_block \<subseteq> blk: cursor block_iterator_ops es block_at inv "Compare c" valid
proof
  fix i k it e
  show "i < length es \<and> it_Valid block_iterator_ops it \<and> it_key block_iterator_ops it = fst (es ! i) \<and>
      it_value block_iterator_ops it = Some (snd (es ! i))" if "block_at (Some i) it"
    using that at_entry by (cases it) (auto simp: block_at_def at_def)
  show "\<not> it_Valid block_iterator_ops it" if "block_at None it" using that by (cases it) (auto simp: block_at_def)
  show "it_status block_iterator_ops it = Status_OK" if "block_at k it" using that
    by (cases it) (auto simp: block_at_def at_def on_block_def BlockIter_status_def split: option.splits)
  show "\<exists>it' e'. it_SeekToFirst block_iterator_ops it e = Some (it', e') \<and> inv e' \<and> block_at (if es = [] then None else Some 0) it'"
    if "block_at k it" "inv e"
    unfolding block_iterator_ops_simps using that by (rule block_at_move) (use iter_SeekToFirst in \<open>fastforce split: if_splits\<close>)
  show "\<exists>it' e'. it_SeekToLast block_iterator_ops it e = Some (it', e') \<and> inv e' \<and> block_at (if es = [] then None else Some (length es - 1)) it'"
    if "block_at k it" "inv e"
    unfolding block_iterator_ops_simps using that by (rule block_at_move) (use iter_SeekToLast in \<open>fastforce split: if_splits\<close>)
  show "\<exists>it' e'. it_Seek block_iterator_ops target it e = Some (it', e') \<and> inv e' \<and> block_at (first_from (Compare c) target es) it'"
    if "block_at k it" "inv e" "valid target" for target
    unfolding block_iterator_ops_simps using that(1,2)
  proof (rule block_at_move)
    fix b assume "on_block c b"
    from iter_Seek [OF this order.key_order_axioms es_valid that(3) es_sorted]
    show "\<exists>b'. BlockIter_Seek target b = Some b' \<and> (case first_from (Compare c) target es of Some i \<Rightarrow> at c i b' | None \<Rightarrow> ended c b')"
      unfolding first_from_entries by (auto split: list.splits)
  qed
  show "\<exists>it' e'. it_Next block_iterator_ops it e = Some (it', e') \<and> inv e' \<and> block_at (if Suc i < length es then Some (Suc i) else None) it'"
    if "block_at (Some i) it" "inv e"
    unfolding block_iterator_ops_simps using that by (rule block_at_move) (use iter_Next [of c i] in \<open>fastforce split: if_splits\<close>)
  show "\<exists>it' e'. it_Prev block_iterator_ops it e = Some (it', e') \<and> inv e' \<and> block_at (if 0 < i then Some (i - 1) else None) it'"
    if "block_at (Some i) it" "inv e"
    unfolding block_iterator_ops_simps using that by (rule block_at_move) (use iter_Prev [of c i] in \<open>fastforce split: if_splits\<close>)
  show "inv (it_delete block_iterator_ops it e)" if "block_at k it" "inv e"
    using that Iterator_delete_inv by (cases it) (simp add: block_at_def)
qed

end
