(* ===== verification/Ldb_Dbformat.thy ===== *)
theory Ldb_Dbformat
  imports Ldb_Logging
begin

section \<open>leveldb: internal keys (db/dbformat.h, db/dbformat.cc)\<close>

text \<open>
  An internal key is a user key followed by eight bytes that pack a sequence number of 56 bits
  and a value type. Internal keys are ordered by increasing user key, then by decreasing
  sequence number, so that the newest entry of a user key comes first.
\<close>

subsection \<open>Sequence numbers and value types\<close>

datatype ValueType = kTypeDeletion | kTypeValue

type_synonym SequenceNumber = u64

definition value_type_code :: "ValueType \<Rightarrow> byte" where
  "value_type_code t = (case t of kTypeDeletion \<Rightarrow> 0 | kTypeValue \<Rightarrow> 1)"

definition kValueTypeForSeek :: ValueType where
  "kValueTypeForSeek = kTypeValue"

definition kMaxSequenceNumber :: SequenceNumber where
  "kMaxSequenceNumber = push_bit 56 1 - 1"

definition kNumLevels :: nat where
  "kNumLevels = 7"

record ParsedInternalKey =
  pik_user_key :: bytes
  pik_sequence :: SequenceNumber
  pik_type :: ValueType

definition InternalKeyEncodingLength :: "ParsedInternalKey \<Rightarrow> nat" where
  "InternalKeyEncodingLength key = length (pik_user_key key) + 8"

text \<open>The source asserts that the sequence number fits 56 bits.\<close>

definition PackSequenceAndType :: "u64 \<Rightarrow> ValueType \<Rightarrow> u64" where
  "PackSequenceAndType seq t = push_bit 8 seq OR ucast (value_type_code t)"

definition AppendInternalKey :: "bytes \<Rightarrow> ParsedInternalKey \<Rightarrow> bytes" where
  "AppendInternalKey result key =
     PutFixed64 (result @ pik_user_key key) (PackSequenceAndType (pik_sequence key) (pik_type key))"

definition ExtractUserKey :: "bytes \<Rightarrow> bytes" where
  "ExtractUserKey internal_key = take (length internal_key - 8) internal_key"

definition ParseInternalKey :: "bytes \<Rightarrow> ParsedInternalKey option" where
  "ParseInternalKey internal_key =
     (let n = length internal_key in
      if n < 8 then None
      else
        (let num = DecodeFixed64 (drop (n - 8) internal_key);
             c = ucast num :: byte
         in if c \<le> value_type_code kTypeValue
            then Some \<lparr>pik_user_key = take (n - 8) internal_key, pik_sequence = drop_bit 8 num,
                       pik_type = (if c = value_type_code kTypeDeletion then kTypeDeletion
                                   else kTypeValue)\<rparr>
            else None))"

subsection \<open>Printing keys\<close>

definition ParsedInternalKey_DebugString :: "ParsedInternalKey \<Rightarrow> bytes" where
  "ParsedInternalKey_DebugString k =
     [0x27] @ EscapeString (pik_user_key k) @ [0x27, 0x20, 0x40, 0x20] @
     decimal (unat (pik_sequence k)) @ cstr '' : '' @ decimal (unat (value_type_code (pik_type k)))"

definition InternalKey_DebugString :: "bytes \<Rightarrow> bytes" where
  "InternalKey_DebugString rep =
     (case ParseInternalKey rep of
        Some parsed \<Rightarrow> ParsedInternalKey_DebugString parsed
      | None \<Rightarrow> cstr ''(bad)'' @ EscapeString rep)"

subsection \<open>The class InternalKey\<close>

text \<open>An \<open>InternalKey\<close> object is its byte representation; empty means invalid.\<close>

definition InternalKey_new :: "bytes \<Rightarrow> SequenceNumber \<Rightarrow> ValueType \<Rightarrow> bytes" where
  "InternalKey_new user_key s t =
     AppendInternalKey [] \<lparr>pik_user_key = user_key, pik_sequence = s, pik_type = t\<rparr>"

definition InternalKey_DecodeFrom :: "bytes \<Rightarrow> bool \<times> bytes" where
  "InternalKey_DecodeFrom s = (s \<noteq> [], s)"

definition InternalKey_SetFrom :: "ParsedInternalKey \<Rightarrow> bytes" where
  "InternalKey_SetFrom p = AppendInternalKey [] p"

subsection \<open>The comparator on internal keys\<close>

definition InternalKeyCompare :: "comparator_ops \<Rightarrow> bytes \<Rightarrow> bytes \<Rightarrow> int" where
  "InternalKeyCompare user_comparator akey bkey =
     (let r = Compare user_comparator (ExtractUserKey akey) (ExtractUserKey bkey) in
      if r = 0 then
        (let anum = DecodeFixed64 (drop (length akey - 8) akey);
             bnum = DecodeFixed64 (drop (length bkey - 8) bkey)
         in if anum > bnum then - 1 else if anum < bnum then 1 else r)
      else r)"

definition InternalKeyFindShortestSeparator :: "comparator_ops \<Rightarrow> bytes \<Rightarrow> bytes \<Rightarrow> bytes" where
  "InternalKeyFindShortestSeparator user_comparator start limit =
     (let user_start = ExtractUserKey start;
          user_limit = ExtractUserKey limit;
          tmp = FindShortestSeparator user_comparator user_start user_limit
      in if length tmp < length user_start \<and> Compare user_comparator user_start tmp < 0
         then PutFixed64 tmp (PackSequenceAndType kMaxSequenceNumber kValueTypeForSeek)
         else start)"

definition InternalKeyFindShortSuccessor :: "comparator_ops \<Rightarrow> bytes \<Rightarrow> bytes" where
  "InternalKeyFindShortSuccessor user_comparator key =
     (let user_key = ExtractUserKey key;
          tmp = FindShortSuccessor user_comparator user_key
      in if length tmp < length user_key \<and> Compare user_comparator user_key tmp < 0
         then PutFixed64 tmp (PackSequenceAndType kMaxSequenceNumber kValueTypeForSeek)
         else key)"

definition InternalKeyComparator :: "comparator_ops \<Rightarrow> comparator_ops" where
  "InternalKeyComparator user_comparator =
     \<lparr>Compare = InternalKeyCompare user_comparator,
      FindShortestSeparator = InternalKeyFindShortestSeparator user_comparator,
      FindShortSuccessor = InternalKeyFindShortSuccessor user_comparator,
      ComparatorName = cstr ''leveldb.InternalKeyComparator''\<rparr>"

subsection \<open>Lookup keys\<close>

text \<open>The buffer \<open>[start_, end_)\<close> and the offset \<open>kstart_ - start_\<close> of the internal key in it.\<close>

record LookupKey =
  lk_buffer :: bytes
  lk_kstart :: nat

definition LookupKey_new :: "bytes \<Rightarrow> SequenceNumber \<Rightarrow> LookupKey" where
  "LookupKey_new user_key s =
     (let usize = length user_key;
          dst = EncodeVarint32 (word_of_nat usize + 8);
          kstart = length dst
      in \<lparr>lk_buffer = dst @ user_key @ EncodeFixed64 (PackSequenceAndType s kValueTypeForSeek),
          lk_kstart = kstart\<rparr>)"

definition lk_memtable_key :: "LookupKey \<Rightarrow> bytes" where
  "lk_memtable_key k = lk_buffer k"

definition lk_internal_key :: "LookupKey \<Rightarrow> bytes" where
  "lk_internal_key k = drop (lk_kstart k) (lk_buffer k)"

definition lk_user_key :: "LookupKey \<Rightarrow> bytes" where
  "lk_user_key k = take (length (lk_buffer k) - lk_kstart k - 8) (drop (lk_kstart k) (lk_buffer k))"

subsection \<open>Packing\<close>

lemma unat_kMaxSequenceNumber: "unat kMaxSequenceNumber = 2 ^ 56 - 1"
  by (simp add: kMaxSequenceNumber_def)

lemma seq_bound_unat: "seq \<le> kMaxSequenceNumber \<longleftrightarrow> unat seq < 2 ^ 56"
  by (auto simp: word_le_nat_alt unat_kMaxSequenceNumber)

lemma unat_value_type_code: "unat (value_type_code t) = (case t of kTypeDeletion \<Rightarrow> 0 | kTypeValue \<Rightarrow> 1)"
  by (cases t) (simp_all add: value_type_code_def)

lemma ucast_value_type_code:
  "(ucast (value_type_code t) :: u64) = (case t of kTypeDeletion \<Rightarrow> 0 | kTypeValue \<Rightarrow> 1)"
  by (cases t) (simp_all add: value_type_code_def)

lemma PackSequenceAndType_add: "PackSequenceAndType seq t = push_bit 8 seq + ucast (value_type_code t)"
proof -
  have "push_bit 8 seq AND (1 :: u64) = 0"
    by (rule bit_word_eqI) (auto simp: bit_simps)
  then show ?thesis
    by (cases t) (simp_all add: PackSequenceAndType_def ucast_value_type_code or_disjoint_add)
qed

lemma unat_PackSequenceAndType:
  assumes "seq \<le> kMaxSequenceNumber"
  shows "unat (PackSequenceAndType seq t) = unat seq * 256 + unat (value_type_code t)"
  using assms unfolding seq_bound_unat
  by (cases t)
    (simp_all add: PackSequenceAndType_add ucast_value_type_code unat_value_type_code
      push_bit_eq_mult unat_word_ariths)

lemma PackSequenceAndType_type: "(ucast (PackSequenceAndType seq t) :: byte) = value_type_code t"
proof (cases t)
  case kTypeDeletion
  then show ?thesis unfolding PackSequenceAndType_def
    by (simp add: value_type_code_def) (rule bit_word_eqI, auto simp: bit_simps)
next
  case kTypeValue
  then show ?thesis unfolding PackSequenceAndType_def
    by (simp add: value_type_code_def) (rule bit_word_eqI, auto simp: bit_simps)
qed

lemma PackSequenceAndType_seq:
  assumes "seq \<le> kMaxSequenceNumber"
  shows "drop_bit 8 (PackSequenceAndType seq t) = seq"
  using unat_PackSequenceAndType [OF assms, of t]
  by (simp add: word_unat_eq_iff drop_bit_eq_div unat_div) (cases t; simp add: unat_value_type_code)

subsection \<open>Taking internal keys apart\<close>

lemma AppendInternalKey_eq:
  "AppendInternalKey r k =
     r @ pik_user_key k @ EncodeFixed64 (PackSequenceAndType (pik_sequence k) (pik_type k))"
  by (simp add: AppendInternalKey_def PutFixed64_def)

lemma ExtractUserKey_append [simp]: "ExtractUserKey (u @ EncodeFixed64 w) = u"
  by (simp add: ExtractUserKey_def)

lemma InternalKey_new_eq: "InternalKey_new u s t = u @ EncodeFixed64 (PackSequenceAndType s t)"
  by (simp add: InternalKey_new_def AppendInternalKey_eq)

lemma length_InternalKey_new [simp, width_simps]: "length (InternalKey_new u s t) = length u + 8"
  by (simp add: InternalKey_new_eq)

lemma ExtractUserKey_new [simp]: "ExtractUserKey (InternalKey_new u s t) = u"
  by (simp add: InternalKey_new_eq)

definition internal_tag :: "bytes \<Rightarrow> u64" where
  "internal_tag k = DecodeFixed64 (drop (length k - 8) k)"

lemma internal_tag_append [simp]: "internal_tag (u @ EncodeFixed64 w) = w"
  using DecodeFixed64_enc [of w "[]"] by (simp add: internal_tag_def)

lemma internal_tag_new [simp]: "internal_tag (InternalKey_new u s t) = PackSequenceAndType s t"
  by (simp add: InternalKey_new_eq)

lemma ParseInternalKey_append:
  assumes "pik_sequence k \<le> kMaxSequenceNumber"
  shows "ParseInternalKey (AppendInternalKey [] k) = Some k"
proof -
  have "DecodeFixed64 (drop (length (pik_user_key k)) (AppendInternalKey [] k)) =
    PackSequenceAndType (pik_sequence k) (pik_type k)"
    using DecodeFixed64_enc [of _ "[]"] by (simp add: AppendInternalKey_eq)
  moreover have "value_type_code t \<le> value_type_code kTypeValue" for t
    by (cases t) (simp_all add: value_type_code_def)
  moreover have "value_type_code t = value_type_code kTypeDeletion \<longleftrightarrow> t = kTypeDeletion" for t
    by (cases t) (simp_all add: value_type_code_def)
  ultimately show ?thesis
    using assms
    by (cases k, cases "pik_type k")
      (simp_all add: ParseInternalKey_def Let_def PackSequenceAndType_type PackSequenceAndType_seq
        AppendInternalKey_eq)
qed

subsection \<open>The order on internal keys\<close>

lemma InternalKeyCompare_alt:
  "InternalKeyCompare c a b =
     (let r = Compare c (ExtractUserKey a) (ExtractUserKey b) in
      if r = 0 then (if internal_tag a > internal_tag b then - 1
                     else if internal_tag a < internal_tag b then 1 else 0)
      else r)"
  by (simp add: InternalKeyCompare_def internal_tag_def Let_def)

definition internal_valid :: "(bytes \<Rightarrow> bool) \<Rightarrow> bytes \<Rightarrow> bool" where
  "internal_valid uvalid k \<longleftrightarrow> 8 \<le> length k \<and> uvalid (ExtractUserKey k)"

context key_shortening
begin

lemma internal_key_order: "key_order (InternalKeyCompare c) (internal_valid valid)"
proof -
  note o = order
  note laws = key_order.cmp_self [OF o] key_order.cmp_swap [OF o] key_order.cmp_swap_eq [OF o]
  show ?thesis
  proof
    fix a assume "internal_valid valid a"
    then show "InternalKeyCompare c a a = 0"
      by (simp add: InternalKeyCompare_alt internal_valid_def laws)
  next
    fix a b assume "internal_valid valid a" "internal_valid valid b"
    then show "InternalKeyCompare c a b < 0 \<longleftrightarrow> InternalKeyCompare c b a > 0"
      using laws(2,3) [of "ExtractUserKey a" "ExtractUserKey b"]
      by (auto simp: InternalKeyCompare_alt internal_valid_def Let_def)
  next
    fix a b d
    assume v: "internal_valid valid a" "internal_valid valid b" "internal_valid valid d"
      and le: "InternalKeyCompare c a b \<le> 0" "InternalKeyCompare c b d \<le> 0"
    let ?u = ExtractUserKey
    from v have u: "valid (?u a)" "valid (?u b)" "valid (?u d)" by (simp_all add: internal_valid_def)
    from le have ule: "Compare c (?u a) (?u b) \<le> 0" "Compare c (?u b) (?u d) \<le> 0"
      by (auto simp: InternalKeyCompare_alt Let_def split: if_splits)
    then have uad: "Compare c (?u a) (?u d) \<le> 0" using key_order.cmp_trans [OF o] u by blast
    show "InternalKeyCompare c a d \<le> 0"
    proof (cases "Compare c (?u a) (?u d) = 0")
      case False
      then show ?thesis using uad by (simp add: InternalKeyCompare_alt Let_def)
    next
      case True
      then have "\<not> Compare c (?u a) (?u b) < 0"
        using key_order.cmp_less_le_trans [OF o u _ ule(2)] by (metis less_irrefl)
      then have "Compare c (?u a) (?u b) = 0" using ule(1) by linarith
      moreover have "\<not> Compare c (?u b) (?u d) < 0"
        using key_order.cmp_le_less_trans [OF o u ule(1)] True by (metis less_irrefl)
      then have "Compare c (?u b) (?u d) = 0" using ule(2) by linarith
      ultimately show ?thesis using le True
        by (auto simp: InternalKeyCompare_alt Let_def split: if_splits)
    qed
  qed
qed

lemma internal_separator:
  assumes v: "internal_valid valid start" "internal_valid valid limit"
    and lt: "InternalKeyCompare c start limit < 0"
  shows "internal_valid valid (InternalKeyFindShortestSeparator c start limit) \<and>
    InternalKeyCompare c start (InternalKeyFindShortestSeparator c start limit) \<le> 0 \<and>
    InternalKeyCompare c (InternalKeyFindShortestSeparator c start limit) limit < 0"
proof -
  let ?u = ExtractUserKey
  let ?tmp = "FindShortestSeparator c (?u start) (?u limit)"
  have u: "valid (?u start)" "valid (?u limit)" using v by (simp_all add: internal_valid_def)
  have ule: "Compare c (?u start) (?u limit) \<le> 0"
    using lt by (auto simp: InternalKeyCompare_alt Let_def split: if_splits)
  show ?thesis
  proof (cases "length ?tmp < length (?u start) \<and> Compare c (?u start) ?tmp < 0")
    case True
    then have "Compare c (?u start) (?u limit) \<noteq> 0" using separator_equal [OF u] by blast
    with ule have "Compare c (?u start) (?u limit) < 0" by simp
    then have "valid ?tmp" "Compare c ?tmp (?u limit) < 0"
      using separator_bounds [OF u] by simp_all
    with True show ?thesis
      by (simp add: InternalKeyFindShortestSeparator_def Let_def PutFixed64_def
          InternalKeyCompare_alt internal_valid_def)
  next
    case False
    then show ?thesis using v lt key_order.cmp_self [OF internal_key_order v(1)]
      by (auto simp: InternalKeyFindShortestSeparator_def Let_def)
  qed
qed

lemma internal_separator_equal:
  assumes v: "internal_valid valid start" "internal_valid valid limit"
    and eq: "InternalKeyCompare c start limit = 0"
  shows "InternalKeyFindShortestSeparator c start limit = start"
proof -
  have u: "valid (ExtractUserKey start)" "valid (ExtractUserKey limit)"
    using v by (simp_all add: internal_valid_def)
  have "Compare c (ExtractUserKey start) (ExtractUserKey limit) = 0"
    using eq by (auto simp: InternalKeyCompare_alt Let_def split: if_splits)
  then show ?thesis
    using separator_equal [OF u] by (auto simp: InternalKeyFindShortestSeparator_def Let_def)
qed

lemma internal_successor:
  assumes v: "internal_valid valid key"
  shows "internal_valid valid (InternalKeyFindShortSuccessor c key) \<and>
    InternalKeyCompare c key (InternalKeyFindShortSuccessor c key) \<le> 0"
proof -
  have u: "valid (ExtractUserKey key)" using v by (simp add: internal_valid_def)
  show ?thesis
    using successor_bound [OF u] v key_order.cmp_self [OF internal_key_order v]
    by (auto simp: InternalKeyFindShortSuccessor_def Let_def PutFixed64_def
        InternalKeyCompare_alt internal_valid_def)
qed

lemma internal_shortening: "key_shortening (InternalKeyComparator c) (internal_valid valid)"
  by (rule key_shortening.intro)
    (simp_all add: InternalKeyComparator_def internal_key_order internal_separator
      internal_separator_equal internal_successor key_order.cmp_self [OF internal_key_order])

end

interpretation internal_bytewise:
  key_shortening "InternalKeyComparator BytewiseComparator" "internal_valid (\<lambda>_. True)"
  by (rule bytewise_shortening.internal_shortening)

interpretation internal_order:
  key_order "InternalKeyCompare BytewiseComparator" "internal_valid (\<lambda>_. True)"
  by (rule bytewise_shortening.internal_key_order)

lemma internal_valid_new [simp]: "internal_valid (\<lambda>_. True) (InternalKey_new u s t)"
  by (simp add: internal_valid_def)

lemma Pack_less_iff:
  assumes "s1 \<le> kMaxSequenceNumber" and "s2 \<le> kMaxSequenceNumber"
  shows "PackSequenceAndType s1 t1 < PackSequenceAndType s2 t2 \<longleftrightarrow>
    s1 < s2 \<or> s1 = s2 \<and> t1 = kTypeDeletion \<and> t2 = kTypeValue"
proof -
  have "unat s1 < unat s2 \<Longrightarrow> unat s1 * 256 + 1 < unat s2 * 256" by simp
  then show ?thesis
    by (cases t1; cases t2)
      (auto simp: word_less_nat_alt unat_PackSequenceAndType [OF assms(1)]
        unat_PackSequenceAndType [OF assms(2)] unat_value_type_code word_unat_eq_iff)
qed

lemma InternalKeyCompare_new:
  assumes "s1 \<le> kMaxSequenceNumber" and "s2 \<le> kMaxSequenceNumber"
  shows "InternalKeyCompare BytewiseComparator (InternalKey_new u1 s1 t1) (InternalKey_new u2 s2 t2) < 0
    \<longleftrightarrow> u1 < u2 \<or> u1 = u2 \<and> (s2 < s1 \<or> s1 = s2 \<and> t1 = kTypeValue \<and> t2 = kTypeDeletion)"
  using Pack_less_iff [OF assms] Pack_less_iff [OF assms(2) assms(1)] slice_compare_iff [of u1 u2]
  by (auto simp: InternalKeyCompare_alt Let_def BytewiseComparator_def BytewiseCompare_def)

lemma lk_internal_key_new:
  "lk_internal_key (LookupKey_new u s) = InternalKey_new u s kTypeValue"
  "lk_user_key (LookupKey_new u s) = u"
  by (simp_all add: LookupKey_new_def lk_internal_key_def lk_user_key_def Let_def InternalKey_new_eq
      kValueTypeForSeek_def)

lemma lk_memtable_key_new:
  "lk_memtable_key (LookupKey_new u s) = EncodeLengthPrefixed (InternalKey_new u s kTypeValue)"
  by (simp add: LookupKey_new_def lk_memtable_key_def Let_def InternalKey_new_eq
      EncodeLengthPrefixed_def kValueTypeForSeek_def)

text \<open>C20: an internal key built from a user key, a sequence number of at most 56 bits and a type is
  parsed back into these three.\<close>

theorem internal_key_round_trip:
  assumes "pik_sequence k \<le> kMaxSequenceNumber"
  shows "ParseInternalKey (AppendInternalKey [] k) = Some k \<and>
    ExtractUserKey (AppendInternalKey [] k) = pik_user_key k \<and>
    length (AppendInternalKey [] k) = InternalKeyEncodingLength k"
  using ParseInternalKey_append [OF assms]
  by (simp add: AppendInternalKey_eq InternalKeyEncodingLength_def)

theorem internal_key_round_trip_witness:
  "pik_sequence \<lparr>pik_user_key = cstr ''cohiba'', pik_sequence = 9, pik_type = kTypeDeletion\<rparr>
     \<le> kMaxSequenceNumber \<and>
   ParseInternalKey (AppendInternalKey []
     \<lparr>pik_user_key = cstr ''cohiba'', pik_sequence = 9, pik_type = kTypeDeletion\<rparr>) =
     Some \<lparr>pik_user_key = cstr ''cohiba'', pik_sequence = 9, pik_type = kTypeDeletion\<rparr>"
proof -
  let ?k = "\<lparr>pik_user_key = cstr ''cohiba'', pik_sequence = 9, pik_type = kTypeDeletion\<rparr>"
  have h: "pik_sequence ?k \<le> kMaxSequenceNumber" by (simp add: kMaxSequenceNumber_def)
  show ?thesis using h internal_key_round_trip [OF h] by blast
qed

text \<open>C18: internal keys are ordered by user key, then newest first; shortening an index key keeps
  it between its neighbours in this order.\<close>

theorem internal_key_order_newest_first:
  assumes "s1 \<le> kMaxSequenceNumber" and "s2 \<le> kMaxSequenceNumber"
  shows "Compare (InternalKeyComparator BytewiseComparator)
      (InternalKey_new u1 s1 t1) (InternalKey_new u2 s2 t2) < 0
    \<longleftrightarrow> u1 < u2 \<or> u1 = u2 \<and> (s2 < s1 \<or> s1 = s2 \<and> t1 = kTypeValue \<and> t2 = kTypeDeletion)"
  using InternalKeyCompare_new [OF assms] by (simp add: InternalKeyComparator_def)

theorem internal_key_order_newest_first_witness:
  "(7 :: u64) \<le> kMaxSequenceNumber \<and> (3 :: u64) \<le> kMaxSequenceNumber \<and>
   Compare (InternalKeyComparator BytewiseComparator)
     (InternalKey_new (cstr ''a'') 7 kTypeDeletion) (InternalKey_new (cstr ''a'') 3 kTypeValue) < 0"
proof -
  have h: "(7 :: u64) \<le> kMaxSequenceNumber" "(3 :: u64) \<le> kMaxSequenceNumber"
    by (simp_all add: kMaxSequenceNumber_def)
  have "(3 :: u64) < 7" by simp
  then show ?thesis using h internal_key_order_newest_first [OF h] by blast
qed

text \<open>C19: the separator that the internal comparator computes for two keys in order lies between
  them: not before the first and before the second.\<close>

theorem internal_separator_between:
  assumes "8 \<le> length start" and "8 \<le> length limit"
    and "Compare (InternalKeyComparator BytewiseComparator) start limit < 0"
  shows "Compare (InternalKeyComparator BytewiseComparator) start
      (FindShortestSeparator (InternalKeyComparator BytewiseComparator) start limit) \<le> 0 \<and>
    Compare (InternalKeyComparator BytewiseComparator)
      (FindShortestSeparator (InternalKeyComparator BytewiseComparator) start limit) limit < 0 \<and>
    8 \<le> length (FindShortestSeparator (InternalKeyComparator BytewiseComparator) start limit)"
  using internal_bytewise.separator_bounds [OF _ _ assms(3)] assms(1,2)
  by (simp add: internal_valid_def)

theorem internal_separator_between_witness:
  "8 \<le> length (InternalKey_new (cstr ''abcd'') 5 kTypeValue) \<and>
   Compare (InternalKeyComparator BytewiseComparator)
     (FindShortestSeparator (InternalKeyComparator BytewiseComparator)
       (InternalKey_new (cstr ''abcd'') 5 kTypeValue) (InternalKey_new (cstr ''azzz'') 9 kTypeValue))
     (InternalKey_new (cstr ''azzz'') 9 kTypeValue) < 0"
proof -
  let ?s = "InternalKey_new (cstr ''abcd'') 5 kTypeValue"
  let ?l = "InternalKey_new (cstr ''azzz'') 9 kTypeValue"
  have l: "8 \<le> length ?s" "8 \<le> length ?l" by simp_all
  have "(cstr ''abcd'') < (cstr ''azzz'')" by (simp add: cstr_def)
  moreover have "(5 :: u64) \<le> kMaxSequenceNumber" "(9 :: u64) \<le> kMaxSequenceNumber"
    by (simp_all add: kMaxSequenceNumber_def)
  ultimately have h: "Compare (InternalKeyComparator BytewiseComparator) ?s ?l < 0"
    by (simp add: InternalKeyComparator_def InternalKeyCompare_new)
  show ?thesis using l internal_separator_between [OF l h] by blast
qed

end
