(* ===== verification/Ldb_Filter.thy ===== *)
theory Ldb_Filter
  imports Ldb_Dbformat
begin

section \<open>leveldb: filters (util/hash.cc, util/bloom.cc, table/filter_block.cc)\<close>

text \<open>
  A filter summarises a set of keys so that a table that cannot hold a key need not be read.
  The one promise of a \<open>FilterPolicy\<close>, the locale \<open>filter_policy\<close>, is that a key it was built
  from always matches. The Bloom filter keeps it, the wrapper for internal keys keeps it when
  the wrapped policy does, and the filter block (one filter for every 2 KB of table) keeps it
  for every block of the table.
\<close>

subsection \<open>The hash function\<close>

definition hash_m :: u32 where
  "hash_m = 0xc6a4a793"

fun Hash_loop :: "u32 \<Rightarrow> bytes \<Rightarrow> u32 \<times> bytes" where
  "Hash_loop h (a # b # c # d # rest) =
     (let w = DecodeFixed32 [a, b, c, d];
          h1 = (h + w) * hash_m
      in Hash_loop (h1 XOR drop_bit 16 h1) rest)"
| "Hash_loop h rest = (h, rest)"

text \<open>The switch on the remaining bytes falls through from three to two to one.\<close>

definition Hash_tail :: "u32 \<Rightarrow> bytes \<Rightarrow> u32" where
  "Hash_tail h rest =
     (let h3 = (if length rest = 3 then h + push_bit 16 (ucast (rest ! 2)) else h);
          h2 = (if length rest \<ge> 2 then h3 + push_bit 8 (ucast (rest ! 1)) else h3)
      in if length rest \<ge> 1 then
           (let h1 = (h2 + ucast (rest ! 0)) * hash_m in h1 XOR drop_bit 24 h1)
         else h2)"

definition Hash :: "bytes \<Rightarrow> u32 \<Rightarrow> u32" where
  "Hash data seed =
     (let h = seed XOR (word_of_nat (length data) * hash_m);
          (h', rest) = Hash_loop h data
      in Hash_tail h' rest)"

subsection \<open>Filter policies\<close>

record filter_policy_ops =
  CreateFilter :: "bytes list \<Rightarrow> bytes \<Rightarrow> bytes"
  KeyMayMatch :: "bytes \<Rightarrow> bytes \<Rightarrow> bool"
  PolicyName :: bytes

subsection \<open>The Bloom filter\<close>

definition BloomHash :: "bytes \<Rightarrow> u32" where
  "BloomHash key = Hash key 0xbc9f1d34"

record BloomFilterPolicy =
  bits_per_key :: nat
  bloom_k :: nat

text \<open>The constructor truncates the product of the \<open>int\<close> argument with the \<open>double\<close> 0.69. For
  an argument below 100 the product is not within rounding of an integer, so the truncation
  is the integer part of 69/100 of the argument; from 100 on both are above 30 and cut off.\<close>

definition BloomFilterPolicy_new :: "nat \<Rightarrow> BloomFilterPolicy" where
  "BloomFilterPolicy_new bpk =
     (let k = bpk * 69 div 100;
          k1 = (if k < 1 then 1 else k);
          k2 = (if k1 > 30 then 30 else k1)
      in \<lparr>bits_per_key = bpk, bloom_k = k2\<rparr>)"

definition rotate_delta :: "u32 \<Rightarrow> u32" where
  "rotate_delta h = drop_bit 17 h OR push_bit 15 h"

definition set_array_bit :: "nat \<Rightarrow> bytes \<Rightarrow> bytes" where
  "set_array_bit bitpos array =
     array[bitpos div 8 := (array ! (bitpos div 8)) OR push_bit (bitpos mod 8) 1]"

fun BloomAddKey_loop :: "nat \<Rightarrow> nat \<Rightarrow> u32 \<Rightarrow> u32 \<Rightarrow> bytes \<Rightarrow> bytes" where
  "BloomAddKey_loop 0 bits delta h array = array"
| "BloomAddKey_loop (Suc j) bits delta h array =
     BloomAddKey_loop j bits delta (h + delta) (set_array_bit (unat h mod bits) array)"

definition BloomAddKey :: "nat \<Rightarrow> nat \<Rightarrow> bytes \<Rightarrow> bytes \<Rightarrow> bytes" where
  "BloomAddKey k bits key array =
     (let h = BloomHash key in BloomAddKey_loop k bits (rotate_delta h) h array)"

definition BloomCreateFilter :: "BloomFilterPolicy \<Rightarrow> bytes list \<Rightarrow> bytes \<Rightarrow> bytes" where
  "BloomCreateFilter p keys dst =
     (let bits0 = length keys * bits_per_key p;
          bits1 = (if bits0 < 64 then 64 else bits0);
          nbytes = (bits1 + 7) div 8;
          bits = nbytes * 8;
          array = fold (BloomAddKey (bloom_k p) bits) keys (replicate nbytes 0)
      in dst @ array @ [word_of_nat (bloom_k p)])"

fun BloomProbe_loop :: "nat \<Rightarrow> nat \<Rightarrow> u32 \<Rightarrow> u32 \<Rightarrow> bytes \<Rightarrow> bool" where
  "BloomProbe_loop 0 bits delta h array = True"
| "BloomProbe_loop (Suc j) bits delta h array =
     (let bitpos = unat h mod bits in
      if (array ! (bitpos div 8)) AND push_bit (bitpos mod 8) 1 = 0 then False
      else BloomProbe_loop j bits delta (h + delta) array)"

text \<open>The number of probes is read from a signed \<open>char\<close> into a \<open>size_t\<close>.\<close>

definition BloomKeyMayMatch :: "bytes \<Rightarrow> bytes \<Rightarrow> bool" where
  "BloomKeyMayMatch key bloom_filter =
     (let len = length bloom_filter in
      if len < 2 then False
      else
        (let bits = (len - 1) * 8;
             k = unat (scast (bloom_filter ! (len - 1)) :: u64)
         in if k > 30 then True
            else
              (let h = BloomHash key in BloomProbe_loop k bits (rotate_delta h) h bloom_filter)))"

definition NewBloomFilterPolicy :: "nat \<Rightarrow> filter_policy_ops" where
  "NewBloomFilterPolicy bpk =
     \<lparr>CreateFilter = BloomCreateFilter (BloomFilterPolicy_new bpk), KeyMayMatch = BloomKeyMayMatch,
      PolicyName = cstr ''leveldb.BuiltinBloomFilter2''\<rparr>"

subsection \<open>The policy on internal keys\<close>

definition InternalFilterPolicy :: "filter_policy_ops \<Rightarrow> filter_policy_ops" where
  "InternalFilterPolicy user_policy =
     \<lparr>CreateFilter = (\<lambda>keys dst. CreateFilter user_policy (map ExtractUserKey keys) dst),
      KeyMayMatch = (\<lambda>key f. KeyMayMatch user_policy (ExtractUserKey key) f), PolicyName = PolicyName user_policy\<rparr>"

subsection \<open>Building a filter block\<close>

definition kFilterBaseLg :: nat where
  "kFilterBaseLg = 11"

definition kFilterBase :: nat where
  "kFilterBase = 2 ^ kFilterBaseLg"

text \<open>The keys of the current filter are kept flattened in \<open>fb_keys\<close> with their start offsets.
  The scratch vector \<open>tmp_keys_\<close> is empty between calls.\<close>

record FilterBlockBuilder =
  fb_keys :: bytes
  fb_start :: "nat list"
  fb_result :: bytes
  fb_filter_offsets :: "u32 list"

definition FilterBlockBuilder_new :: FilterBlockBuilder where
  "FilterBlockBuilder_new =
     \<lparr>fb_keys = [], fb_start = [], fb_result = [], fb_filter_offsets = []\<rparr>"

definition GenerateFilter :: "filter_policy_ops \<Rightarrow> FilterBlockBuilder \<Rightarrow> FilterBlockBuilder" where
  "GenerateFilter policy b =
     (let num_keys = length (fb_start b);
          offsets = fb_filter_offsets b @ [word_of_nat (length (fb_result b))]
      in if num_keys = 0 then b\<lparr>fb_filter_offsets := offsets\<rparr>
         else
           (let start = fb_start b @ [length (fb_keys b)];
                tmp_keys = map (\<lambda>i. take (start ! (i + 1) - start ! i) (drop (start ! i) (fb_keys b)))
                  [0..<num_keys]
            in b\<lparr>fb_filter_offsets := offsets,
                 fb_result := CreateFilter policy tmp_keys (fb_result b),
                 fb_keys := [], fb_start := []\<rparr>))"

lemma GenerateFilter_offsets [simp]:
  "length (fb_filter_offsets (GenerateFilter policy b)) = length (fb_filter_offsets b) + 1"
  by (simp add: GenerateFilter_def Let_def)

function StartBlock_loop :: "filter_policy_ops \<Rightarrow> nat \<Rightarrow> FilterBlockBuilder \<Rightarrow> FilterBlockBuilder" where
  "StartBlock_loop policy filter_index b =
     (if filter_index > length (fb_filter_offsets b)
      then StartBlock_loop policy filter_index (GenerateFilter policy b) else b)"
  by pat_completeness auto
termination
  by (relation "measure (\<lambda>(p, i, b). i - length (fb_filter_offsets b))") auto

declare StartBlock_loop.simps [simp del]

definition StartBlock :: "filter_policy_ops \<Rightarrow> u64 \<Rightarrow> FilterBlockBuilder \<Rightarrow> FilterBlockBuilder" where
  "StartBlock policy block_offset b = StartBlock_loop policy (unat block_offset div kFilterBase) b"

definition AddKey :: "bytes \<Rightarrow> FilterBlockBuilder \<Rightarrow> FilterBlockBuilder" where
  "AddKey key b = b\<lparr>fb_start := fb_start b @ [length (fb_keys b)], fb_keys := fb_keys b @ key\<rparr>"

definition FilterBlock_Finish :: "filter_policy_ops \<Rightarrow> FilterBlockBuilder \<Rightarrow> bytes" where
  "FilterBlock_Finish policy b0 =
     (let b = (if fb_start b0 \<noteq> [] then GenerateFilter policy b0 else b0);
          array_offset = word_of_nat (length (fb_result b)) :: u32;
          result = fold (\<lambda>offset r. PutFixed32 r offset) (fb_filter_offsets b) (fb_result b)
      in PutFixed32 result array_offset @ [word_of_nat kFilterBaseLg])"

subsection \<open>Reading a filter block\<close>

text \<open>\<open>fr_offset\<close> is the distance \<open>offset_ - data_\<close>. A block that is malformed leaves the number
  of filters at zero.\<close>

record FilterBlockReader =
  fr_data :: bytes
  fr_offset :: nat
  fr_num :: nat
  fr_base_lg :: nat

definition FilterBlockReader_new :: "bytes \<Rightarrow> FilterBlockReader" where
  "FilterBlockReader_new contents =
     (let n = length contents in
      if n < 5 then \<lparr>fr_data = [], fr_offset = 0, fr_num = 0, fr_base_lg = 0\<rparr>
      else
        (let base_lg = unat (scast (contents ! (n - 1)) :: u64);
             last_word = unat (DecodeFixed32 (drop (n - 5) contents))
         in if last_word > n - 5
            then \<lparr>fr_data = [], fr_offset = 0, fr_num = 0, fr_base_lg = base_lg\<rparr>
            else \<lparr>fr_data = contents, fr_offset = last_word, fr_num = (n - 5 - last_word) div 4,
                  fr_base_lg = base_lg\<rparr>))"

definition FilterBlockKeyMayMatch ::
    "filter_policy_ops \<Rightarrow> FilterBlockReader \<Rightarrow> u64 \<Rightarrow> bytes \<Rightarrow> bool" where
  "FilterBlockKeyMayMatch policy r block_offset key =
     (let index = unat (drop_bit (fr_base_lg r) block_offset) in
      if index < fr_num r then
        (let start = unat (DecodeFixed32 (drop (fr_offset r + index * 4) (fr_data r)));
             limit = unat (DecodeFixed32 (drop (fr_offset r + index * 4 + 4) (fr_data r)))
         in if start \<le> limit \<and> limit \<le> fr_offset r
            then KeyMayMatch policy key (take (limit - start) (drop start (fr_data r)))
            else if start = limit then False
            else True)
      else True)"

subsection \<open>The contract of a filter policy\<close>

locale filter_policy =
  fixes policy :: filter_policy_ops
  assumes create_appends: "CreateFilter policy keys dst = dst @ CreateFilter policy keys []"
    and no_false_negative: "key \<in> set keys \<Longrightarrow> KeyMayMatch policy key (CreateFilter policy keys [])"

subsection \<open>The Bloom filter has no false negatives\<close>

definition bloom_has :: "bytes \<Rightarrow> nat \<Rightarrow> bool" where
  "bloom_has array p \<longleftrightarrow> (array ! (p div 8)) AND push_bit (p mod 8) 1 \<noteq> 0"

lemma byte_and_bit: "i < 8 \<Longrightarrow> (b :: byte) AND push_bit i 1 \<noteq> 0 \<longleftrightarrow> bit b i"
  by (auto simp: bit_iff_and_push_bit_not_eq_0)

lemma bloom_has_bit: "bloom_has array p \<longleftrightarrow> bit (array ! (p div 8)) (p mod 8)"
  unfolding bloom_has_def by (rule byte_and_bit) simp

lemma length_set_array_bit [simp]: "length (set_array_bit p array) = length array"
  by (simp add: set_array_bit_def)

lemma set_array_bit_sets: "p div 8 < length array \<Longrightarrow> bloom_has (set_array_bit p array) p"
  by (simp add: bloom_has_bit set_array_bit_def bit_simps)

lemma set_array_bit_keeps:
  "p div 8 < length array \<Longrightarrow> bloom_has array p \<Longrightarrow> bloom_has (set_array_bit q array) p"
  by (cases "q div 8 = p div 8") (auto simp: bloom_has_bit set_array_bit_def bit_simps)

definition bloom_mono :: "bytes \<Rightarrow> bytes \<Rightarrow> bool" where
  "bloom_mono a b \<longleftrightarrow>
     length a \<le> length b \<and> (\<forall>p. p div 8 < length a \<longrightarrow> bloom_has a p \<longrightarrow> bloom_has b p)"

lemma bloom_mono_refl [simp]: "bloom_mono a a"
  by (simp add: bloom_mono_def)

lemma bloom_mono_trans: "bloom_mono a b \<Longrightarrow> bloom_mono b c \<Longrightarrow> bloom_mono a c"
  by (auto simp: bloom_mono_def intro: less_le_trans)

lemma bloom_mono_set: "bloom_mono a (set_array_bit q a)"
  by (auto simp: bloom_mono_def intro: set_array_bit_keeps)

lemma bloom_mono_append: "bloom_mono a (a @ x)"
  by (auto simp: bloom_mono_def bloom_has_def nth_append)

lemma BloomAddKey_loop_mono:
  "bloom_mono a (BloomAddKey_loop j bits delta h a) \<and> length (BloomAddKey_loop j bits delta h a) = length a"
proof (induction j arbitrary: h a)
  case (Suc j)
  let ?a = "set_array_bit (unat h mod bits) a"
  have "bloom_mono ?a (BloomAddKey_loop j bits delta (h + delta) ?a)" using Suc.IH by blast
  from bloom_mono_trans [OF bloom_mono_set this] Suc.IH show ?case by simp
qed simp

lemma BloomProbe_loop_mono:
  "bloom_mono a b \<Longrightarrow> bits = length a * 8 \<Longrightarrow> 0 < bits \<Longrightarrow>
   BloomProbe_loop j bits delta h a \<Longrightarrow> BloomProbe_loop j bits delta h b"
proof (induction j arbitrary: h)
  case (Suc j)
  have "unat h mod bits < length a * 8" using Suc.prems(2,3) by simp
  then have "(unat h mod bits) div 8 < length a" by (simp add: less_mult_imp_div_less)
  with Suc show ?case by (auto simp: Let_def bloom_mono_def bloom_has_def split: if_splits)
qed simp

lemma BloomProbe_after_add:
  "bits = length a * 8 \<Longrightarrow> 0 < bits \<Longrightarrow>
   BloomProbe_loop j bits delta h (BloomAddKey_loop j bits delta h a)"
proof (induction j arbitrary: h a)
  case (Suc j)
  let ?p = "unat h mod bits"
  let ?a = "set_array_bit ?p a"
  let ?b = "BloomAddKey_loop j bits delta (h + delta) ?a"
  have "?p < length a * 8" using Suc.prems by simp
  then have p: "?p div 8 < length a" by (simp add: less_mult_imp_div_less)
  then have "bloom_has ?b ?p"
    using set_array_bit_sets BloomAddKey_loop_mono [of ?a j bits delta "h + delta"]
    by (auto simp: bloom_mono_def)
  moreover have "BloomProbe_loop j bits delta (h + delta) ?b"
    using Suc.IH [of ?a] Suc.prems by simp
  ultimately show ?case by (simp add: bloom_has_def Let_def)
qed simp

lemma BloomAddKey_fold_mono:
  "bloom_mono a (fold (BloomAddKey k bits) keys a) \<and> length (fold (BloomAddKey k bits) keys a) = length a"
proof (induction keys arbitrary: a)
  case (Cons key keys)
  have "bloom_mono a (BloomAddKey k bits key a) \<and> length (BloomAddKey k bits key a) = length a"
    by (simp add: BloomAddKey_def Let_def BloomAddKey_loop_mono)
  with Cons show ?case using bloom_mono_trans by (metis fold_simps(2))
qed simp

lemma BloomProbe_fold:
  assumes "key \<in> set keys" and "bits = length a * 8" and "0 < bits"
  shows "BloomProbe_loop k bits (rotate_delta (BloomHash key)) (BloomHash key)
    (fold (BloomAddKey k bits) keys a)"
  using assms
proof (induction keys arbitrary: a)
  case (Cons x keys)
  let ?a = "BloomAddKey k bits x a"
  have len: "length ?a = length a"
    by (simp add: BloomAddKey_def Let_def BloomAddKey_loop_mono)
  show ?case
  proof (cases "key = x")
    case True
    have "BloomProbe_loop k bits (rotate_delta (BloomHash key)) (BloomHash key) ?a"
      using BloomProbe_after_add Cons.prems(2,3) True by (simp add: BloomAddKey_def Let_def)
    moreover have "bloom_mono ?a (fold (BloomAddKey k bits) keys ?a)"
      using BloomAddKey_fold_mono by blast
    ultimately show ?thesis
      using BloomProbe_loop_mono Cons.prems(2,3) len by (metis fold_simps(2))
  next
    case False
    then have "key \<in> set keys" using Cons.prems(1) by simp
    moreover have "bits = length ?a * 8" using Cons.prems(2) len by simp
    ultimately show ?thesis using Cons.IH [of ?a] Cons.prems(3) by simp
  qed
qed simp

lemma bloom_k_bounds: "1 \<le> bloom_k (BloomFilterPolicy_new bpk)" "bloom_k (BloomFilterPolicy_new bpk) \<le> 30"
  by (simp_all add: BloomFilterPolicy_new_def Let_def)

lemma scast_small_byte: "k \<le> 30 \<Longrightarrow> unat (scast (word_of_nat k :: byte) :: u64) = k"
proof -
  assume k: "k \<le> 30"
  then have "k \<in> set [0..<31]" by simp
  then show ?thesis by (auto simp: upt_rec)
qed

lemma BloomKeyMayMatch_created:
  assumes "key \<in> set keys"
  shows "BloomKeyMayMatch key (BloomCreateFilter (BloomFilterPolicy_new bpk) keys [])"
proof -
  let ?p = "BloomFilterPolicy_new bpk"
  define bits1 where "bits1 = (if length keys * bits_per_key ?p < 64 then 64 else length keys * bits_per_key ?p)"
  define n where "n = (bits1 + 7) div 8"
  define array where "array = fold (BloomAddKey (bloom_k ?p) (n * 8)) keys (replicate n 0)"
  have "64 \<le> bits1" by (simp add: bits1_def)
  then have n: "8 \<le> n" by (simp add: n_def)
  have len: "length array = n" using BloomAddKey_fold_mono by (simp add: array_def)
  have f: "BloomCreateFilter ?p keys [] = array @ [word_of_nat (bloom_k ?p)]"
    by (simp add: BloomCreateFilter_def Let_def array_def n_def bits1_def)
  have "BloomProbe_loop (bloom_k ?p) (n * 8) (rotate_delta (BloomHash key)) (BloomHash key) array"
    unfolding array_def using assms n by (intro BloomProbe_fold) simp_all
  then have "BloomProbe_loop (bloom_k ?p) (n * 8) (rotate_delta (BloomHash key)) (BloomHash key)
      (array @ [word_of_nat (bloom_k ?p)])"
    using n len by (intro BloomProbe_loop_mono [OF bloom_mono_append [of array]]) simp_all
  then show ?thesis
    using n len bloom_k_bounds [of bpk] scast_small_byte [of "bloom_k ?p"]
    by (simp add: f BloomKeyMayMatch_def Let_def nth_append)
qed

lemma BloomCreateFilter_appends: "BloomCreateFilter p keys dst = dst @ BloomCreateFilter p keys []"
  by (simp add: BloomCreateFilter_def Let_def)

lemma bloom_filter_policy: "filter_policy (NewBloomFilterPolicy bpk)"
  by unfold_locales
    (simp_all add: NewBloomFilterPolicy_def BloomKeyMayMatch_created, rule BloomCreateFilter_appends)

interpretation bloom: filter_policy "NewBloomFilterPolicy bpk" for bpk
  by (rule bloom_filter_policy)

context filter_policy
begin

lemma internal_filter_policy: "filter_policy (InternalFilterPolicy policy)"
  by unfold_locales
    (simp_all add: InternalFilterPolicy_def no_false_negative, rule create_appends)

end

interpretation internal_bloom: filter_policy "InternalFilterPolicy (NewBloomFilterPolicy bpk)" for bpk
  by (rule bloom.internal_filter_policy)

text \<open>C17: a Bloom filter never has a false negative: whatever number of bits per key it is
  configured with, the filter that \<open>CreateFilter\<close> appends for a list of keys matches every one
  of these keys.\<close>

theorem bloom_no_false_negative:
  "key \<in> set keys \<Longrightarrow>
   KeyMayMatch (NewBloomFilterPolicy bpk) key
     (drop (length dst) (CreateFilter (NewBloomFilterPolicy bpk) keys dst))"
  using bloom.no_false_negative [of key keys bpk] bloom.create_appends [of bpk keys dst]
  by (metis append_eq_conv_conj)

theorem bloom_no_false_negative_witness:
  "KeyMayMatch (NewBloomFilterPolicy 10) [98]
     (drop 2 (CreateFilter (NewBloomFilterPolicy 10) [[97], [98], []] [7, 7]))"
  using bloom_no_false_negative [of "[98]" "[[97], [98], []]" 10 "[7, 7]"] by (simp add: numeral_2_eq_2)

subsection \<open>What a filter block holds\<close>

fun starts_of :: "nat \<Rightarrow> bytes list \<Rightarrow> nat list" where
  "starts_of n [] = []"
| "starts_of n (x # xs) = n # starts_of (n + length x) xs"

lemma length_starts_of [simp]: "length (starts_of n xs) = length xs"
  by (induction xs arbitrary: n) auto

lemma starts_of_append: "starts_of n (xs @ ys) = starts_of n xs @ starts_of (n + length (concat xs)) ys"
  by (induction xs arbitrary: n) (auto simp: add.assoc)

lemma starts_of_nth:
  "i \<le> length xs \<Longrightarrow> (starts_of n xs @ [n + length (concat xs)]) ! i = n + length (concat (take i xs))"
proof (induction xs arbitrary: n i)
  case (Cons x xs)
  show ?case
  proof (cases i)
    case (Suc j)
    with Cons.IH [of j "n + length x"] Cons.prems show ?thesis by (simp add: add.assoc)
  qed simp
qed simp

lemma concat_slice:
  "i < length xs \<Longrightarrow>
   take (length (concat (take (Suc i) xs)) - length (concat (take i xs)))
     (drop (length (concat (take i xs))) (concat xs @ r)) = xs ! i"
proof -
  assume i: "i < length xs"
  then have "concat xs = concat (take i xs) @ xs ! i @ concat (drop (Suc i) xs)"
    by (metis concat.simps(2) concat_append id_take_nth_drop)
  moreover have "concat (take (Suc i) xs) = concat (take i xs) @ xs ! i"
    using i by (simp add: take_Suc_conv_app_nth)
  ultimately show ?thesis by simp
qed

definition fixed32s :: "u32 list \<Rightarrow> bytes" where
  "fixed32s ws = concat (map EncodeFixed32 ws)"

lemma fixed32s_snoc: "fixed32s (ws @ [w]) = fixed32s ws @ EncodeFixed32 w"
  by (simp add: fixed32s_def)

lemma length_fixed32s [simp]: "length (fixed32s ws) = 4 * length ws"
  by (induction ws) (simp_all add: fixed32s_def)

lemma DecodeFixed32_drop_fixed32s:
  "i < length ws \<Longrightarrow> DecodeFixed32 (drop (i * 4) (fixed32s ws @ r)) = ws ! i"
proof (induction ws arbitrary: i)
  case (Cons w ws)
  then show ?case by (cases i) (simp_all add: fixed32s_def algebra_simps codec_simps)
qed simp

lemma PutFixed32_eq: "PutFixed32 r w = r @ EncodeFixed32 w"
  by (simp add: PutFixed32_def)

definition fb_filter :: "filter_policy_ops \<Rightarrow> bytes list \<Rightarrow> bytes" where
  "fb_filter policy ks = (if ks = [] then [] else CreateFilter policy ks [])"

text \<open>The state of a builder that has finished the filters for the key lists \<open>gens\<close> and holds
  the keys \<open>cur\<close> for the next one.\<close>

definition fb_holds ::
    "filter_policy_ops \<Rightarrow> FilterBlockBuilder \<Rightarrow> bytes list list \<Rightarrow> bytes list \<Rightarrow> bool" where
  "fb_holds policy b gens cur \<longleftrightarrow>
     fb_keys b = concat cur \<and> fb_start b = starts_of 0 cur \<and>
     fb_result b = concat (map (fb_filter policy) gens) \<and>
     fb_filter_offsets b = map word_of_nat (starts_of 0 (map (fb_filter policy) gens))"

lemma fb_holds_new: "fb_holds policy FilterBlockBuilder_new [] []"
  by (simp add: fb_holds_def FilterBlockBuilder_new_def)

lemma fb_holds_offsets: "fb_holds policy b gens cur \<Longrightarrow> length (fb_filter_offsets b) = length gens"
  by (simp add: fb_holds_def)

lemma fb_holds_AddKey: "fb_holds policy b gens cur \<Longrightarrow> fb_holds policy (AddKey k b) gens (cur @ [k])"
  by (simp add: fb_holds_def AddKey_def starts_of_append)

lemma fb_holds_AddKeys: "fb_holds policy b gens cur \<Longrightarrow> fb_holds policy (fold AddKey ks b) gens (cur @ ks)"
proof (induction ks arbitrary: b cur)
  case (Cons k ks)
  from Cons.IH [OF fb_holds_AddKey [OF Cons.prems]] show ?case by simp
qed simp

lemma tmp_keys_slices:
  "map (\<lambda>i. take ((starts_of 0 cur @ [length (concat cur)]) ! (i + 1) - (starts_of 0 cur @ [length (concat cur)]) ! i)
       (drop ((starts_of 0 cur @ [length (concat cur)]) ! i) (concat cur))) [0..<length cur] = cur"
  using starts_of_nth [of _ cur 0] concat_slice [of _ cur "[]"]
  by (intro nth_equalityI) (simp_all add: Suc_leI)

definition fb_recorded :: "(u64 \<times> bytes list) list \<Rightarrow> bytes list list \<Rightarrow> bytes list \<Rightarrow> bool" where
  "fb_recorded blocks gens cur \<longleftrightarrow>
     (\<forall>off ks k. (off, ks) \<in> set blocks \<longrightarrow> k \<in> set ks \<longrightarrow>
        unat off div kFilterBase \<le> length gens \<and>
        k \<in> set ((gens @ [cur]) ! (unat off div kFilterBase)))"

definition add_block :: "filter_policy_ops \<Rightarrow> u64 \<times> bytes list \<Rightarrow> FilterBlockBuilder \<Rightarrow> FilterBlockBuilder" where
  "add_block policy blk b = fold AddKey (snd blk) (StartBlock policy (fst blk) b)"

definition build_filter_block :: "filter_policy_ops \<Rightarrow> (u64 \<times> bytes list) list \<Rightarrow> bytes" where
  "build_filter_block policy blocks =
     FilterBlock_Finish policy (fold (add_block policy) blocks FilterBlockBuilder_new)"

context filter_policy
begin

lemma fb_holds_Generate:
  assumes "fb_holds policy b gens cur"
  shows "fb_holds policy (GenerateFilter policy b) (gens @ [cur]) []"
proof (cases "cur = []")
  case True
  with assms show ?thesis
    by (simp add: fb_holds_def GenerateFilter_def Let_def fb_filter_def starts_of_append)
next
  case False
  then show ?thesis
    using assms tmp_keys_slices [of cur] create_appends [of cur "fb_result b"]
    by (simp add: fb_holds_def GenerateFilter_def Let_def fb_filter_def starts_of_append)
qed

lemma fb_holds_StartBlock_loop:
  "fb_holds policy b gens cur \<Longrightarrow> length gens \<le> idx \<Longrightarrow>
   (if idx = length gens then fb_holds policy (StartBlock_loop policy idx b) gens cur
    else fb_holds policy (StartBlock_loop policy idx b)
           (gens @ [cur] @ replicate (idx - length gens - 1) []) [])"
proof (induction "idx - length gens" arbitrary: b gens cur)
  case 0
  then have "idx = length gens" "length (fb_filter_offsets b) = length gens"
    by (simp_all add: fb_holds_offsets)
  with 0 show ?case by (simp add: StartBlock_loop.simps [of policy "length gens" b])
next
  case (Suc n)
  then have i: "length gens < idx" by simp
  have h: "fb_holds policy (GenerateFilter policy b) (gens @ [cur]) []"
    using Suc.prems(1) by (rule fb_holds_Generate)
  have u: "StartBlock_loop policy idx b = StartBlock_loop policy idx (GenerateFilter policy b)"
    using i fb_holds_offsets [OF Suc.prems(1)] by (simp add: StartBlock_loop.simps [of policy idx b])
  have "n = idx - length (gens @ [cur])" "length (gens @ [cur]) \<le> idx" using Suc.hyps(2) i by simp_all
  from Suc.hyps(1) [OF this(1) h this(2)] i show ?case unfolding u
    by (cases "idx = Suc (length gens)") (simp_all add: replicate_Suc [symmetric] Suc_diff_Suc del: replicate_Suc)
qed

lemma fb_holds_StartBlock:
  assumes "fb_holds policy b gens cur" "length gens \<le> unat off div kFilterBase"
  obtains gens' cur' where "fb_holds policy (StartBlock policy off b) gens' cur'"
    "length gens' = unat off div kFilterBase"
    "\<And>i. i < length gens' \<Longrightarrow> set ((gens @ [cur]) ! i) \<subseteq> set (gens' ! i) \<or> length gens < i"
    "length gens = length gens' \<Longrightarrow> gens' = gens \<and> cur' = cur"
proof (cases "unat off div kFilterBase = length gens")
  case True
  have "fb_holds policy (StartBlock policy off b) gens cur"
    using fb_holds_StartBlock_loop [OF assms] by (simp add: StartBlock_def True)
  from that [OF this True [symmetric]] show ?thesis by (simp add: nth_append)
next
  case False
  let ?g = "gens @ [cur] @ replicate (unat off div kFilterBase - length gens - 1) []"
  have "fb_holds policy (StartBlock policy off b) ?g []"
    using fb_holds_StartBlock_loop [OF assms] False by (simp add: StartBlock_def)
  moreover have "length ?g = unat off div kFilterBase" using False assms(2) by simp
  ultimately show ?thesis by (rule that) (auto simp: nth_append)
qed

lemma fb_keys_recorded:
  assumes "sorted (map (\<lambda>blk. unat (fst blk)) blocks)"
  shows "\<exists>gens cur. fb_holds policy (fold (add_block policy) blocks FilterBlockBuilder_new) gens cur \<and>
    length gens \<le> (if blocks = [] then 0 else unat (fst (last blocks)) div kFilterBase) \<and>
    fb_recorded blocks gens cur"
  using assms
proof (induction blocks rule: rev_induct)
  case Nil
  then show ?case using fb_holds_new by (force simp: fb_recorded_def)
next
  case (snoc blk blocks)
  obtain off ks where blk: "blk = (off, ks)" by (cases blk)
  let ?b = "fold (add_block policy) blocks FilterBlockBuilder_new"
  have srt: "sorted (map (\<lambda>blk. unat (fst blk)) blocks)" "\<forall>blk \<in> set blocks. unat (fst blk) \<le> unat off"
    using snoc.prems by (auto simp: blk sorted_append)
  from snoc.IH [OF srt(1)] obtain gens cur where h: "fb_holds policy ?b gens cur"
    and le: "length gens \<le> (if blocks = [] then 0 else unat (fst (last blocks)) div kFilterBase)"
    and rec: "fb_recorded blocks gens cur"
    by blast
  have le': "length gens \<le> unat off div kFilterBase"
  proof (cases "blocks = []")
    case False
    then have "unat (fst (last blocks)) div kFilterBase \<le> unat off div kFilterBase"
      using srt(2) by (simp add: div_le_mono)
    with le False show ?thesis by simp
  qed (use le in simp)
  from fb_holds_StartBlock [OF h le'] obtain gens' cur' where
    h': "fb_holds policy (StartBlock policy off ?b) gens' cur'"
    and len': "length gens' = unat off div kFilterBase"
    and grow: "\<And>i. i < length gens' \<Longrightarrow> set ((gens @ [cur]) ! i) \<subseteq> set (gens' ! i) \<or> length gens < i"
    and same: "length gens = length gens' \<Longrightarrow> gens' = gens \<and> cur' = cur"
    by blast
  have "fb_holds policy (add_block policy blk ?b) gens' (cur' @ ks)"
    using fb_holds_AddKeys [OF h'] by (simp add: add_block_def blk)
  moreover
  have "unat off' div kFilterBase \<le> length gens' \<and>
      k \<in> set ((gens' @ [cur' @ ks]) ! (unat off' div kFilterBase))"
    if "(off', ks') \<in> set (blocks @ [blk])" "k \<in> set ks'" for off' ks' k
  proof (cases "(off', ks') \<in> set blocks")
    case True
    with rec that(2) have r: "unat off' div kFilterBase \<le> length gens"
      "k \<in> set ((gens @ [cur]) ! (unat off' div kFilterBase))" unfolding fb_recorded_def by blast+
    show ?thesis
    proof (cases "unat off' div kFilterBase < length gens'")
      case True
      with grow [OF True] r show ?thesis by (auto simp: nth_append)
    next
      case False
      with r(1) le' len' have e: "unat off' div kFilterBase = length gens" and l: "length gens = length gens'"
        by simp_all
      from same [OF l] have g: "gens' = gens" "cur' = cur" by simp_all
      from r(2) show ?thesis unfolding g e by simp
    qed
  next
    case False
    with that blk have k: "off' = off" "ks' = ks" by simp_all
    from that(2) show ?thesis unfolding k len' [symmetric] by simp
  qed
  then have "fb_recorded (blocks @ [blk]) gens' (cur' @ ks)" unfolding fb_recorded_def by blast
  moreover have "length gens' \<le> unat (fst (last (blocks @ [blk]))) div kFilterBase"
    by (simp add: len' blk)
  ultimately show ?case by (intro exI [of _ gens'] exI [of _ "cur' @ ks"] conjI) simp_all
qed

end

lemma fold_PutFixed32: "fold (\<lambda>offset r. r @ EncodeFixed32 offset) ws r = r @ fixed32s ws"
  by (induction ws arbitrary: r) (simp_all add: fixed32s_def)

text \<open>A finished block holds the filters, their offsets, the offset of the offsets and the base,
  and the reader takes filter number \<open>i\<close> from it.\<close>

definition filter_block_contents :: "bytes list \<Rightarrow> bytes" where
  "filter_block_contents filters =
     concat filters @
     fixed32s (map word_of_nat (starts_of 0 filters @ [length (concat filters)])) @
     [word_of_nat kFilterBaseLg]"

context filter_policy
begin

lemma FilterBlock_Finish_contents:
  assumes "fb_holds policy b gens cur"
  shows "\<exists>gens'. FilterBlock_Finish policy b = filter_block_contents (map (fb_filter policy) gens') \<and>
    (gens' = gens \<and> cur = [] \<or> gens' = gens @ [cur])"
proof -
  have n: "fb_start b = [] \<longleftrightarrow> cur = []" using assms by (cases cur) (auto simp: fb_holds_def)
  show ?thesis
  proof (cases "cur = []")
    case True
    with assms n have "FilterBlock_Finish policy b = filter_block_contents (map (fb_filter policy) gens)"
      by (simp add: FilterBlock_Finish_def filter_block_contents_def fb_holds_def Let_def
          fold_PutFixed32 PutFixed32_eq fixed32s_snoc)
    with True show ?thesis by blast
  next
    case False
    with n fb_holds_Generate [OF assms]
    have "FilterBlock_Finish policy b = filter_block_contents (map (fb_filter policy) (gens @ [cur]))"
      by (simp add: FilterBlock_Finish_def filter_block_contents_def fb_holds_def Let_def
          fold_PutFixed32 PutFixed32_eq fixed32s_snoc)
    then show ?thesis by blast
  qed
qed

end

lemma filter_block_word:
  assumes "length (concat filters) < 2 ^ 32" "i \<le> length filters"
  shows "unat (DecodeFixed32 (drop (length (concat filters) + i * 4) (filter_block_contents filters))) =
    length (concat (take i filters))"
proof -
  let ?ws = "map word_of_nat (starts_of 0 filters @ [length (concat filters)]) :: u32 list"
  have i: "i < length ?ws" using assms(2) by simp
  from DecodeFixed32_drop_fixed32s [OF this, of "[word_of_nat kFilterBaseLg]"]
  have "DecodeFixed32 (drop (length (concat filters) + i * 4) (filter_block_contents filters)) = ?ws ! i"
    unfolding filter_block_contents_def
    by (simp only: drop_append diff_add_inverse drop_all le_add1 append_Nil)
  also have "\<dots> = word_of_nat (length (concat (take i filters)))"
    using starts_of_nth [OF assms(2), of 0] i by (simp only: nth_map length_map) simp
  finally have e: "DecodeFixed32 (drop (length (concat filters) + i * 4) (filter_block_contents filters)) =
    word_of_nat (length (concat (take i filters)))" .
  have "length (concat (take i filters)) \<le> length (concat filters)"
    by (metis append_take_drop_id concat_append le_add1 length_append)
  with assms(1) show ?thesis unfolding e by (simp add: unat_of_nat)
qed

lemma FilterBlockReader_contents:
  assumes "length (concat filters) < 2 ^ 32"
  shows "FilterBlockReader_new (filter_block_contents filters) =
    \<lparr>fr_data = filter_block_contents filters, fr_offset = length (concat filters),
     fr_num = length filters, fr_base_lg = kFilterBaseLg\<rparr>"
proof -
  let ?c = "filter_block_contents filters"
  have n: "length ?c = length (concat filters) + 4 * length filters + 5"
    by (simp add: filter_block_contents_def)
  have "?c ! (length ?c - 1) = word_of_nat kFilterBaseLg"
    by (metis filter_block_contents_def append_assoc last_conv_nth last_snoc append_is_Nil_conv list.distinct(1))
  moreover have "drop (length ?c - 5) ?c = drop (length (concat filters) + length filters * 4) ?c"
    by (simp add: n mult.commute)
  ultimately show ?thesis
    using filter_block_word [OF assms, of "length filters"] n
    by (simp add: FilterBlockReader_new_def Let_def kFilterBaseLg_def)
qed

lemma FilterBlockKeyMayMatch_contents:
  assumes "length (concat filters) < 2 ^ 32"
  shows "FilterBlockKeyMayMatch policy (FilterBlockReader_new (filter_block_contents filters)) off key =
    (unat off div kFilterBase < length filters \<longrightarrow>
     KeyMayMatch policy key (filters ! (unat off div kFilterBase)))"
proof -
  let ?i = "unat off div kFilterBase" and ?c = "filter_block_contents filters"
  have idx: "unat (drop_bit kFilterBaseLg off) = ?i"
    by (simp only: kFilterBase_def unat_drop_bit_eq) (simp add: drop_bit_eq_div kFilterBaseLg_def)
  show ?thesis
  proof (cases "?i < length filters")
    case True
    have s: "unat (DecodeFixed32 (drop (length (concat filters) + ?i * 4) ?c)) = length (concat (take ?i filters))"
      using filter_block_word [OF assms, of ?i] True by simp
    have l: "unat (DecodeFixed32 (drop (length (concat filters) + ?i * 4 + 4) ?c)) = length (concat (take (Suc ?i) filters))"
      using filter_block_word [OF assms, of "Suc ?i"] True by (simp add: algebra_simps)
    have le: "length (concat (take ?i filters)) \<le> length (concat (take (Suc ?i) filters))"
      using True by (simp add: take_Suc_conv_app_nth)
    have le2: "length (concat (take (Suc ?i) filters)) \<le> length (concat filters)"
      by (metis append_take_drop_id concat_append le_add1 length_append)
    have "take (length (concat (take (Suc ?i) filters)) - length (concat (take ?i filters)))
        (drop (length (concat (take ?i filters))) ?c) = filters ! ?i"
      unfolding filter_block_contents_def by (rule concat_slice [OF True])
    with True idx s l le le2 show ?thesis
      by (simp only: FilterBlockKeyMayMatch_def FilterBlockReader_contents [OF assms] Let_def
          FilterBlockReader.simps simp_thms if_True)
  next
    case False
    with idx show ?thesis by (simp add: FilterBlockKeyMayMatch_def FilterBlockReader_contents [OF assms])
  qed
qed

context filter_policy
begin

lemma filter_block_complete:
  assumes "sorted (map (\<lambda>blk. unat (fst blk)) blocks)"
    and "length (build_filter_block policy blocks) < 2 ^ 32"
    and "(off, ks) \<in> set blocks" "key \<in> set ks"
  shows "FilterBlockKeyMayMatch policy (FilterBlockReader_new (build_filter_block policy blocks)) off key"
proof -
  from fb_keys_recorded [OF assms(1)] obtain gens cur where
    h: "fb_holds policy (fold (add_block policy) blocks FilterBlockBuilder_new) gens cur"
    and "fb_recorded blocks gens cur" by blast
  with assms(3,4) have k: "key \<in> set ((gens @ [cur]) ! (unat off div kFilterBase))"
    unfolding fb_recorded_def by blast
  from FilterBlock_Finish_contents [OF h] obtain gens' where
    f: "build_filter_block policy blocks = filter_block_contents (map (fb_filter policy) gens')"
    and g: "gens' = gens \<and> cur = [] \<or> gens' = gens @ [cur]"
    unfolding build_filter_block_def by blast
  have len: "length (concat (map (fb_filter policy) gens')) < 2 ^ 32"
    using assms(2) by (simp add: f filter_block_contents_def)
  have "KeyMayMatch policy key (fb_filter policy (gens' ! (unat off div kFilterBase)))"
    if "unat off div kFilterBase < length gens'"
  proof -
    have "key \<in> set (gens' ! (unat off div kFilterBase))"
      using k g that by (auto simp: nth_append)
    then show ?thesis using no_false_negative by (auto simp: fb_filter_def)
  qed
  then show ?thesis unfolding f FilterBlockKeyMayMatch_contents [OF len] by simp
qed

end

text \<open>C16: the filter block of a table never hides a key. When the builder is driven as
  \<open>TableBuilder\<close> drives it, \<open>StartBlock\<close> at nondecreasing block offsets and \<open>AddKey\<close> for the
  internal keys of each data block, and \<open>Finish\<close> returns fewer than 4 GiB, then the reader
  opened on the result answers that the key may match at the offset of its block. The policy is
  the one a database installs: a Bloom filter behind \<open>InternalFilterPolicy\<close>.\<close>

theorem filter_block_no_false_negative:
  assumes "sorted (map (\<lambda>blk. unat (fst blk)) blocks)"
    and "length (build_filter_block (InternalFilterPolicy (NewBloomFilterPolicy bpk)) blocks) < 2 ^ 32"
    and "(off, ks) \<in> set blocks" "key \<in> set ks"
  shows "FilterBlockKeyMayMatch (InternalFilterPolicy (NewBloomFilterPolicy bpk))
    (FilterBlockReader_new (build_filter_block (InternalFilterPolicy (NewBloomFilterPolicy bpk)) blocks)) off key"
  using assms by (rule internal_bloom.filter_block_complete)

lemma length_BloomCreateFilter:
  "length (BloomCreateFilter p keys dst) = length dst + (max 64 (length keys * bits_per_key p) + 7) div 8 + 1"
  using BloomAddKey_fold_mono by (simp add: BloomCreateFilter_def Let_def max_def)

theorem filter_block_no_false_negative_witness:
  "let blocks = [(0, [[97, 1, 0, 0, 0, 0, 0, 0, 0]]), (5000, [[98, 1, 0, 0, 0, 0, 0, 0, 0]])];
       policy = InternalFilterPolicy (NewBloomFilterPolicy 10)
   in FilterBlockKeyMayMatch policy (FilterBlockReader_new (build_filter_block policy blocks))
        5000 [98, 1, 0, 0, 0, 0, 0, 0, 0]"
proof -
  let ?blocks = "[(0, [[97, 1, 0, 0, 0, 0, 0, 0, 0]]), (5000, [[98, 1, 0, 0, 0, 0, 0, 0, 0]])]
    :: (u64 \<times> bytes list) list"
  have "length (build_filter_block (InternalFilterPolicy (NewBloomFilterPolicy 10)) ?blocks) < 2 ^ 32"
    by (simp add: build_filter_block_def add_block_def StartBlock_def kFilterBase_def kFilterBaseLg_def
        StartBlock_loop.simps GenerateFilter_def FilterBlock_Finish_def AddKey_def
        FilterBlockBuilder_new_def InternalFilterPolicy_def NewBloomFilterPolicy_def
        length_BloomCreateFilter BloomFilterPolicy_new_def PutFixed32_def Let_def)
  from filter_block_no_false_negative [OF _ this, of 5000 "[[98, 1, 0, 0, 0, 0, 0, 0, 0]]"
      "[98, 1, 0, 0, 0, 0, 0, 0, 0]"]
  show ?thesis unfolding Let_def by simp
qed

end
