(* ===== verification/Ldb_Format.thy ===== *)
theory Ldb_Format
  imports Ldb_Log Ldb_Iterator Ldb_Filter
begin

text \<open>
  The file format of a table (\<open>table/format.h\<close>, \<open>table/format.cc\<close>): handles of blocks, the footer, and reading
  a block with its trailer. A random access file is a record of operations over an environment. The compression library is
  not configured, so \<open>port_stdcxx.h\<close> compiles to the stubs that refuse. An operation is \<open>None\<close> if it reads outside its buffer.
\<close>

section \<open>Block handles\<close>

record BlockHandle =
  bh_offset :: u64
  bh_size :: u64

definition BlockHandle_new :: BlockHandle where
  "BlockHandle_new = \<lparr>bh_offset = NOT 0, bh_size = NOT 0\<rparr>"

definition kMaxEncodedLength :: nat where
  "kMaxEncodedLength = 10 + 10"

text \<open>The assertions (both fields are set) are obligations of the caller.\<close>

definition BlockHandle_EncodeTo :: "BlockHandle \<Rightarrow> bytes \<Rightarrow> bytes" where
  "BlockHandle_EncodeTo h dst = PutVarint64 (PutVarint64 dst (bh_offset h)) (bh_size h)"

definition BlockHandle_DecodeFrom :: "BlockHandle \<Rightarrow> bytes \<Rightarrow> Status \<times> BlockHandle \<times> bytes" where
  "BlockHandle_DecodeFrom h input =
     (case GetVarint64 input of
        (None, input) \<Rightarrow> (Status_Corruption (cstr ''bad block handle'') [], h, input)
      | (Some offset, input) \<Rightarrow>
          (let h = h\<lparr>bh_offset := offset\<rparr>
           in case GetVarint64 input of
                (None, input) \<Rightarrow> (Status_Corruption (cstr ''bad block handle'') [], h, input)
              | (Some sz, input) \<Rightarrow> (Status_OK, h\<lparr>bh_size := sz\<rparr>, input)))"

section \<open>The footer\<close>

record Footer =
  ft_metaindex_handle :: BlockHandle
  ft_index_handle :: BlockHandle

definition Footer_new :: Footer where
  "Footer_new = \<lparr>ft_metaindex_handle = BlockHandle_new, ft_index_handle = BlockHandle_new\<rparr>"

definition kEncodedLength :: nat where
  "kEncodedLength = 2 * kMaxEncodedLength + 8"

definition kTableMagicNumber :: u64 where
  "kTableMagicNumber = 0xdb4775248b80fb57"

text \<open>\<open>std::string::resize\<close>.\<close>

definition resize :: "nat \<Rightarrow> bytes \<Rightarrow> bytes" where
  "resize n s = take n s @ replicate (n - length s) 0"

definition Footer_EncodeTo :: "Footer \<Rightarrow> bytes \<Rightarrow> bytes" where
  "Footer_EncodeTo f dst =
     (let dst = BlockHandle_EncodeTo (ft_metaindex_handle f) dst;
          dst = BlockHandle_EncodeTo (ft_index_handle f) dst;
          dst = resize (2 * kMaxEncodedLength) dst;
          dst = PutFixed32 dst (ucast (kTableMagicNumber AND 0xffffffff))
      in PutFixed32 dst (ucast (drop_bit 32 kTableMagicNumber)))"

definition Footer_DecodeFrom :: "Footer \<Rightarrow> bytes \<Rightarrow> (Status \<times> Footer \<times> bytes) option" where
  "Footer_DecodeFrom f input =
     (if length input < kEncodedLength then None
      else let magic_ptr = drop (kEncodedLength - 8) input;
               magic_lo = DecodeFixed32 magic_ptr;
               magic_hi = DecodeFixed32 (drop 4 magic_ptr);
               magic = push_bit 32 (ucast magic_hi :: u64) OR ucast magic_lo
           in if magic \<noteq> kTableMagicNumber
              then Some (Status_Corruption (cstr ''not an sstable (bad magic number)'') [], f, input)
              else let end_ptr = drop 8 magic_ptr;
                       (result, h, input) = BlockHandle_DecodeFrom (ft_metaindex_handle f) input;
                       f = f\<lparr>ft_metaindex_handle := h\<rparr>;
                       (result, f, input) =
                         (if status_ok result
                          then (case BlockHandle_DecodeFrom (ft_index_handle f) input of
                                  (result, h, input) \<Rightarrow> (result, f\<lparr>ft_index_handle := h\<rparr>, input))
                          else (result, f, input))
                   in Some (result, f, if status_ok result then end_ptr else input))"

section \<open>Reading a block\<close>

text \<open>\<open>Read\<close> of a random access file returns the status, the contents and whether they lie in the
  buffer that was passed to it.\<close>

record 'e random_access_ops =
  ra_Read :: "u64 \<Rightarrow> u64 \<Rightarrow> 'e \<Rightarrow> (Status \<times> bytes \<times> bool) \<times> 'e"

datatype CompressionType = kNoCompression | kSnappyCompression

definition compression_byte :: "CompressionType \<Rightarrow> byte" where
  "compression_byte t = (case t of kNoCompression \<Rightarrow> 0 | kSnappyCompression \<Rightarrow> 1)"

record ReadOptions =
  ro_verify_checksums :: bool
  ro_fill_cache :: bool

definition ReadOptions_new :: ReadOptions where
  "ReadOptions_new = \<lparr>ro_verify_checksums = False, ro_fill_cache = True\<rparr>"

definition kBlockTrailerSize :: nat where
  "kBlockTrailerSize = 5"

definition Snappy_Compress :: "bytes \<Rightarrow> bytes option" where
  "Snappy_Compress input = None"

definition Snappy_GetUncompressedLength :: "bytes \<Rightarrow> nat option" where
  "Snappy_GetUncompressedLength input = None"

definition Snappy_Uncompress :: "bytes \<Rightarrow> bytes option" where
  "Snappy_Uncompress input = None"

record BlockContents =
  bc_data :: bytes
  bc_cachable :: bool
  bc_heap_allocated :: bool

definition no_contents :: BlockContents where
  "no_contents = \<lparr>bc_data = [], bc_cachable = False, bc_heap_allocated = False\<rparr>"

text \<open>The length that is read is \<open>n + kBlockTrailerSize\<close> in 64 bits. When it wraps around, the trailer of a block that
  was read in full is looked for outside of it.\<close>

definition ReadBlock ::
    "'e random_access_ops \<Rightarrow> ReadOptions \<Rightarrow> BlockHandle \<Rightarrow> 'e \<Rightarrow> ((Status \<times> BlockContents) \<times> 'e) option" where
  "ReadBlock F options handle e =
     (let n = bh_size handle;
          ((s, contents, in_buf), e) = ra_Read F (bh_offset handle) (n + word_of_nat kBlockTrailerSize) e
      in if \<not> status_ok s then Some ((s, no_contents), e)
         else if word_of_nat (length contents) \<noteq> n + word_of_nat kBlockTrailerSize
         then Some ((Status_Corruption (cstr ''truncated block read'') [], no_contents), e)
         else if length contents < unat n + kBlockTrailerSize then None
         else let n = unat n;
                  crc = Unmask (DecodeFixed32 (drop (n + 1) contents));
                  actual = crc32c_Value (take (n + 1) contents)
              in if ro_verify_checksums options \<and> actual \<noteq> crc
                 then Some ((Status_Corruption (cstr ''block checksum mismatch'') [], no_contents), e)
                 else if contents ! n = compression_byte kNoCompression
                 then Some ((Status_OK, \<lparr>bc_data = take n contents, bc_cachable = in_buf, bc_heap_allocated = in_buf\<rparr>), e)
                 else if contents ! n = compression_byte kSnappyCompression
                 then (case Snappy_GetUncompressedLength (take n contents) of
                         None \<Rightarrow> Some ((Status_Corruption (cstr ''corrupted compressed block contents'') [], no_contents), e)
                       | Some ulength \<Rightarrow>
                           (case Snappy_Uncompress (take n contents) of
                              None \<Rightarrow> Some ((Status_Corruption (cstr ''corrupted compressed block contents'') [], no_contents), e)
                            | Some ubuf \<Rightarrow> Some ((Status_OK, \<lparr>bc_data = ubuf, bc_cachable = True, bc_heap_allocated = True\<rparr>), e)))
                 else Some ((Status_Corruption (cstr ''bad block type'') [], no_contents), e))"

section \<open>Round trips\<close>

text \<open>The bytes of a block in the file: its contents, the type and the masked checksum of both.\<close>

definition block_file :: "bytes \<Rightarrow> bytes" where
  "block_file contents = contents @ [0] @ EncodeFixed32 (Mask (crc32c_Value (contents @ [0])))"

definition handle_bytes :: "BlockHandle \<Rightarrow> bytes" where
  "handle_bytes h = EncodeVarint64 (bh_offset h) @ EncodeVarint64 (bh_size h)"

lemma length_block_file [simp]: "length (block_file c) = length c + kBlockTrailerSize"
  by (simp add: block_file_def kBlockTrailerSize_def)

lemma BlockHandle_EncodeTo_eq: "BlockHandle_EncodeTo h dst = dst @ handle_bytes h"
  by (simp add: BlockHandle_EncodeTo_def PutVarint64_def handle_bytes_def)

lemma BlockHandle_round_trip:
  "BlockHandle_DecodeFrom h0 (handle_bytes h @ rest) = (Status_OK, h, rest)"
  by (simp add: BlockHandle_DecodeFrom_def handle_bytes_def codec_simps)

lemma length_handle_bytes: "length (handle_bytes h) \<le> kMaxEncodedLength"
  using length_EncodeVarint64_bound [of "bh_offset h" 10] length_EncodeVarint64_bound [of "bh_size h" 10]
    unsigned_less [of "bh_offset h", where 'a = nat] unsigned_less [of "bh_size h", where 'a = nat]
  by (simp add: handle_bytes_def kMaxEncodedLength_def)

lemma handle_bytes_inj: "handle_bytes h = handle_bytes h' \<longleftrightarrow> h = h'"
  by (metis BlockHandle_round_trip append_Nil2 prod.inject)

definition footer_bytes :: "Footer \<Rightarrow> bytes" where
  "footer_bytes f = Footer_EncodeTo f []"

lemma footer_bytes_eq:
  "\<exists>pad. footer_bytes f = handle_bytes (ft_metaindex_handle f) @ handle_bytes (ft_index_handle f) @ pad @
     EncodeFixed32 (ucast (kTableMagicNumber AND 0xffffffff)) @ EncodeFixed32 (ucast (drop_bit 32 kTableMagicNumber)) \<and>
     length (handle_bytes (ft_metaindex_handle f) @ handle_bytes (ft_index_handle f) @ pad) = 2 * kMaxEncodedLength"
proof -
  have "length (handle_bytes (ft_metaindex_handle f) @ handle_bytes (ft_index_handle f)) \<le> 2 * kMaxEncodedLength"
    using length_handle_bytes [of "ft_metaindex_handle f"] length_handle_bytes [of "ft_index_handle f"] by simp
  thus ?thesis
    by (simp add: footer_bytes_def Footer_EncodeTo_def Let_def BlockHandle_EncodeTo_eq resize_def PutFixed32_def)
qed

lemma length_footer_bytes: "length (footer_bytes f) = kEncodedLength"
  using footer_bytes_eq [of f] by (auto simp: kEncodedLength_def)

lemma Footer_round_trip:
  "Footer_DecodeFrom f0 (footer_bytes f @ rest) = Some (Status_OK, f, rest)"
proof -
  obtain pad where pad: "footer_bytes f = (handle_bytes (ft_metaindex_handle f) @ handle_bytes (ft_index_handle f) @ pad) @
     EncodeFixed32 (ucast (kTableMagicNumber AND 0xffffffff)) @ EncodeFixed32 (ucast (drop_bit 32 kTableMagicNumber))"
     "length (handle_bytes (ft_metaindex_handle f) @ handle_bytes (ft_index_handle f) @ pad) = kEncodedLength - 8"
    using footer_bytes_eq [of f] by (auto simp: kEncodedLength_def)
  have ptr: "drop (kEncodedLength - 8) (footer_bytes f @ rest) =
     EncodeFixed32 (ucast (kTableMagicNumber AND 0xffffffff)) @ EncodeFixed32 (ucast (drop_bit 32 kTableMagicNumber)) @ rest"
    unfolding pad(1) pad(2) [symmetric] by simp
  have magic: "push_bit 32 (ucast (ucast (drop_bit 32 kTableMagicNumber) :: u32) :: u64) OR
      ucast (ucast (kTableMagicNumber AND 0xffffffff) :: u32) = kTableMagicNumber"
    by (simp add: kTableMagicNumber_def)
  define inp where "inp = footer_bytes f @ rest"
  have "BlockHandle_DecodeFrom h0 inp = (Status_OK, ft_metaindex_handle f,
      handle_bytes (ft_index_handle f) @ pad @ EncodeFixed32 (ucast (kTableMagicNumber AND 0xffffffff)) @
      EncodeFixed32 (ucast (drop_bit 32 kTableMagicNumber)) @ rest)" for h0
    by (simp add: inp_def pad(1) BlockHandle_round_trip)
  moreover have "length inp \<ge> kEncodedLength"
    by (simp add: inp_def length_footer_bytes)
  moreover note ptr [folded inp_def]
  ultimately show ?thesis
    unfolding inp_def [symmetric]
    by (simp add: Footer_DecodeFrom_def Let_def magic codec_simps BlockHandle_round_trip status_ok_def Status_OK_def)
qed

section \<open>A file that is read back\<close>

text \<open>The contract of a random access file with fixed contents: a range inside the file is read in full. The environment may change with
  every call but keeps \<open>inv\<close>.\<close>

locale random_access_file =
  fixes F :: "'e random_access_ops" and inv :: "'e \<Rightarrow> bool" and content :: bytes
  assumes read_ok: "inv e \<Longrightarrow> unat off + unat n \<le> length content \<Longrightarrow>
      \<exists>b e'. ra_Read F off n e = ((Status_OK, take (unat n) (drop (unat off) content), b), e') \<and> inv e'"
    and file_size: "length content < 2 ^ 64"
begin

text \<open>The block with contents \<open>c\<close> and its trailer lie at the handle.\<close>

definition stored :: "BlockHandle \<Rightarrow> bytes \<Rightarrow> bool" where
  "stored h c \<longleftrightarrow> unat (bh_size h) = length c \<and>
     (\<exists>pre post. content = pre @ block_file c @ post \<and> unat (bh_offset h) = length pre)"

lemma ReadBlock_stored:
  assumes "stored h c" and "inv e"
  shows "\<exists>b e'. ReadBlock F options h e = Some ((Status_OK, \<lparr>bc_data = c, bc_cachable = b, bc_heap_allocated = b\<rparr>), e') \<and> inv e'"
proof -
  obtain pre post where file_parts: "content = pre @ block_file c @ post" "unat (bh_offset h) = length pre" "unat (bh_size h) = length c"
    using assms(1) by (auto simp: stored_def)
  have small: "length c + kBlockTrailerSize < 2 ^ 64"
    using file_size file_parts(1) by simp
  have n: "unat (bh_size h + word_of_nat kBlockTrailerSize) = length c + kBlockTrailerSize"
    using small file_parts(3) by (simp add: unat_word_ariths kBlockTrailerSize_def)
  obtain b e' where read: "ra_Read F (bh_offset h) (bh_size h + word_of_nat kBlockTrailerSize) e = ((Status_OK, block_file c, b), e')" "inv e'"
    using read_ok [OF assms(2), of "bh_offset h" "bh_size h + word_of_nat kBlockTrailerSize"] file_parts n by auto
  have len: "word_of_nat (length (block_file c)) = bh_size h + word_of_nat kBlockTrailerSize"
    unfolding word_unat_eq_iff n using small by (simp only: unsigned_of_nat) (simp add: take_bit_nat_eq_self)
  have crc: "Unmask (DecodeFixed32 (drop (length c + 1) (block_file c))) = crc32c_Value (take (length c + 1) (block_file c))"
    using DecodeFixed32_enc [of _ "[]"] by (simp add: block_file_def)
  have parts: "block_file c ! length c = 0" "take (length c) (block_file c) = c"
    by (simp_all add: block_file_def nth_append)
  show ?thesis
    unfolding ReadBlock_def Let_def read(1) prod.case using read(2) crc len parts file_parts(3)
    by (simp add: compression_byte_def status_ok_def Status_OK_def)
qed

end

text \<open>The POSIX files as random access files; the contents of a mapped file are not copied to the buffer.\<close>

definition PosixRandomAccess_ops :: "'os kernel_ops \<Rightarrow> RandomAccessFile \<Rightarrow> 'os random_access_ops" where
  "PosixRandomAccess_ops K f =
     \<lparr>ra_Read = (\<lambda>offset n os. case f of
        RandomAccess_pread f \<Rightarrow> (case PosixRandomAccessFile_Read K f offset (unat n) os of (s, contents, os) \<Rightarrow> ((s, contents, True), os))
      | RandomAccess_mmap f \<Rightarrow> (case PosixMmapReadableFile_Read K f offset n of (s, contents) \<Rightarrow> ((s, contents, False), os)))\<rparr>"

definition mapped_file :: "bytes \<Rightarrow> RandomAccessFile" where
  "mapped_file contents =
     RandomAccess_mmap \<lparr>pmrf_base = contents, pmrf_length = word_of_nat (length contents), pmrf_filename = []\<rparr>"

lemma mapped_random_access_file:
  assumes "length contents < 2 ^ 63"
  shows "random_access_file (PosixRandomAccess_ops K (mapped_file contents)) (\<lambda>_. True) contents"
proof
  show "length contents < 2 ^ 64"
    using assms by simp
  fix e and off n :: u64
  assume range: "unat off + unat n \<le> length contents"
  hence "unat (off + n) = unat off + unat n"
    using assms by (intro unat_add_lem [THEN iffD1]) simp
  moreover have "unat (word_of_nat (length contents) :: u64) = length contents"
    using assms by (simp only: unsigned_of_nat) (simp add: take_bit_nat_eq_self)
  ultimately have "\<not> off + n > word_of_nat (length contents)"
    using range by (simp add: word_less_nat_alt)
  thus "\<exists>b e'. ra_Read (PosixRandomAccess_ops K (mapped_file contents)) off n e = ((Status_OK, take (unat n) (drop (unat off) contents), b), e') \<and> True"
    by (simp add: PosixRandomAccess_ops_def mapped_file_def PosixMmapReadableFile_Read_def) blast
qed

interpretation small_mapped_file: random_access_file "PosixRandomAccess_ops mem_kernel (mapped_file (block_file [1, 2, 3]))" "\<lambda>_. True" "block_file [1, 2, 3]"
  by (rule mapped_random_access_file) (simp add: kBlockTrailerSize_def)

end
