(* ===== verification/Ldb_Table_Builder.thy ===== *)
theory Ldb_Table_Builder
  imports Ldb_Format
begin

text \<open>
  The table builder (\<open>table/table_builder.cc\<close>) over the interface of a writable file. The options it uses are
  a record; \<open>index_block_options\<close> differs from them only in the restart interval, which the index block builder carries itself. An
  operation is \<open>None\<close> if the file does not return.
\<close>

section \<open>The builder\<close>

record TableOptions =
  to_comparator :: comparator_ops
  to_paranoid_checks :: bool
  to_block_size :: nat
  to_block_restart_interval :: nat
  to_compression :: CompressionType
  to_filter_policy :: "filter_policy_ops option"

definition TableOptions_new :: TableOptions where
  "TableOptions_new =
     \<lparr>to_comparator = BytewiseComparator, to_paranoid_checks = False, to_block_size = 4 * 1024,
      to_block_restart_interval = 16, to_compression = kSnappyCompression, to_filter_policy = None\<rparr>"

record 'f TableBuilder =
  tb_options :: TableOptions
  tb_file :: 'f
  tb_offset :: u64
  tb_status :: Status
  tb_data_block :: BlockBuilder
  tb_index_block :: BlockBuilder
  tb_last_key :: bytes
  tb_num_entries :: u64
  tb_closed :: bool
  tb_filter_block :: "(filter_policy_ops \<times> FilterBlockBuilder) option"
  tb_pending_index_entry :: bool
  tb_pending_handle :: BlockHandle

definition filter_StartBlock :: "u64 \<Rightarrow> 'f TableBuilder \<Rightarrow> 'f TableBuilder" where
  "filter_StartBlock offset b =
     b\<lparr>tb_filter_block := map_option (\<lambda>(policy, fb). (policy, StartBlock policy offset fb)) (tb_filter_block b)\<rparr>"

definition TableBuilder_new :: "TableOptions \<Rightarrow> 'f \<Rightarrow> 'f TableBuilder" where
  "TableBuilder_new options f =
     filter_StartBlock 0
       \<lparr>tb_options = options, tb_file = f, tb_offset = 0, tb_status = Status_OK,
        tb_data_block = BlockBuilder_new (to_block_restart_interval options),
        tb_index_block = BlockBuilder_new 1, tb_last_key = [], tb_num_entries = 0, tb_closed = False,
        tb_filter_block = map_option (\<lambda>policy. (policy, FilterBlockBuilder_new)) (to_filter_policy options),
        tb_pending_index_entry = False, tb_pending_handle = BlockHandle_new\<rparr>"

text \<open>Whether the comparators are the same object is an argument; the block builders see the new restart interval through
  their pointer to the options.\<close>

definition TableBuilder_ChangeOptions :: "bool \<Rightarrow> TableOptions \<Rightarrow> 'f TableBuilder \<Rightarrow> Status \<times> 'f TableBuilder" where
  "TableBuilder_ChangeOptions same_comparator options b =
     (if \<not> same_comparator
      then (Status_InvalidArgument (cstr ''changing comparator while building table'') [], b)
      else (Status_OK,
            b\<lparr>tb_options := options,
              tb_data_block := (tb_data_block b)\<lparr>bb_block_restart_interval := to_block_restart_interval options\<rparr>,
              tb_index_block := (tb_index_block b)\<lparr>bb_block_restart_interval := 1\<rparr>\<rparr>))"

definition tb_ok :: "'f TableBuilder \<Rightarrow> bool" where
  "tb_ok b \<longleftrightarrow> status_ok (tb_status b)"

definition WriteRawBlock ::
    "'f writable_file_ops \<Rightarrow> bytes \<Rightarrow> CompressionType \<Rightarrow> 'f TableBuilder \<Rightarrow> (BlockHandle \<times> 'f TableBuilder) option" where
  "WriteRawBlock W block_contents type b =
     (let handle = \<lparr>bh_offset = tb_offset b, bh_size = word_of_nat (length block_contents)\<rparr>
      in do {
        (s, f) \<leftarrow> wf_Append W block_contents (tb_file b);
        let b = b\<lparr>tb_status := s, tb_file := f\<rparr>
        in if \<not> status_ok s then Some (handle, b)
           else let crc = crc32c_Value block_contents;
                    crc = crc32c_Extend crc [compression_byte type];
                    trailer = compression_byte type # EncodeFixed32 (Mask crc)
                in do {
                  (s, f) \<leftarrow> wf_Append W trailer (tb_file b);
                  let b = b\<lparr>tb_status := s, tb_file := f\<rparr>
                  in Some (handle, if status_ok s
                                   then b\<lparr>tb_offset := tb_offset b + word_of_nat (length block_contents + kBlockTrailerSize)\<rparr>
                                   else b)
                }
      })"

text \<open>\<open>WriteBlock\<close> returns the handle and the block builder after \<open>Reset\<close>.\<close>

definition WriteBlock ::
    "'f writable_file_ops \<Rightarrow> BlockBuilder \<Rightarrow> 'f TableBuilder \<Rightarrow> (BlockHandle \<times> BlockBuilder \<times> 'f TableBuilder) option" where
  "WriteBlock W block b =
     (let (raw, block) = BlockBuilder_Finish block;
          (block_contents, type) =
            (case to_compression (tb_options b) of
               kNoCompression \<Rightarrow> (raw, kNoCompression)
             | kSnappyCompression \<Rightarrow>
                 (case Snappy_Compress raw of
                    Some compressed \<Rightarrow>
                      if length compressed < length raw - length raw div 8 then (compressed, kSnappyCompression)
                      else (raw, kNoCompression)
                  | None \<Rightarrow> (raw, kNoCompression)))
      in do {
        (handle, b) \<leftarrow> WriteRawBlock W block_contents type b;
        Some (handle, BlockBuilder_Reset block, b)
      })"

definition TableBuilder_Flush :: "'f writable_file_ops \<Rightarrow> 'f TableBuilder \<Rightarrow> 'f TableBuilder option" where
  "TableBuilder_Flush W b =
     (if \<not> tb_ok b then Some b
      else if BlockBuilder_empty (tb_data_block b) then Some b
      else do {
        (handle, block, b) \<leftarrow> WriteBlock W (tb_data_block b) b;
        let b = b\<lparr>tb_data_block := block, tb_pending_handle := handle\<rparr>
        in do {
          b \<leftarrow> (if tb_ok b
                then do {
                  (s, f) \<leftarrow> wf_Flush W (tb_file b);
                  Some (b\<lparr>tb_pending_index_entry := True, tb_status := s, tb_file := f\<rparr>)
                }
                else Some b);
          Some (filter_StartBlock (tb_offset b) b)
        }
      })"

definition add_index_entry :: "bytes \<Rightarrow> 'f TableBuilder \<Rightarrow> 'f TableBuilder" where
  "add_index_entry last_key b =
     b\<lparr>tb_last_key := last_key,
       tb_index_block := BlockBuilder_Add last_key (BlockHandle_EncodeTo (tb_pending_handle b) []) (tb_index_block b),
       tb_pending_index_entry := False\<rparr>"

text \<open>The assertions (not closed, the keys increase) are obligations of the caller.\<close>

definition TableBuilder_Add :: "'f writable_file_ops \<Rightarrow> bytes \<Rightarrow> bytes \<Rightarrow> 'f TableBuilder \<Rightarrow> 'f TableBuilder option" where
  "TableBuilder_Add W key v b =
     (if \<not> tb_ok b then Some b
      else let b = (if tb_pending_index_entry b
                    then add_index_entry (FindShortestSeparator (to_comparator (tb_options b)) (tb_last_key b) key) b
                    else b);
               b = b\<lparr>tb_filter_block := map_option (\<lambda>(policy, fb). (policy, AddKey key fb)) (tb_filter_block b)\<rparr>;
               b = b\<lparr>tb_last_key := key, tb_num_entries := tb_num_entries b + 1,
                     tb_data_block := BlockBuilder_Add key v (tb_data_block b)\<rparr>
           in if CurrentSizeEstimate (tb_data_block b) \<ge> to_block_size (tb_options b) then TableBuilder_Flush W b
              else Some b)"

definition TableBuilder_Finish :: "'f writable_file_ops \<Rightarrow> 'f TableBuilder \<Rightarrow> (Status \<times> 'f TableBuilder) option" where
  "TableBuilder_Finish W b = do {
     b \<leftarrow> TableBuilder_Flush W b;
     let b = b\<lparr>tb_closed := True\<rparr>
     in do {
       (filter_block_handle, b) \<leftarrow>
         (case tb_filter_block b of
            Some (policy, fb) \<Rightarrow>
              if tb_ok b then WriteRawBlock W (FilterBlock_Finish policy fb) kNoCompression b else Some (BlockHandle_new, b)
          | None \<Rightarrow> Some (BlockHandle_new, b));
       (metaindex_block_handle, b) \<leftarrow>
         (if tb_ok b
          then do {
            meta \<leftarrow>
              (let meta = BlockBuilder_new (to_block_restart_interval (tb_options b))
               in case tb_filter_block b of
                    None \<Rightarrow> Some meta
                  | Some _ \<Rightarrow>
                      map_option (\<lambda>policy. BlockBuilder_Add (cstr ''filter.'' @ PolicyName policy)
                        (BlockHandle_EncodeTo filter_block_handle []) meta) (to_filter_policy (tb_options b)));
            (h, _, b) \<leftarrow> WriteBlock W meta b;
            Some (h, b)
          }
          else Some (BlockHandle_new, b));
       (index_block_handle, b) \<leftarrow>
         (if tb_ok b
          then let b = (if tb_pending_index_entry b
                        then add_index_entry (FindShortSuccessor (to_comparator (tb_options b)) (tb_last_key b)) b
                        else b)
               in do { (h, block, b) \<leftarrow> WriteBlock W (tb_index_block b) b; Some (h, b\<lparr>tb_index_block := block\<rparr>) }
          else Some (BlockHandle_new, b));
       b \<leftarrow>
         (if tb_ok b
          then let footer = \<lparr>ft_metaindex_handle = metaindex_block_handle, ft_index_handle = index_block_handle\<rparr>;
                   footer_encoding = Footer_EncodeTo footer []
               in do {
                 (s, f) \<leftarrow> wf_Append W footer_encoding (tb_file b);
                 let b = b\<lparr>tb_status := s, tb_file := f\<rparr>
                 in Some (if status_ok s then b\<lparr>tb_offset := tb_offset b + word_of_nat (length footer_encoding)\<rparr> else b)
               }
          else Some b);
       Some (tb_status b, b)
     }
   }"

definition TableBuilder_Abandon :: "'f TableBuilder \<Rightarrow> 'f TableBuilder" where
  "TableBuilder_Abandon b = b\<lparr>tb_closed := True\<rparr>"

definition TableBuilder_NumEntries :: "'f TableBuilder \<Rightarrow> u64" where
  "TableBuilder_NumEntries b = tb_num_entries b"

definition TableBuilder_FileSize :: "'f TableBuilder \<Rightarrow> u64" where
  "TableBuilder_FileSize b = tb_offset b"

text \<open>Adding a list of entries.\<close>

fun TableBuilder_AddAll :: "'f writable_file_ops \<Rightarrow> (bytes \<times> bytes) list \<Rightarrow> 'f TableBuilder \<Rightarrow> 'f TableBuilder option" where
  "TableBuilder_AddAll W [] b = Some b"
| "TableBuilder_AddAll W ((k, v) # es) b = do { b \<leftarrow> TableBuilder_Add W k v b; TableBuilder_AddAll W es b }"

section \<open>The layout of a table file\<close>

text \<open>The data blocks one after the other, each with its trailer; the handle of a block; the entries of the index; what the filter
  builder is told. \<open>R\<close> is the restart interval.\<close>

definition data_file :: "nat \<Rightarrow> (bytes \<times> bytes) list list \<Rightarrow> bytes" where
  "data_file R blocks = concat (map (\<lambda>blk. block_file (built_bytes R blk)) blocks)"

definition data_handle :: "nat \<Rightarrow> (bytes \<times> bytes) list list \<Rightarrow> nat \<Rightarrow> BlockHandle" where
  "data_handle R blocks j =
     \<lparr>bh_offset = word_of_nat (length (data_file R (take j blocks))), bh_size = word_of_nat (length (built_bytes R (blocks ! j)))\<rparr>"

definition index_entries :: "nat \<Rightarrow> bytes list \<Rightarrow> (bytes \<times> bytes) list list \<Rightarrow> (bytes \<times> bytes) list" where
  "index_entries R seps blocks = map (\<lambda>j. (seps ! j, handle_bytes (data_handle R blocks j))) [0..<length seps]"

definition filter_blocks :: "nat \<Rightarrow> (bytes \<times> bytes) list list \<Rightarrow> (bytes \<times> bytes) list \<Rightarrow> (u64 \<times> bytes list) list" where
  "filter_blocks R blocks cur =
     map (\<lambda>j. (word_of_nat (length (data_file R (take j blocks))), map fst (blocks ! j))) [0..<length blocks] @
     [(word_of_nat (length (data_file R blocks)), map fst cur)]"

text \<open>The finished file: the data blocks, the filter block if there is a filter policy, the metaindex block, the index block, the footer.\<close>

definition filter_file :: "TableOptions \<Rightarrow> (bytes \<times> bytes) list list \<Rightarrow> bytes" where
  "filter_file opts blocks =
     (case to_filter_policy opts of None \<Rightarrow> []
      | Some p \<Rightarrow> block_file (build_filter_block p (filter_blocks (to_block_restart_interval opts) blocks [])))"

definition filter_handle :: "TableOptions \<Rightarrow> (bytes \<times> bytes) list list \<Rightarrow> filter_policy_ops \<Rightarrow> BlockHandle" where
  "filter_handle opts blocks p =
     \<lparr>bh_offset = word_of_nat (length (data_file (to_block_restart_interval opts) blocks)),
      bh_size = word_of_nat (length (build_filter_block p (filter_blocks (to_block_restart_interval opts) blocks [])))\<rparr>"

definition meta_entries :: "TableOptions \<Rightarrow> (bytes \<times> bytes) list list \<Rightarrow> (bytes \<times> bytes) list" where
  "meta_entries opts blocks =
     (case to_filter_policy opts of None \<Rightarrow> [] | Some p \<Rightarrow> [(cstr ''filter.'' @ PolicyName p, handle_bytes (filter_handle opts blocks p))])"

definition meta_bytes :: "TableOptions \<Rightarrow> (bytes \<times> bytes) list list \<Rightarrow> bytes" where
  "meta_bytes opts blocks = built_bytes (to_block_restart_interval opts) (meta_entries opts blocks)"

definition index_bytes :: "TableOptions \<Rightarrow> bytes list \<Rightarrow> (bytes \<times> bytes) list list \<Rightarrow> bytes" where
  "index_bytes opts seps blocks = built_bytes 1 (index_entries (to_block_restart_interval opts) seps blocks)"

definition table_footer :: "TableOptions \<Rightarrow> bytes list \<Rightarrow> (bytes \<times> bytes) list list \<Rightarrow> Footer" where
  "table_footer opts seps blocks =
     (let n = length (data_file (to_block_restart_interval opts) blocks @ filter_file opts blocks)
      in \<lparr>ft_metaindex_handle = \<lparr>bh_offset = word_of_nat n, bh_size = word_of_nat (length (meta_bytes opts blocks))\<rparr>,
          ft_index_handle = \<lparr>bh_offset = word_of_nat (n + length (block_file (meta_bytes opts blocks))),
            bh_size = word_of_nat (length (index_bytes opts seps blocks))\<rparr>\<rparr>)"

definition table_file :: "TableOptions \<Rightarrow> bytes list \<Rightarrow> (bytes \<times> bytes) list list \<Rightarrow> bytes" where
  "table_file opts seps blocks =
     data_file (to_block_restart_interval opts) blocks @ filter_file opts blocks @ block_file (meta_bytes opts blocks) @
     block_file (index_bytes opts seps blocks) @ footer_bytes (table_footer opts seps blocks)"

text \<open>The keys of the index entries: between two blocks the separator of the keys on both sides, after the last block the short successor of
  the last key.\<close>

definition separator_at :: "comparator_ops \<Rightarrow> (bytes \<times> bytes) list list \<Rightarrow> nat \<Rightarrow> bytes" where
  "separator_at c bs j = FindShortestSeparator c (fst (last (bs ! j))) (fst (hd (bs ! Suc j)))"

definition index_keys :: "comparator_ops \<Rightarrow> (bytes \<times> bytes) list list \<Rightarrow> bytes list" where
  "index_keys c blocks = map (separator_at c blocks) [0..<length blocks - 1] @
     (if blocks = [] then [] else [FindShortSuccessor c (fst (last (last blocks)))])"

definition index_prefix :: "comparator_ops \<Rightarrow> (bytes \<times> bytes) list list \<Rightarrow> bytes list \<Rightarrow> bool" where
  "index_prefix c bs seps \<longleftrightarrow> (\<forall>j < length seps. seps ! j = separator_at c bs j)"

text \<open>A separator is not below the keys of its block and below all later keys.\<close>

definition separators :: "comparator_ops \<Rightarrow> (bytes \<Rightarrow> bool) \<Rightarrow> bytes list \<Rightarrow> (bytes \<times> bytes) list list \<Rightarrow> bool" where
  "separators c valid seps bs \<longleftrightarrow>
     (\<forall>j < length seps. valid (seps ! j) \<and>
        (j < length bs \<longrightarrow> (\<forall>(k, v) \<in> set (bs ! j). Compare c k (seps ! j) \<le> 0)) \<and>
        (\<forall>i. j < i \<longrightarrow> i < length bs \<longrightarrow> (\<forall>(k, v) \<in> set (bs ! i). Compare c (seps ! j) k < 0)))"

definition sorted_entries :: "comparator_ops \<Rightarrow> (bytes \<Rightarrow> bool) \<Rightarrow> (bytes \<times> bytes) list \<Rightarrow> bool" where
  "sorted_entries c valid es \<longleftrightarrow> (\<forall>(k, v) \<in> set es. valid k) \<and> sorted_wrt (\<lambda>(k, _) (k', _). Compare c k k' < 0) es"

lemma sorted_entries_valid: "sorted_entries c valid es \<Longrightarrow> e \<in> set es \<Longrightarrow> valid (fst e)"
  by (auto simp: sorted_entries_def)

lemma sorted_entries_append:
  "sorted_entries c valid (xs @ ys) \<longleftrightarrow>
     sorted_entries c valid xs \<and> sorted_entries c valid ys \<and> (\<forall>e \<in> set xs. \<forall>e' \<in> set ys. Compare c (fst e) (fst e') < 0)"
  by (auto simp: sorted_entries_def sorted_wrt_append case_prod_beta)

lemma data_file_snoc: "data_file R (blocks @ [blk]) = data_file R blocks @ block_file (built_bytes R blk)"
  by (simp add: data_file_def)

lemma data_handle_append: "j < length blocks \<Longrightarrow> data_handle R (blocks @ later) j = data_handle R blocks j"
  by (simp add: data_handle_def nth_append)

lemma index_entries_append:
  "length seps \<le> length blocks \<Longrightarrow> index_entries R seps (blocks @ later) = index_entries R seps blocks"
  by (simp add: index_entries_def data_handle_append)

lemma index_entries_snoc:
  "index_entries R (seps @ [s]) blocks = index_entries R seps blocks @ [(s, handle_bytes (data_handle R blocks (length seps)))]"
proof -
  have "map (\<lambda>j. ((seps @ [s]) ! j, handle_bytes (data_handle R blocks j))) [0..<length seps] = index_entries R seps blocks"
    unfolding index_entries_def by (rule map_cong) (auto simp: nth_append)
  thus ?thesis
    by (simp add: index_entries_def [of R "seps @ [s]"])
qed

lemma filter_blocks_key:
  "fold (add_block p) (filter_blocks R blocks (cur @ [(k, v)])) b = AddKey k (fold (add_block p) (filter_blocks R blocks cur) b)"
  by (simp add: filter_blocks_def add_block_def)

lemma filter_blocks_flush:
  "fold (add_block p) (filter_blocks R (blocks @ [cur]) []) b =
   StartBlock p (word_of_nat (length (data_file R (blocks @ [cur])))) (fold (add_block p) (filter_blocks R blocks cur) b)"
proof -
  have "map (\<lambda>j. (word_of_nat (length (data_file R (take j (blocks @ [cur])))), map fst ((blocks @ [cur]) ! j))) [0..<length blocks] =
        map (\<lambda>j. (word_of_nat (length (data_file R (take j blocks))), map fst (blocks ! j))) [0..<length blocks]"
    by (rule map_cong) (auto simp: nth_append)
  hence "filter_blocks R (blocks @ [cur]) [] = filter_blocks R blocks cur @ [(word_of_nat (length (data_file R (blocks @ [cur]))), [])]"
    by (simp add: filter_blocks_def)
  thus ?thesis
    by (simp add: add_block_def)
qed

lemma built_snoc: "built R (es @ [(k, v)]) = BlockBuilder_Add k v (built R es)"
  by (simp add: built_def)

lemma built_Nil: "built R [] = BlockBuilder_new R"
  by (simp add: built_def)

lemma built_Reset: "0 < R \<Longrightarrow> BlockBuilder_Reset (snd (BlockBuilder_Finish (built R es))) = built R []"
  using built_state(1) [of R es] by (simp add: built_Nil BlockBuilder_Reset_def BlockBuilder_Finish_def Let_def BlockBuilder_new_def)

lemma built_empty: "0 < R \<Longrightarrow> BlockBuilder_empty (built R es) \<longleftrightarrow> es = []"
proof -
  have "entry_bytes sh k v \<noteq> []" for sh k v
    using entry_bytes_length [of sh k v] by auto
  thus "0 < R \<Longrightarrow> ?thesis"
    by (auto simp: BlockBuilder_empty_def built_state(2) block_entries_def)
qed

locale table_build =
  reliable_writable_file W good contents + key_shortening "to_comparator opts" valid
  for W :: "'f writable_file_ops" and good contents and opts :: TableOptions and valid +
  assumes interval: "0 < to_block_restart_interval opts"
begin

abbreviation "R \<equiv> to_block_restart_interval opts"
abbreviation "c \<equiv> to_comparator opts"

lemma WriteRawBlock_ok:
  assumes "good (tb_file b)"
  shows "\<exists>f. WriteRawBlock W d kNoCompression b =
     Some (\<lparr>bh_offset = tb_offset b, bh_size = word_of_nat (length d)\<rparr>,
       b\<lparr>tb_status := Status_OK, tb_file := f, tb_offset := tb_offset b + word_of_nat (length (block_file d))\<rparr>) \<and>
     good f \<and> contents f = contents (tb_file b) @ block_file d"
proof -
  obtain f1 where 1: "wf_Append W d (tb_file b) = Some (Status_OK, f1)" "good f1" "contents f1 = contents (tb_file b) @ d"
    using append_ok [OF assms] by blast
  obtain f2 where 2: "wf_Append W (0 # EncodeFixed32 (Mask (crc32c_Value (d @ [0])))) f1 = Some (Status_OK, f2)" "good f2"
      "contents f2 = contents f1 @ 0 # EncodeFixed32 (Mask (crc32c_Value (d @ [0])))"
    using append_ok [OF 1(2)] by blast
  show ?thesis
    by (rule exI [of _ f2]) (use 1 2 in \<open>simp add: WriteRawBlock_def Let_def status_ok_def Status_OK_def compression_byte_def crc32c_Extend_Value block_file_def
        kBlockTrailerSize_def\<close>)
qed

lemma WriteBlock_ok:
  assumes "good (tb_file b)"
  shows "\<exists>f. WriteBlock W block b =
     Some (\<lparr>bh_offset = tb_offset b, bh_size = word_of_nat (length (fst (BlockBuilder_Finish block)))\<rparr>,
       BlockBuilder_Reset (snd (BlockBuilder_Finish block)),
       b\<lparr>tb_status := Status_OK, tb_file := f, tb_offset := tb_offset b + word_of_nat (length (block_file (fst (BlockBuilder_Finish block))))\<rparr>) \<and>
     good f \<and> contents f = contents (tb_file b) @ block_file (fst (BlockBuilder_Finish block))"
  using WriteRawBlock_ok [OF assms, of "fst (BlockBuilder_Finish block)"]
  by (auto simp: WriteBlock_def Let_def case_prod_beta Snappy_Compress_def split: CompressionType.splits)

text \<open>The builder after it has written \<open>x\<close>.\<close>

definition wrote :: "'f TableBuilder \<Rightarrow> bytes \<Rightarrow> 'f TableBuilder \<Rightarrow> bool" where
  "wrote b x b' \<longleftrightarrow> tb_status b' = Status_OK \<and> good (tb_file b') \<and> contents (tb_file b') = contents (tb_file b) @ x \<and>
     tb_offset b' = tb_offset b + word_of_nat (length x) \<and> tb_options b' = tb_options b \<and> tb_filter_block b' = tb_filter_block b \<and>
     tb_index_block b' = tb_index_block b \<and> tb_pending_index_entry b' = tb_pending_index_entry b \<and>
     tb_pending_handle b' = tb_pending_handle b \<and> tb_last_key b' = tb_last_key b"

lemma WriteRawBlock_wrote:
  "good (tb_file b) \<Longrightarrow>
   \<exists>b'. WriteRawBlock W d kNoCompression b = Some (\<lparr>bh_offset = tb_offset b, bh_size = word_of_nat (length d)\<rparr>, b') \<and> wrote b (block_file d) b'"
  using WriteRawBlock_ok [of b d] by (auto simp: wrote_def)

lemma WriteBlock_wrote:
  "good (tb_file b) \<Longrightarrow> built_bytes I es = d \<Longrightarrow>
   \<exists>block b'. WriteBlock W (built I es) b = Some (\<lparr>bh_offset = tb_offset b, bh_size = word_of_nat (length d)\<rparr>, block, b') \<and>
     wrote b (block_file d) b'"
  using WriteBlock_ok [of b "built I es"] by (auto simp: wrote_def built_bytes_def)

definition tb_inv :: "(bytes \<times> bytes) list \<Rightarrow> (bytes \<times> bytes) list list \<Rightarrow> (bytes \<times> bytes) list \<Rightarrow> bytes list \<Rightarrow> 'f TableBuilder \<Rightarrow> bool" where
  "tb_inv es blocks cur seps b \<longleftrightarrow>
     es = concat blocks @ cur \<and> [] \<notin> set blocks \<and> separators c valid seps (blocks @ [cur]) \<and>
     length seps = (if cur = [] then length blocks - 1 else length blocks) \<and>
     index_prefix c (blocks @ [cur]) seps \<and>
     tb_options b = opts \<and> tb_status b = Status_OK \<and>
     good (tb_file b) \<and> contents (tb_file b) = data_file R blocks \<and> tb_offset b = word_of_nat (length (data_file R blocks)) \<and>
     tb_data_block b = built R cur \<and> tb_index_block b = built 1 (index_entries R seps blocks) \<and>
     (tb_pending_index_entry b \<longleftrightarrow> cur = [] \<and> blocks \<noteq> []) \<and>
     (blocks \<noteq> [] \<longrightarrow> tb_pending_handle b = data_handle R blocks (length blocks - 1)) \<and>
     (es \<noteq> [] \<longrightarrow> tb_last_key b = fst (last es)) \<and>
     tb_filter_block b = map_option (\<lambda>p. (p, fold (add_block p) (filter_blocks R blocks cur) FilterBlockBuilder_new)) (to_filter_policy opts)"

lemma tb_inv_new:
  assumes "good f" and "contents f = []"
  shows "tb_inv [] [] [] [] (TableBuilder_new opts f)"
  using assms
  by (simp add: tb_inv_def index_prefix_def TableBuilder_new_def filter_StartBlock_def separators_def data_file_def built_Nil index_entries_def
      filter_blocks_def add_block_def option.map_comp comp_def)

lemma Flush_inv:
  assumes "tb_inv es blocks cur seps b" and "cur \<noteq> []"
  shows "\<exists>b'. TableBuilder_Flush W b = Some b' \<and> tb_inv es (blocks @ [cur]) [] seps b'"
proof -
  have inv: "tb_options b = opts" "tb_status b = Status_OK" "good (tb_file b)" "contents (tb_file b) = data_file R blocks"
      "tb_offset b = word_of_nat (length (data_file R blocks))" "tb_data_block b = built R cur"
    using assms(1) by (simp_all add: tb_inv_def)
  obtain f1 where 1: "WriteBlock W (built R cur) b =
     Some (\<lparr>bh_offset = tb_offset b, bh_size = word_of_nat (length (built_bytes R cur))\<rparr>, built R [],
       b\<lparr>tb_status := Status_OK, tb_file := f1, tb_offset := tb_offset b + word_of_nat (length (block_file (built_bytes R cur)))\<rparr>)"
     "good f1" "contents f1 = contents (tb_file b) @ block_file (built_bytes R cur)"
    using WriteBlock_ok [OF inv(3), of "built R cur"] by (auto simp: built_bytes_def built_Reset [OF interval])
  obtain f2 where 2: "wf_Flush W f1 = Some (Status_OK, f2)" "good f2" "contents f2 = contents f1"
    using flush_ok [OF 1(2)] by blast
  have off: "tb_offset b + word_of_nat (length (block_file (built_bytes R cur))) = word_of_nat (length (data_file R (blocks @ [cur])))"
    by (simp add: inv(5) data_file_snoc)
  have run: "TableBuilder_Flush W b = Some (filter_StartBlock (word_of_nat (length (data_file R (blocks @ [cur]))))
      (b\<lparr>tb_offset := word_of_nat (length (data_file R (blocks @ [cur]))), tb_data_block := built R [],
         tb_pending_handle := data_handle R (blocks @ [cur]) (length blocks), tb_pending_index_entry := True,
         tb_status := Status_OK, tb_file := f2\<rparr>))"
    using 1(1) [unfolded off] 2(1) inv assms(2)
    by (simp add: TableBuilder_Flush_def tb_ok_def Let_def built_empty [OF interval] off data_handle_def nth_append status_ok_def Status_OK_def)
  have seps: "length seps = length blocks" "separators c valid seps (blocks @ [cur])"
    using assms by (simp_all add: tb_inv_def)
  have "index_prefix c ((blocks @ [cur]) @ [[]]) seps"
    using assms(1) seps(1) by (simp add: tb_inv_def index_prefix_def separator_at_def nth_append)
  moreover have "separators c valid seps ((blocks @ [cur]) @ [[]])"
    using seps(2) by (auto simp: separators_def nth_append less_Suc_eq)
  ultimately show ?thesis
    using assms run seps(1) 1(3) 2 inv(4)
    by (simp add: tb_inv_def filter_StartBlock_def option.map_comp comp_def filter_blocks_flush index_entries_append data_file_snoc)
qed

lemma last_below:
  assumes "sorted_entries c valid (es @ [(k, v)])" and "es \<noteq> []"
  shows "valid (fst (last es)) \<and> valid k \<and> Compare c (fst (last es)) k < 0"
  using assms(1) sorted_entries_valid [OF assms(1), of "last es"] sorted_entries_valid [OF assms(1), of "(k, v)"] last_in_set [OF assms(2)]
  by (auto simp: sorted_entries_append)

lemma below_last:
  assumes "sorted_entries c valid es" and "e \<in> set es"
  shows "Compare c (fst e) (fst (last es)) \<le> 0"
proof -
  obtain ys l where es: "es = ys @ [l]" using assms(2) by (cases es rule: rev_cases) auto
  moreover have "Compare c (fst l) (fst l) = 0"
    using key_order.cmp_self [OF order] sorted_entries_valid [OF assms(1)] es by simp
  ultimately show ?thesis
    using assms by (auto simp: sorted_entries_append intro: less_imp_le)
qed

text \<open>A new entry of the last block stays above the separators.\<close>

lemma separators_key:
  assumes seps: "separators c valid seps (blocks @ [cur])" "length seps \<le> length blocks"
    and es: "es = concat blocks @ cur" "cur = [] \<longrightarrow> length seps \<le> length blocks - 1" "[] \<notin> set blocks"
    and sorted: "sorted_entries c valid (es @ [(k, v)])"
  shows "separators c valid seps (blocks @ [cur @ [(k, v)]])"
proof -
  have "Compare c (seps ! j) k < 0" if j: "j < length seps" for j
  proof -
    have "\<exists>i. j < i \<and> i < length (blocks @ [cur]) \<and> (\<exists>e \<in> set ((blocks @ [cur]) ! i). e = last es)"
    proof (cases "cur = []")
      case True
      hence "blocks \<noteq> []" "j < length blocks - 1" using es(2) j by auto
      moreover have "last es \<in> set (last blocks)"
        using True es(1,3) \<open>blocks \<noteq> []\<close> by (cases blocks rule: rev_cases) (auto simp: last_append)
      ultimately show ?thesis
        using True by (intro exI [of _ "length blocks - 1"]) (auto simp: nth_append last_conv_nth)
    next
      case False
      thus ?thesis using es(1) j seps(2) by (intro exI [of _ "length blocks"]) auto
    qed
    then obtain i where i: "j < i" "i < length (blocks @ [cur])" "last es \<in> set ((blocks @ [cur]) ! i)" by blast
    hence "Compare c (seps ! j) (fst (last es)) < 0" "valid (seps ! j)"
      using seps(1) j unfolding separators_def case_prod_beta by blast+
    moreover have "es \<noteq> []"
    proof -
      have "set ((blocks @ [cur]) ! i) \<subseteq> set (concat (blocks @ [cur]))"
        using nth_mem [OF i(2)] by (metis UN_upper set_concat)
      hence "last es \<in> set es" using i(3) es(1) by auto
      thus ?thesis by auto
    qed
    ultimately show ?thesis
      using key_order.cmp_less_trans [OF order] last_below [OF sorted] by blast
  qed
  thus ?thesis
    using seps by (auto simp: separators_def nth_append less_Suc_eq)
qed

lemma separators_new:
  assumes seps: "separators c valid seps (blocks @ [[]])" "Suc (length seps) = length blocks"
    and s: "valid s" "\<And>j e. j < length blocks \<Longrightarrow> e \<in> set (blocks ! j) \<Longrightarrow> Compare c (fst e) s \<le> 0"
  shows "separators c valid (seps @ [s]) blocks"
  using assms by (auto simp: separators_def nth_append less_Suc_eq)

lemma tb_inv_blocks: "tb_inv es blocks cur seps b \<Longrightarrow> j < length blocks \<Longrightarrow> e \<in> set (blocks ! j) \<Longrightarrow> e \<in> set es"
  unfolding tb_inv_def using nth_mem by fastforce

lemma Add_inv:
  assumes inv: "tb_inv es blocks cur seps b" and sorted: "sorted_entries c valid (es @ [(k, v)])"
  shows "\<exists>b' blocks' cur' seps'. TableBuilder_Add W k v b = Some b' \<and> tb_inv (es @ [(k, v)]) blocks' cur' seps' b'"
proof -
  define sep where "sep = FindShortestSeparator c (tb_last_key b) k"
  define b1 where "b1 = (if tb_pending_index_entry b then add_index_entry sep b else b)"
  define seps1 where "seps1 = (if tb_pending_index_entry b then seps @ [sep] else seps)"
  define b2 where "b2 = b1\<lparr>tb_filter_block := map_option (\<lambda>(policy, fb). (policy, AddKey k fb)) (tb_filter_block b1),
      tb_last_key := k, tb_num_entries := tb_num_entries b1 + 1, tb_data_block := BlockBuilder_Add k v (tb_data_block b1)\<rparr>"
  have seps: "separators c valid seps (blocks @ [cur])" "length seps = (if cur = [] then length blocks - 1 else length blocks)"
    and es: "es = concat blocks @ cur" "[] \<notin> set blocks" and pend: "tb_pending_index_entry b \<longleftrightarrow> cur = [] \<and> blocks \<noteq> []"
    using inv by (simp_all add: tb_inv_def)
  have sep1: "separators c valid seps1 (blocks @ [cur @ [(k, v)]]) \<and> length seps1 = length blocks"
  proof (cases "tb_pending_index_entry b")
    case True
    hence ne: "cur = []" "blocks \<noteq> []" "es \<noteq> []" using pend es by (cases blocks; auto)+
    have key: "tb_last_key b = fst (last es)" using inv ne by (simp add: tb_inv_def)
    have s: "valid sep" "Compare c (fst (last es)) sep \<le> 0" "Compare c sep k < 0"
      using separator_bounds last_below [OF sorted ne(3)] by (simp_all add: sep_def key)
    have below: "Compare c (fst e) sep \<le> 0" if "j < length blocks" "e \<in> set (blocks ! j)" for j e
      using that tb_inv_blocks [OF inv that] sorted below_last [of es e] sorted_entries_valid [OF sorted] s
        key_order.cmp_trans [OF order, of "fst e" "fst (last es)" sep] last_below [OF sorted ne(3)]
      by (simp add: sorted_entries_append)
    have "separators c valid seps (blocks @ [cur @ [(k, v)]])"
      using separators_key [OF seps(1) _ es(1) _ es(2) sorted] seps(2) ne by simp
    thus ?thesis
      using below s seps(2) ne by (auto simp: seps1_def True separators_def nth_append less_Suc_eq)
  next
    case False
    thus ?thesis
      using separators_key [OF seps(1) _ es(1) _ es(2) sorted] seps(2) pend by (auto simp: seps1_def)
  qed
  have old: "index_prefix c (blocks @ [cur]) seps" using inv by (simp add: tb_inv_def)
  have keys1: "index_prefix c (blocks @ [cur @ [(k, v)]]) seps1"
  proof (cases "tb_pending_index_entry b")
    case True
    hence ne: "cur = []" "blocks \<noteq> []" "length seps = length blocks - 1" using pend seps(2) by auto
    hence "last es = last (blocks ! (length blocks - 1))" "es \<noteq> []"
      using es by (cases blocks rule: rev_cases; auto)+
    hence new: "sep = separator_at c (blocks @ [cur @ [(k, v)]]) (length blocks - 1)"
      using inv ne by (simp add: sep_def separator_at_def tb_inv_def nth_append)
    show ?thesis
      unfolding index_prefix_def
    proof (intro allI impI)
      fix j
      assume "j < length seps1"
      then consider "j < length seps" | "j = length blocks - 1" using ne(3) sep1 by (cases "j < length seps") auto
      thus "seps1 ! j = separator_at c (blocks @ [cur @ [(k, v)]]) j"
        by cases (use old new ne True in \<open>auto simp: seps1_def index_prefix_def separator_at_def nth_append\<close>)
    qed
  next
    case False
    thus ?thesis
      using old seps(2) by (auto simp: seps1_def index_prefix_def separator_at_def nth_append split: if_splits)
  qed
  have "tb_inv (es @ [(k, v)]) blocks (cur @ [(k, v)]) seps1 b2"
  proof (cases "tb_pending_index_entry b")
    case True
    hence "cur = []" "blocks \<noteq> []" "length seps = length blocks - 1" using pend seps(2) by auto
    thus ?thesis
      using inv sep1 keys1 True
      by (simp add: tb_inv_def b2_def b1_def seps1_def add_index_entry_def option.map_comp comp_def filter_blocks_key [where cur = "[]", simplified]
          built_snoc [where es = "[]", simplified] index_entries_snoc BlockHandle_EncodeTo_eq built_snoc)
  next
    case False
    thus ?thesis
      using inv sep1 keys1 by (simp add: tb_inv_def b2_def b1_def seps1_def option.map_comp comp_def filter_blocks_key built_snoc)
  qed
  moreover have "TableBuilder_Add W k v b = (if CurrentSizeEstimate (tb_data_block b2) \<ge> to_block_size opts then TableBuilder_Flush W b2 else Some b2)"
    using inv by (simp add: TableBuilder_Add_def tb_inv_def tb_ok_def status_ok_def Status_OK_def Let_def b2_def b1_def sep_def add_index_entry_def)
  ultimately show ?thesis
    using Flush_inv by fastforce
qed

lemma AddAll_inv:
  "tb_inv es blocks cur seps b \<Longrightarrow> sorted_entries c valid (es @ new) \<Longrightarrow>
   \<exists>b' blocks' cur' seps'. TableBuilder_AddAll W new b = Some b' \<and> tb_inv (es @ new) blocks' cur' seps' b'"
proof (induction new arbitrary: es blocks cur seps b)
  case Nil
  thus ?case by auto
next
  case (Cons e new)
  obtain k v where e: "e = (k, v)" by (cases e)
  have "sorted_entries c valid (es @ [(k, v)])"
    using Cons.prems(2) sorted_entries_append [of c valid "es @ [e]" new] by (simp add: e)
  then obtain b1 where "TableBuilder_Add W k v b = Some b1" "\<exists>blocks' cur' seps'. tb_inv (es @ [(k, v)]) blocks' cur' seps' b1"
    using Add_inv [OF Cons.prems(1)] by blast
  thus ?case
    using Cons.IH [of "es @ [e]"] Cons.prems(2) by (auto simp: e)
qed

text \<open>The end of \<open>Finish\<close>, on a builder whose data block has been written.\<close>

lemma Finish_index:
  assumes inv: "tb_inv es blocks [] seps b" and sorted: "sorted_entries c valid es"
  shows "\<exists>seps'. (if tb_pending_index_entry b then tb_index_block (add_index_entry (FindShortSuccessor c (tb_last_key b)) b)
       else tb_index_block b) = built 1 (index_entries R seps' blocks) \<and>
     seps' = index_keys c blocks \<and> length seps' = length blocks \<and> separators c valid seps' blocks"
proof (cases "blocks = []")
  case True
  thus ?thesis using inv by (auto simp: tb_inv_def intro!: exI [of _ "[]"] simp: separators_def index_keys_def)
next
  case False
  let ?s = "FindShortSuccessor c (tb_last_key b)"
  have es: "es = concat blocks" "[] \<notin> set blocks" "Suc (length seps) = length blocks" "separators c valid seps (blocks @ [[]])"
    and pend: "tb_pending_index_entry b" and index: "tb_index_block b = built 1 (index_entries R seps blocks)"
      "tb_pending_handle b = data_handle R blocks (length seps)"
    using inv False by (auto simp: tb_inv_def)
  have ne: "es \<noteq> []" using es False by (cases blocks) auto
  have key: "tb_last_key b = fst (last es)"
    using inv ne by (simp add: tb_inv_def)
  have vkey: "valid (tb_last_key b)"
    using sorted_entries_valid [OF sorted last_in_set [OF ne]] key by simp
  have below: "Compare c (fst e) ?s \<le> 0" if "j < length blocks" "e \<in> set (blocks ! j)" for j e
    using below_last [OF sorted tb_inv_blocks [OF inv that]] sorted_entries_valid [OF sorted tb_inv_blocks [OF inv that]] key vkey successor_bound
      key_order.cmp_trans [OF order, of "fst e" "tb_last_key b" ?s] by simp
  have "separators c valid (seps @ [?s]) blocks"
    using successor_bound [OF vkey] below by (intro separators_new [OF es(4,3)]) auto
  moreover have "index_keys c blocks = seps @ [?s]"
  proof -
    have "last es = last (last blocks)" using es False by (cases blocks rule: rev_cases) auto
    moreover have "seps ! j = separator_at c blocks j" if "j < length seps" for j
      using inv es(3) that by (simp add: tb_inv_def index_prefix_def separator_at_def nth_append)
    hence "seps = map (separator_at c blocks) [0..<length blocks - 1]"
      using es(3) by (intro nth_equalityI) auto
    ultimately show ?thesis
      using False key by (simp add: index_keys_def)
  qed
  ultimately show ?thesis
    using pend index es(3) by (intro exI [of _ "seps @ [?s]"])
      (simp add: add_index_entry_def built_snoc index_entries_snoc BlockHandle_EncodeTo_eq)
qed

lemma Finish_ok:
  assumes inv: "tb_inv es blocks cur seps b" and sorted: "sorted_entries c valid es"
  shows "\<exists>b' blocks'. TableBuilder_Finish W b = Some (Status_OK, b') \<and> good (tb_file b') \<and>
     contents (tb_file b') = table_file opts (index_keys c blocks') blocks' \<and>
     tb_offset b' = word_of_nat (length (table_file opts (index_keys c blocks') blocks')) \<and>
     es = concat blocks' \<and> [] \<notin> set blocks' \<and> separators c valid (index_keys c blocks') blocks'"
proof -
  obtain b1 blocks1 seps1 where flush: "TableBuilder_Flush W b = Some b1" and inv1: "tb_inv es blocks1 [] seps1 b1"
  proof (cases "cur = []")
    case True
    hence "TableBuilder_Flush W b = Some b"
      using inv by (simp add: TableBuilder_Flush_def tb_inv_def built_empty [OF interval])
    thus ?thesis using that inv True by blast
  next
    case False
    thus ?thesis using that Flush_inv [OF inv False] by blast
  qed
  define b2 where "b2 = b1\<lparr>tb_closed := True\<rparr>"
  have b2: "tb_options b2 = opts" "tb_status b2 = Status_OK" "good (tb_file b2)" "contents (tb_file b2) = data_file R blocks1"
      "tb_offset b2 = word_of_nat (length (data_file R blocks1))"
      "tb_filter_block b2 = map_option (\<lambda>p. (p, fold (add_block p) (filter_blocks R blocks1 []) FilterBlockBuilder_new)) (to_filter_policy opts)"
    using inv1 by (simp_all add: b2_def tb_inv_def)
  let ?D = "data_file R blocks1" and ?F = "filter_file opts blocks1" and ?M = "meta_bytes opts blocks1"
  obtain fh b3 where filter_written: "(case tb_filter_block b2 of
            Some (policy, fb) \<Rightarrow>
              if tb_ok b2 then WriteRawBlock W (FilterBlock_Finish policy fb) kNoCompression b2 else Some (BlockHandle_new, b2)
          | None \<Rightarrow> Some (BlockHandle_new, b2)) = Some (fh, b3)" and w3: "wrote b2 ?F b3"
      and fh: "\<And>p. to_filter_policy opts = Some p \<Longrightarrow> fh = filter_handle opts blocks1 p"
  proof (cases "to_filter_policy opts")
    case None
    thus ?thesis using that [of BlockHandle_new b2] b2 by (simp add: wrote_def filter_file_def)
  next
    case (Some p)
    thus ?thesis
      using WriteRawBlock_wrote [OF b2(3), of "build_filter_block p (filter_blocks R blocks1 [])"] that b2
      by (fastforce simp: filter_file_def filter_handle_def build_filter_block_def tb_ok_def status_ok_def Status_OK_def)
  qed
  have b3: "tb_ok b3" "good (tb_file b3)" "tb_options b3 = opts" "tb_offset b3 = word_of_nat (length (?D @ ?F))"
      "tb_filter_block b3 = tb_filter_block b2" "contents (tb_file b3) = ?D @ ?F"
    using w3 b2 by (simp_all add: wrote_def tb_ok_def status_ok_def Status_OK_def)
  have meta: "(let meta = BlockBuilder_new (to_block_restart_interval (tb_options b3))
               in case tb_filter_block b3 of
                    None \<Rightarrow> Some meta
                  | Some _ \<Rightarrow>
                      map_option (\<lambda>policy. BlockBuilder_Add (cstr ''filter.'' @ PolicyName policy)
                        (BlockHandle_EncodeTo fh []) meta) (to_filter_policy (tb_options b3))) = Some (built R (meta_entries opts blocks1))"
    using fh by (cases "to_filter_policy opts") (simp_all add: b3 b2 meta_entries_def built_Nil built_snoc [where es = "[]", simplified] BlockHandle_EncodeTo_eq Let_def)
  obtain block4 b4 where meta_written: "WriteBlock W (built R (meta_entries opts blocks1)) b3 =
      Some (\<lparr>bh_offset = tb_offset b3, bh_size = word_of_nat (length ?M)\<rparr>, block4, b4)" and w4: "wrote b3 (block_file ?M) b4"
    using WriteBlock_wrote [OF b3(2) meta_bytes_def [of opts blocks1, symmetric]] by blast
  define b5 where "b5 = (if tb_pending_index_entry b4 then add_index_entry (FindShortSuccessor c (tb_last_key b4)) b4 else b4)"
  obtain seps' where index: "tb_index_block b5 = built 1 (index_entries R seps' blocks1)" "seps' = index_keys c blocks1" "separators c valid seps' blocks1"
    using Finish_index [OF inv1 sorted] w3 w4 by (auto simp: b5_def b2_def wrote_def add_index_entry_def)
  have b5: "tb_ok b4" "tb_options b4 = opts" "good (tb_file b5)" "tb_offset b5 = word_of_nat (length (?D @ ?F @ block_file ?M))"
      "contents (tb_file b5) = ?D @ ?F @ block_file ?M"
    using w4 b3 by (simp_all add: b5_def wrote_def tb_ok_def status_ok_def Status_OK_def add_index_entry_def)
  let ?X = "index_bytes opts seps' blocks1"
  obtain block6 b6 where index_written: "WriteBlock W (tb_index_block b5) b5 =
      Some (\<lparr>bh_offset = tb_offset b5, bh_size = word_of_nat (length ?X)\<rparr>, block6, b6)" and w6: "wrote b5 (block_file ?X) b6"
    unfolding index(1) using WriteBlock_wrote [OF b5(3) index_bytes_def [of opts seps' blocks1, symmetric]] by blast
  define b7 where "b7 = b6\<lparr>tb_index_block := block6\<rparr>"
  have b7: "tb_ok b7" "good (tb_file b7)" "tb_offset b7 = word_of_nat (length (?D @ ?F @ block_file ?M @ block_file ?X))"
      "contents (tb_file b7) = ?D @ ?F @ block_file ?M @ block_file ?X"
    using w6 b5 by (simp_all add: b7_def wrote_def tb_ok_def status_ok_def Status_OK_def)
  let ?T = "footer_bytes (table_footer opts seps' blocks1)"
  obtain f where footer_written: "wf_Append W ?T (tb_file b7) = Some (Status_OK, f)" "good f" "contents f = contents (tb_file b7) @ ?T"
    using append_ok [OF b7(2)] by blast
  have footer: "Footer_EncodeTo \<lparr>ft_metaindex_handle = \<lparr>bh_offset = tb_offset b3, bh_size = word_of_nat (length ?M)\<rparr>,
      ft_index_handle = \<lparr>bh_offset = tb_offset b5, bh_size = word_of_nat (length ?X)\<rparr>\<rparr> [] = ?T"
    by (simp add: footer_bytes_def table_footer_def b3(4) b5(4) Let_def add.assoc)
  let ?b = "b7\<lparr>tb_status := Status_OK, tb_file := f, tb_offset := tb_offset b7 + word_of_nat (length ?T)\<rparr>"
  have next_index: "(if tb_pending_index_entry b4 then add_index_entry (FindShortSuccessor (to_comparator (tb_options b4)) (tb_last_key b4)) b4 else b4) = b5"
    by (simp add: b5_def b5(2))
  have "TableBuilder_Finish W b = Some (Status_OK, ?b)"
    unfolding TableBuilder_Finish_def flush bind.bind_lunit Let_def b2_def [symmetric] filter_written prod.case
    using meta [unfolded Let_def] meta_written index_written footer_written(1) b3(1) b5(1) b7(1) footer next_index
    by (simp add: b7_def [symmetric] status_ok_def Status_OK_def split del: if_split)
  moreover have "contents (tb_file ?b) = table_file opts seps' blocks1" "tb_offset ?b = word_of_nat (length (table_file opts seps' blocks1))"
    by (simp_all add: footer_written b7 table_file_def)
  ultimately show ?thesis
    using index(2,3) inv1 footer_written(2) by (intro exI [of _ ?b] exI [of _ blocks1]) (simp add: tb_inv_def)
qed

end

text \<open>The contract holds of the POSIX files and the default options.\<close>

interpretation posix_table: table_build "PosixWritableFile_ops mem_kernel"
  "\<lambda>(f, os). mem_fs.open_file f os" "\<lambda>(f, os). mem_fs.logical f os" TableOptions_new "\<lambda>_. True"
  by (intro table_build.intro posix_log_file.reliable_writable_file_axioms table_build_axioms.intro)
    (simp_all add: TableOptions_new_def bytewise_shortening.key_shortening_axioms)

end
