(* ===== verification/Ldb_Table.thy ===== *)
theory Ldb_Table
  imports Ldb_Table_Builder
begin

text \<open>
  Reading tables (\<open>table/table.cc\<close>): opening a file, the iterator over its entries, the lookup of a key. The file and
  the block cache are interfaces whose operations pass on an environment; a cache hands out handles of type \<open>'h\<close>. An
  operation is \<open>None\<close> if it accesses memory it must not or does not return. The theorems say that a file written by a
  table builder is read back exactly, opened without a block cache.
\<close>

section \<open>The block cache as the table sees it\<close>

text \<open>The operations of the class \<open>Cache\<close> that a table calls; the deleter of a block has no effect that the model has.\<close>

record ('h, 'e) cache_ops =
  ca_Insert :: "bytes \<Rightarrow> block \<Rightarrow> nat \<Rightarrow> 'e \<Rightarrow> 'h \<times> 'e"
  ca_Lookup :: "bytes \<Rightarrow> 'e \<Rightarrow> 'h option \<times> 'e"
  ca_Release :: "'h \<Rightarrow> 'e \<Rightarrow> 'e"
  ca_Value :: "'h \<Rightarrow> 'e \<Rightarrow> block"
  ca_NewId :: "'e \<Rightarrow> u64 \<times> 'e"

section \<open>The table\<close>

record ('h, 'e) Table =
  tab_options :: TableOptions
  tab_block_cache :: "('h, 'e) cache_ops option"
  tab_file :: "'e random_access_ops"
  tab_cache_id :: u64
  tab_filter :: "(filter_policy_ops \<times> FilterBlockReader) option"
  tab_metaindex_handle :: BlockHandle
  tab_index_block :: block

text \<open>The options of the reads that \<open>Open\<close> makes.\<close>

definition open_read_options :: "TableOptions \<Rightarrow> ReadOptions" where
  "open_read_options options =
     (if to_paranoid_checks options then ReadOptions_new\<lparr>ro_verify_checksums := True\<rparr> else ReadOptions_new)"

definition Table_ReadFilter ::
    "filter_policy_ops \<Rightarrow> bytes \<Rightarrow> ('h, 'e) Table \<Rightarrow> 'e \<Rightarrow> (('h, 'e) Table \<times> 'e) option" where
  "Table_ReadFilter policy filter_handle_value t e =
     (case BlockHandle_DecodeFrom BlockHandle_new filter_handle_value of (s, handle, _) \<Rightarrow>
        if \<not> status_ok s then Some (t, e)
        else do {
          ((s, blk), e) \<leftarrow> ReadBlock (tab_file t) (open_read_options (tab_options t)) handle e;
          if \<not> status_ok s then Some (t, e)
          else Some (t\<lparr>tab_filter := Some (policy, FilterBlockReader_new (bc_data blk))\<rparr>, e)
        })"

definition Table_ReadMeta :: "Footer \<Rightarrow> ('h, 'e) Table \<Rightarrow> 'e \<Rightarrow> (('h, 'e) Table \<times> 'e) option" where
  "Table_ReadMeta footer t e =
     (case to_filter_policy (tab_options t) of
        None \<Rightarrow> Some (t, e)
      | Some policy \<Rightarrow> do {
          ((s, contents), e) \<leftarrow> ReadBlock (tab_file t) (open_read_options (tab_options t)) (ft_metaindex_handle footer) e;
          if \<not> status_ok s then Some (t, e)
          else let meta = Block_new (bc_data contents);
                   iter = (Block_NewIterator BytewiseComparator meta, []);
                   key = cstr ''filter.'' @ PolicyName policy
               in do {
                 (iter, e) \<leftarrow> it_Seek block_iterator_ops key iter e;
                 (t, e) \<leftarrow> (if it_Valid block_iterator_ops iter \<and> it_key block_iterator_ops iter = key
                            then do {
                              v \<leftarrow> it_value block_iterator_ops iter;
                              Table_ReadFilter policy v t e
                            }
                            else Some (t, e));
                 Some (t, it_delete block_iterator_ops iter e)
               }
        })"

definition Table_Open ::
    "TableOptions \<Rightarrow> ('h, 'e) cache_ops option \<Rightarrow> 'e random_access_ops \<Rightarrow> u64 \<Rightarrow> 'e \<Rightarrow>
     ((Status \<times> ('h, 'e) Table option) \<times> 'e) option" where
  "Table_Open options cache F file_size e =
     (if unat file_size < kEncodedLength then Some ((Status_Corruption (cstr ''file is too short to be an sstable'') [], None), e)
      else case ra_Read F (file_size - word_of_nat kEncodedLength) (word_of_nat kEncodedLength) e of ((s, footer_input, _), e) \<Rightarrow>
        if \<not> status_ok s then Some ((s, None), e)
        else do {
          (s, footer, _) \<leftarrow> Footer_DecodeFrom Footer_new footer_input;
          if \<not> status_ok s then Some ((s, None), e)
          else do {
            ((s, contents), e) \<leftarrow> ReadBlock F (open_read_options options) (ft_index_handle footer) e;
            if status_ok s
            then let (cache_id, e) = (case cache of Some ca \<Rightarrow> ca_NewId ca e | None \<Rightarrow> (0, e));
                     t = \<lparr>tab_options = options, tab_block_cache = cache, tab_file = F, tab_cache_id = cache_id,
                          tab_filter = None, tab_metaindex_handle = ft_metaindex_handle footer,
                          tab_index_block = Block_new (bc_data contents)\<rparr>
                 in do {
                   (t, e) \<leftarrow> Table_ReadMeta footer t e;
                   Some ((s, Some t), e)
                 }
            else Some ((s, None), e)
          }
        })"

definition cache_key :: "u64 \<Rightarrow> u64 \<Rightarrow> bytes" where
  "cache_key cache_id offset = EncodeFixed64 cache_id @ EncodeFixed64 offset"

text \<open>A block that is not in the cache is owned by its iterator: the cleanup \<open>DeleteBlock\<close> changes nothing that the
  model has.\<close>

definition Table_BlockReader ::
    "('h, 'e) Table \<Rightarrow> ReadOptions \<Rightarrow> bytes \<Rightarrow> 'e \<Rightarrow> ('e cleanup_iterator \<times> 'e) option" where
  "Table_BlockReader t options index_value e =
     (case BlockHandle_DecodeFrom BlockHandle_new index_value of (s, handle, _) \<Rightarrow> do {
        (s, blk, cache_handle, e) \<leftarrow>
          (if status_ok s
           then case tab_block_cache t of
                  Some ca \<Rightarrow>
                    (let key = cache_key (tab_cache_id t) (bh_offset handle)
                     in case ca_Lookup ca key e of
                          (Some h, e) \<Rightarrow> Some (s, Some (ca_Value ca h e), Some (ca, h), e)
                        | (None, e) \<Rightarrow> do {
                            ((s, contents), e) \<leftarrow> ReadBlock (tab_file t) options handle e;
                            if status_ok s
                            then let blk = Block_new (bc_data contents)
                                 in if bc_cachable contents \<and> ro_fill_cache options
                                    then case ca_Insert ca key blk (blk_size blk) e of (h, e) \<Rightarrow> Some (s, Some blk, Some (ca, h), e)
                                    else Some (s, Some blk, None, e)
                            else Some (s, None, None, e)
                          })
                | None \<Rightarrow> do {
                    ((s, contents), e) \<leftarrow> ReadBlock (tab_file t) options handle e;
                    Some (s, if status_ok s then Some (Block_new (bc_data contents)) else None, None, e)
                  }
           else Some (s, None, None, e));
        Some (case blk of
                Some blk \<Rightarrow>
                  (Block_NewIterator (to_comparator (tab_options t)) blk,
                   RegisterCleanup (case cache_handle of None \<Rightarrow> (\<lambda>e. e) | Some (ca, h) \<Rightarrow> ca_Release ca h) [])
              | None \<Rightarrow> (ErrorIterator s, []), e)
      })"

type_synonym 'e table_iterator = "('e cleanup_iterator, 'e cleanup_iterator) TwoLevelIterator"

definition Table_iterator_ops :: "('h, 'e) Table \<Rightarrow> ReadOptions \<Rightarrow> ('e table_iterator, 'e) iterator_ops" where
  "Table_iterator_ops t options = TwoLevelIterator_ops block_iterator_ops block_iterator_ops (Table_BlockReader t options)"

definition Table_NewIterator :: "('h, 'e) Table \<Rightarrow> 'e table_iterator" where
  "Table_NewIterator t =
     NewTwoLevelIterator block_iterator_ops (Block_NewIterator (to_comparator (tab_options t)) (tab_index_block t), [])"

text \<open>The lookup returns the entry that it passes to \<open>handle_result\<close>, if it calls it.\<close>

definition Table_InternalGet ::
    "('h, 'e) Table \<Rightarrow> ReadOptions \<Rightarrow> bytes \<Rightarrow> 'e \<Rightarrow> ((Status \<times> (bytes \<times> bytes) option) \<times> 'e) option" where
  "Table_InternalGet t options k e = do {
     let iiter = (Block_NewIterator (to_comparator (tab_options t)) (tab_index_block t), []);
     (iiter, e) \<leftarrow> it_Seek block_iterator_ops k iiter e;
     ((s, found), e) \<leftarrow>
       (if it_Valid block_iterator_ops iiter
        then do {
          handle_value \<leftarrow> it_value block_iterator_ops iiter;
          if (case tab_filter t of
                None \<Rightarrow> False
              | Some (policy, reader) \<Rightarrow>
                  (case BlockHandle_DecodeFrom BlockHandle_new handle_value of (s, handle, _) \<Rightarrow>
                     status_ok s \<and> \<not> FilterBlockKeyMayMatch policy reader (bh_offset handle) k))
          then Some ((Status_OK, None), e)
          else do {
            (block_iter, e) \<leftarrow> Table_BlockReader t options handle_value e;
            (block_iter, e) \<leftarrow> it_Seek block_iterator_ops k block_iter e;
            found \<leftarrow> (if it_Valid block_iterator_ops block_iter
                      then map_option (\<lambda>v. Some (it_key block_iterator_ops block_iter, v)) (it_value block_iterator_ops block_iter)
                      else Some None);
            Some ((it_status block_iterator_ops block_iter, found), it_delete block_iterator_ops block_iter e)
          }
        }
        else Some ((Status_OK, None), e));
     let s = (if status_ok s then it_status block_iterator_ops iiter else s);
     Some ((s, found), it_delete block_iterator_ops iiter e)
   }"

definition Table_ApproximateOffsetOf :: "('h, 'e) Table \<Rightarrow> bytes \<Rightarrow> 'e \<Rightarrow> (u64 \<times> 'e) option" where
  "Table_ApproximateOffsetOf t key e = do {
     let index_iter = (Block_NewIterator (to_comparator (tab_options t)) (tab_index_block t), []);
     (index_iter, e) \<leftarrow> it_Seek block_iterator_ops key index_iter e;
     result \<leftarrow>
       (if it_Valid block_iterator_ops index_iter
        then do {
          input \<leftarrow> it_value block_iterator_ops index_iter;
          Some (case BlockHandle_DecodeFrom BlockHandle_new input of (s, handle, _) \<Rightarrow>
                  if status_ok s then bh_offset handle else bh_offset (tab_metaindex_handle t))
        }
        else Some (bh_offset (tab_metaindex_handle t)));
     Some (result, it_delete block_iterator_ops index_iter e)
   }"

text \<open>The loop of a client that reads an iterator to its end.\<close>

partial_function (option) it_scan :: "('i, 'e) iterator_ops \<Rightarrow> 'i \<Rightarrow> 'e \<Rightarrow> ((bytes \<times> bytes) list \<times> 'i \<times> 'e) option" where
  "it_scan I it e =
     (if it_Valid I it
      then do {
        v \<leftarrow> it_value I it;
        (it', e) \<leftarrow> it_Next I it e;
        (es, it', e) \<leftarrow> it_scan I it' e;
        Some ((it_key I it, v) # es, it', e)
      }
      else Some ([], it, e))"

section \<open>Reading a cursor to its end\<close>

lemma in_set_take_nth: "x \<in> set (take n xs) \<Longrightarrow> \<exists>i < n. i < length xs \<and> x = xs ! i"
  by (auto simp: in_set_conv_nth)

context cursor
begin

lemma scan_end: "at None it \<Longrightarrow> it_scan I it e = Some ([], it, e)"
  using at_None by (subst it_scan.simps) simp

lemma scan_from: "at (Some i) it \<Longrightarrow> inv e \<Longrightarrow> \<exists>it' e'. it_scan I it e = Some (drop i es, it', e') \<and> at None it' \<and> inv e'"
proof (induction "length es - i" arbitrary: i it e rule: less_induct)
  case less
  have here: "i < length es" "it_Valid I it" "it_key I it = fst (es ! i)" "it_value I it = Some (snd (es ! i))"
    using at_Some [OF less.prems(1)] by auto
  obtain it1 e1 where step: "it_Next I it e = Some (it1, e1)" "inv e1" "at (if Suc i < length es then Some (Suc i) else None) it1"
    using Next [OF less.prems] by blast
  have "\<exists>it' e'. it_scan I it1 e1 = Some (drop (Suc i) es, it', e') \<and> at None it' \<and> inv e'"
    using step less.hyps [of "Suc i" it1 e1] scan_end here(1) by (cases "Suc i < length es") auto
  then obtain it2 e2 where "it_scan I it1 e1 = Some (drop (Suc i) es, it2, e2)" "at None it2" "inv e2" by blast
  thus ?case
    using here step(1) by (subst it_scan.simps) (simp add: Cons_nth_drop_Suc [symmetric])
qed

lemma scan_at: "at k it \<Longrightarrow> inv e \<Longrightarrow>
    \<exists>it' e'. it_scan I it e = Some (case k of None \<Rightarrow> [] | Some i \<Rightarrow> drop i es, it', e') \<and> at None it' \<and> inv e'"
  using scan_end scan_from by (cases k) auto

lemma scan_first:
  assumes "at k it" "inv e"
  shows "\<exists>it' e'. it_SeekToFirst I it e \<bind> (\<lambda>(it, e). it_scan I it e) = Some (es, it', e') \<and> it_status I it' = Status_OK \<and> inv e'"
proof -
  obtain it1 e1 where "it_SeekToFirst I it e = Some (it1, e1)" "inv e1" "at (if es = [] then None else Some 0) it1"
    using SeekToFirst [OF assms] by blast
  thus ?thesis using scan_at [of _ it1 e1] at_status by (fastforce split: if_splits)
qed

lemma first_from_drop:
  "(case first_from cmp target es of None \<Rightarrow> [] | Some i \<Rightarrow> drop i es) = dropWhile (\<lambda>(k, _). cmp k target < 0) es"
proof (cases "first_from cmp target es")
  case None
  hence "\<forall>e \<in> set es. cmp (fst e) target < 0" by (metis first_from_None in_set_conv_nth)
  hence "dropWhile (\<lambda>(k, _). cmp k target < 0) es = []" unfolding dropWhile_eq_Nil_conv by auto
  thus ?thesis using None by (simp only: option.case)
next
  case (Some i)
  hence i: "i < length es" "\<not> cmp (fst (es ! i)) target < 0" "\<forall>j < i. cmp (fst (es ! j)) target < 0"
    by (simp_all add: first_from_Some)
  have "cmp (fst e) target < 0" if e: "e \<in> set (take i es)" for e
  proof -
    obtain j where "j < i" "es ! j = e" using e by (auto simp: in_set_conv_nth)
    thus ?thesis using i(3) by blast
  qed
  hence "dropWhile (\<lambda>(k, _). cmp k target < 0) (take i es @ drop i es) = dropWhile (\<lambda>(k, _). cmp k target < 0) (drop i es)"
    by (intro dropWhile_append2) (auto simp: case_prod_beta)
  moreover have "dropWhile (\<lambda>(k, _). cmp k target < 0) (drop i es) = drop i es"
    using i by (simp add: Cons_nth_drop_Suc [symmetric] case_prod_beta)
  ultimately show ?thesis using Some by simp
qed

lemma scan_seek:
  assumes "at k it" "inv e" "valid target"
  shows "\<exists>it' e'. it_Seek I target it e \<bind> (\<lambda>(it, e). it_scan I it e) = Some (dropWhile (\<lambda>(k, _). cmp k target < 0) es, it', e') \<and>
    it_status I it' = Status_OK \<and> inv e'"
proof -
  obtain it1 e1 where "it_Seek I target it e = Some (it1, e1)" "inv e1" "at (first_from cmp target es) it1"
    using Seek [OF assms] by blast
  thus ?thesis using scan_at [of _ it1 e1] at_status first_from_drop [of target] by fastforce
qed

end

context two_level
begin

lemma two_level_cursor: "cursor (TwoLevelIterator_ops I D bf) (concat blocks) tl_at inv cmp valid"
  by unfold_locales

lemma new_tl_at: "iat k it \<Longrightarrow> tl_at None (NewTwoLevelIterator I it)"
  using index.wrapped_Update [of k it]
  by (auto simp: tl_at_def tl_ok_def NewTwoLevelIterator_def IteratorWrapper_new_def)

end

context sorted_block
begin

lemma block_cursor: "cursor block_iterator_ops es block_at inv (Compare c) valid"
  by unfold_locales

end

section \<open>A table in a file\<close>

lemma data_file_split:
  assumes "j < length blocks"
  shows "data_file R blocks = data_file R (take j blocks) @ block_file (built_bytes R (blocks ! j)) @ data_file R (drop (Suc j) blocks)"
proof -
  have eq: "blocks = take j blocks @ blocks ! j # drop (Suc j) blocks" using assms by (simp add: id_take_nth_drop)
  show ?thesis by (subst eq) (simp add: data_file_def)
qed

lemma data_file_mono: "i \<le> j \<Longrightarrow> length (data_file R (take i blocks)) \<le> length (data_file R (take j blocks))"
  by (auto simp: le_iff_add take_add data_file_def)

definition table_layout :: "TableOptions \<Rightarrow> (bytes \<Rightarrow> bool) \<Rightarrow> bytes list \<Rightarrow> (bytes \<times> bytes) list list \<Rightarrow> bool" where
  "table_layout opts valid seps blocks \<longleftrightarrow>
     [] \<notin> set blocks \<and> length seps = length blocks \<and> separators (to_comparator opts) valid seps blocks \<and>
     sorted_entries (to_comparator opts) valid (concat blocks) \<and> length (table_file opts seps blocks) < 2 ^ 32"

locale stored_table =
  random_access_file F inv "table_file opts seps blocks" + key_order "Compare (to_comparator opts)" valid
  for F :: "'e random_access_ops" and inv and opts :: TableOptions and seps blocks and valid :: "bytes \<Rightarrow> bool" +
  assumes interval: "0 < to_block_restart_interval opts"
    and layout: "table_layout opts valid seps blocks"
begin

abbreviation "R \<equiv> to_block_restart_interval opts"
abbreviation "c \<equiv> to_comparator opts"
abbreviation "ies \<equiv> index_entries R seps blocks"

lemma layout_facts:
  "[] \<notin> set blocks" "length seps = length blocks" "separators c valid seps blocks"
  "sorted_entries c valid (concat blocks)" "length (table_file opts seps blocks) < 2 ^ 32"
  using layout by (simp_all add: table_layout_def)

lemma small: "n \<le> length (table_file opts seps blocks) \<Longrightarrow> unat (word_of_nat n :: u64) = n"
  using layout_facts(5) by (simp only: unsigned_of_nat) (simp add: take_bit_nat_eq_self)

lemma stored_parts:
  assumes "table_file opts seps blocks = pre @ block_file d @ post"
  shows "stored \<lparr>bh_offset = word_of_nat (length pre), bh_size = word_of_nat (length d)\<rparr> d"
proof -
  have "length pre \<le> length (table_file opts seps blocks)" "length d \<le> length (table_file opts seps blocks)"
    by (simp_all add: assms)
  thus ?thesis
    unfolding stored_def using assms small by auto
qed

lemma stored_data: "j < length blocks \<Longrightarrow> stored (data_handle R blocks j) (built_bytes R (blocks ! j))"
  unfolding data_handle_def by (rule stored_parts) (simp add: table_file_def data_file_split [of j])

lemma stored_filter:
  "to_filter_policy opts = Some p \<Longrightarrow> stored (filter_handle opts blocks p) (build_filter_block p (filter_blocks R blocks []))"
  unfolding filter_handle_def by (rule stored_parts) (simp add: table_file_def filter_file_def)

lemma stored_meta: "stored (ft_metaindex_handle (table_footer opts seps blocks)) (meta_bytes opts blocks)"
  unfolding table_footer_def Let_def Footer.simps by (rule stored_parts) (simp add: table_file_def)

lemma stored_index: "stored (ft_index_handle (table_footer opts seps blocks)) (index_bytes opts seps blocks)"
proof -
  have "stored \<lparr>bh_offset = word_of_nat (length (data_file R blocks @ filter_file opts blocks @ block_file (meta_bytes opts blocks))),
      bh_size = word_of_nat (length (index_bytes opts seps blocks))\<rparr> (index_bytes opts seps blocks)"
    by (rule stored_parts) (simp add: table_file_def)
  thus ?thesis by (simp add: table_footer_def Let_def add.assoc)
qed

lemma stored_small: "stored h d \<Longrightarrow> length d < 2 ^ 32"
  using layout_facts(5) by (auto simp: stored_def)

lemma built_size: "0 < I \<Longrightarrow> stored h (built_bytes I es) \<Longrightarrow> built_block I es"
proof -
  assume I: "0 < I" and st: "stored h (built_bytes I es)"
  have "length (bb_buffer (built I es)) \<le> length (built_bytes I es)"
    by (simp add: built_bytes_eq [OF I] built_state(2) [OF I])
  thus ?thesis using stored_small [OF st] I by (intro built_block.intro) auto
qed

lemma block_entries_sorted:
  assumes "j < length blocks"
  shows "sorted_entries c valid (blocks ! j)"
proof -
  have eq: "blocks = take j blocks @ blocks ! j # drop (Suc j) blocks" using assms by (simp add: id_take_nth_drop)
  have "concat blocks = concat (take j blocks) @ blocks ! j @ concat (drop (Suc j) blocks)"
    by (subst eq) simp
  thus ?thesis using layout_facts(4) by (simp add: sorted_entries_append)
qed

lemma entry_valid: "j < length blocks \<Longrightarrow> (k, v) \<in> set (blocks ! j) \<Longrightarrow> valid k"
  using sorted_entries_valid [OF block_entries_sorted] by fastforce

lemma separator_facts:
  "j < length blocks \<Longrightarrow> valid (seps ! j)"
  "j < length blocks \<Longrightarrow> (k, v) \<in> set (blocks ! j) \<Longrightarrow> Compare c k (seps ! j) \<le> 0"
  "i < j \<Longrightarrow> j < length blocks \<Longrightarrow> (k, v) \<in> set (blocks ! j) \<Longrightarrow> Compare c (seps ! i) k < 0"
proof -
  note s = layout_facts(3) [unfolded separators_def layout_facts(2), rule_format]
  show "j < length blocks \<Longrightarrow> valid (seps ! j)"
    using s by blast
  show "j < length blocks \<Longrightarrow> (k, v) \<in> set (blocks ! j) \<Longrightarrow> Compare c k (seps ! j) \<le> 0"
    using s [of j] by blast
  show "i < j \<Longrightarrow> j < length blocks \<Longrightarrow> (k, v) \<in> set (blocks ! j) \<Longrightarrow> Compare c (seps ! i) k < 0"
    using s [of i] less_trans [of i j "length blocks"] by blast
qed

lemma seps_increasing:
  assumes "i < j" "j < length blocks"
  shows "Compare c (seps ! i) (seps ! j) < 0"
proof -
  obtain k v where "(k, v) \<in> set (blocks ! j)"
    using layout_facts(1) nth_mem [OF assms(2)] by (cases "blocks ! j") auto
  thus ?thesis
    using cmp_less_le_trans separator_facts entry_valid assms by (meson less_trans)
qed

lemma ies_facts: "length ies = length blocks" "j < length blocks \<Longrightarrow> ies ! j = (seps ! j, handle_bytes (data_handle R blocks j))"
  using layout_facts(2) by (simp_all add: index_entries_def)

lemma ies_sorted: "sorted_entries c valid ies"
  using seps_increasing separator_facts(1) ies_facts
  by (auto simp: sorted_entries_def sorted_wrt_iff_nth_less in_set_conv_nth)

lemma sorted_blockI: "0 < I \<Longrightarrow> stored h (built_bytes I es) \<Longrightarrow> sorted_entries c valid es \<Longrightarrow> sorted_block I es c valid"
  by (intro sorted_block.intro built_size key_order_axioms sorted_block_axioms.intro) (auto simp: sorted_entries_def)

lemmas data_block = sorted_blockI [OF interval stored_data block_entries_sorted]
lemmas index_block = sorted_blockI [OF zero_less_one stored_index [unfolded index_bytes_def] ies_sorted]

abbreviation "data_at j \<equiv> sorted_block.block_at R (blocks ! j) c inv"
abbreviation "index_at \<equiv> sorted_block.block_at 1 ies c inv"

text \<open>An open table, without a block cache.\<close>

definition opened :: "('h, 'e) Table \<Rightarrow> bool" where
  "opened t \<longleftrightarrow> tab_options t = opts \<and> tab_file t = F \<and> tab_index_block t = Block_new (index_bytes opts seps blocks) \<and>
     tab_block_cache t = None"

lemma data_offsets:
  assumes "i < j" "j < length blocks"
  shows "unat (bh_offset (data_handle R blocks i)) < unat (bh_offset (data_handle R blocks j))"
proof -
  have "data_file R (take j blocks) = data_file R (take i blocks) @ block_file (built_bytes R (blocks ! i)) @ data_file R (drop (Suc i) (take j blocks))"
    using assms data_file_split [of i "take j blocks" R] by (simp add: min_def)
  hence less: "length (data_file R (take i blocks)) < length (data_file R (take j blocks))"
    by (simp add: kBlockTrailerSize_def)
  moreover have "length (data_file R (take j blocks)) \<le> length (table_file opts seps blocks)"
    using data_file_split [OF assms(2), of R] by (simp add: table_file_def)
  ultimately show ?thesis
    using small [of "length (data_file R (take i blocks))"] small [of "length (data_file R (take j blocks))"] by (simp add: data_handle_def)
qed

lemma data_offset_inj:
  "i < length blocks \<Longrightarrow> j < length blocks \<Longrightarrow> bh_offset (data_handle R blocks i) = bh_offset (data_handle R blocks j) \<Longrightarrow> i = j"
  using data_offsets [of i j] data_offsets [of j i] by (metis nat_neq_iff)

text \<open>The block at an index entry is read from the file.\<close>

lemma data_iterator:
  assumes "j < length blocks" and "\<And>e. inv e \<Longrightarrow> inv (f e)"
  shows "data_at j None (Block_NewIterator c (Block_new (built_bytes R (blocks ! j))), RegisterCleanup f [])"
  using sorted_block.new_block_at [OF data_block [OF assms(1) assms(1)], of "[f]" inv] assms(2) by (simp add: RegisterCleanup_def)

lemma BlockReader_ok:
  assumes t: "opened t" and j: "j < length blocks" and e: "inv e"
  shows "\<exists>d e'. Table_BlockReader t options (snd (ies ! j)) e = Some (d, e') \<and> inv e' \<and> data_at j None d"
proof -
  have "BlockHandle_DecodeFrom BlockHandle_new (snd (ies ! j)) = (Status_OK, data_handle R blocks j, [])"
    using BlockHandle_round_trip [of BlockHandle_new _ "[]"] by (simp add: ies_facts j)
  thus ?thesis
    using ReadBlock_stored [OF stored_data [OF j] e, of options] data_iterator [OF j] t
    by (auto simp: Table_BlockReader_def opened_def status_ok_def Status_OK_def)
qed

lemma table_two_level:
  assumes "opened t"
  shows "two_level block_iterator_ops ies index_at inv (Compare c) valid block_iterator_ops (Table_BlockReader t options) blocks data_at"
proof (intro two_level.intro two_level_axioms.intro)
  show "cursor block_iterator_ops ies index_at inv (Compare c) valid"
    by (rule sorted_block.block_cursor [OF index_block])
  show "key_order (Compare c) valid" by (rule key_order_axioms)
  show "cursor block_iterator_ops (blocks ! j) (data_at j) inv (Compare c) valid" if "j < length ies" for j
    using that by (intro sorted_block.block_cursor data_block) (simp_all add: ies_facts)
qed (use ies_facts separator_facts entry_valid BlockReader_ok [OF assms] data_offset_inj handle_bytes_inj in auto)

lemma index_iterator: "opened t \<Longrightarrow> index_at None (Block_NewIterator c (tab_index_block t), [])"
  using sorted_block.new_block_at [OF index_block, of "[]" inv] by (simp add: opened_def index_bytes_def)

lemma table_cursor:
  assumes "opened t"
  shows "\<exists>at. cursor (Table_iterator_ops t options) (concat blocks) at inv (Compare c) valid \<and> at None (Table_NewIterator t)"
  using two_level.two_level_cursor [OF table_two_level [OF assms]] two_level.new_tl_at [OF table_two_level [OF assms] index_iterator [OF assms]] assms
  unfolding Table_iterator_ops_def Table_NewIterator_def opened_def by metis

subsection \<open>Looking up a key\<close>

lemma find_append: "find P (xs @ ys) = (case find P xs of None \<Rightarrow> find P ys | Some x \<Rightarrow> Some x)"
  by (induction xs) auto

lemma find_NoneI: "(\<And>x. x \<in> set xs \<Longrightarrow> \<not> P x) \<Longrightarrow> find P xs = None"
  by (auto simp: find_None_iff)

lemma concat_at: "j < length bs \<Longrightarrow> concat bs = concat (take j bs) @ bs ! j @ concat (drop (Suc j) bs)"
  by (subst (1) id_take_nth_drop [of j bs]) simp_all

lemma get_first:
  assumes k: "valid k" and j: "first_from (Compare c) k ies = Some j" and i: "first_from (Compare c) k (blocks ! j) = Some i"
  shows "find (\<lambda>(k', _). Compare c k' k \<ge> 0) (concat blocks) = Some (blocks ! j ! i)"
proof -
  have j': "j < length blocks" "\<And>i. i < j \<Longrightarrow> Compare c (seps ! i) k < 0"
    using j by (auto simp: first_from_Some ies_facts)
  have i': "i < length (blocks ! j)" "Compare c (fst (blocks ! j ! i)) k \<ge> 0" "\<And>i'. i' < i \<Longrightarrow> Compare c (fst (blocks ! j ! i')) k < 0"
    using i by (auto simp: first_from_Some)
  have "find (\<lambda>(k', _). Compare c k' k \<ge> 0) (concat (take j blocks)) = None"
  proof (rule find_NoneI)
    fix x assume "x \<in> set (concat (take j blocks))"
    then obtain B where "x \<in> set B" "B \<in> set (take j blocks)" by auto
    then obtain i where "i < j" "x \<in> set (blocks ! i)" using in_set_take_nth by metis
    moreover obtain k' v where "x = (k', v)" by (cases x)
    ultimately show "\<not> (case x of (k', _) \<Rightarrow> Compare c k' k \<ge> 0)"
      using separator_facts(1) [of i] separator_facts(2) [of i k' v] entry_valid [of i k' v] cmp_le_less_trans [of k' "seps ! i" k] j' k by auto
  qed
  moreover have "find (\<lambda>(k', _). Compare c k' k \<ge> 0) (take i (blocks ! j)) = None"
  proof (rule find_NoneI)
    fix x assume "x \<in> set (take i (blocks ! j))"
    then obtain i0 where "i0 < i" "x = blocks ! j ! i0" by (auto simp: in_set_conv_nth)
    thus "\<not> (case x of (k', _) \<Rightarrow> Compare c k' k \<ge> 0)" using i'(3) by (auto simp: case_prod_beta not_le)
  qed
  ultimately have "find (\<lambda>(k', _). Compare c k' k \<ge> 0) (concat (take j blocks) @ (take i (blocks ! j) @ blocks ! j ! i # drop (Suc i) (blocks ! j)) @ concat (drop (Suc j) blocks)) =
      Some (blocks ! j ! i)"
    using i'(2) by (simp only: find_append option.case) (simp add: case_prod_beta)
  thus ?thesis
    unfolding id_take_nth_drop [OF i'(1), symmetric] concat_at [OF j'(1), symmetric] .
qed

lemma get_key:
  assumes j: "j < length blocks" and kv: "(k, v) \<in> set (blocks ! j)"
  shows "first_from (Compare c) k ies = Some j" "\<exists>i. first_from (Compare c) k (blocks ! j) = Some i \<and> blocks ! j ! i = (k, v)"
proof -
  have k: "valid k" using entry_valid [OF j kv] .
  show "first_from (Compare c) k ies = Some j"
    using separator_facts [OF j] separator_facts(2) [OF j kv] cmp_swap_le [OF k separator_facts(1) [OF j]] separator_facts(3) [OF _ j kv] j
    by (auto simp: first_from_Some ies_facts)
  obtain i where i: "i < length (blocks ! j)" "blocks ! j ! i = (k, v)" using kv by (auto simp: in_set_conv_nth)
  have "Compare c (fst (blocks ! j ! i')) k < 0" if "i' < i" for i'
    using sorted_wrt_nth_less [OF _ that i(1), of "\<lambda>(k, _) (k', _). Compare c k k' < 0"] block_entries_sorted [OF j] i(2)
    by (auto simp: sorted_entries_def case_prod_beta)
  thus "\<exists>i. first_from (Compare c) k (blocks ! j) = Some i \<and> blocks ! j ! i = (k, v)"
    using i cmp_self [OF k] by (auto simp: first_from_Some)
qed

lemma get_entry:
  assumes "(k, v) \<in> set (concat blocks)"
  shows "\<exists>j i. first_from (Compare c) k ies = Some j \<and> j < length blocks \<and> (k, v) \<in> set (blocks ! j) \<and>
    first_from (Compare c) k (blocks ! j) = Some i \<and> blocks ! j ! i = (k, v)"
proof -
  obtain B where "(k, v) \<in> set B" "B \<in> set blocks" using assms by auto
  then obtain j where "j < length blocks" "(k, v) \<in> set (blocks ! j)" by (metis in_set_conv_nth)
  thus ?thesis using get_key by blast
qed

text \<open>The filter of the table does not hide its keys.\<close>

definition filter_reader :: "(filter_policy_ops \<times> FilterBlockReader) option" where
  "filter_reader = map_option (\<lambda>p. (p, FilterBlockReader_new (build_filter_block p (filter_blocks R blocks [])))) (to_filter_policy opts)"

lemma filter_passes:
  assumes p: "to_filter_policy opts = Some p" "filter_policy p" and j: "j < length blocks" "(k, v) \<in> set (blocks ! j)"
  shows "FilterBlockKeyMayMatch p (FilterBlockReader_new (build_filter_block p (filter_blocks R blocks []))) (bh_offset (data_handle R blocks j)) k"
proof (rule filter_policy.filter_block_complete [OF p(2)])
  have off: "unat (word_of_nat (length (data_file R (take i blocks))) :: u64) = length (data_file R (take i blocks))" for i
  proof (rule small)
    have "length (data_file R (take i blocks)) \<le> length (data_file R blocks)"
      using data_file_mono [of "min i (length blocks)" "length blocks" R blocks] by (cases "i \<le> length blocks") auto
    thus "length (data_file R (take i blocks)) \<le> length (table_file opts seps blocks)" by (simp add: table_file_def)
  qed
  have off': "unat (word_of_nat (length (data_file R blocks)) :: u64) = length (data_file R blocks)"
    using off [of "length blocks"] by simp
  have "map (\<lambda>blk. unat (fst blk)) (filter_blocks R blocks []) = map (\<lambda>i. length (data_file R (take i blocks))) [0..<Suc (length blocks)]"
    by (simp add: filter_blocks_def off off' comp_def)
  moreover have "sorted (map (\<lambda>i. length (data_file R (take i blocks))) [0..<Suc (length blocks)])"
    unfolding sorted_iff_nth_mono by (auto simp del: upt_Suc simp: data_file_mono)
  ultimately show "sorted (map (\<lambda>blk. unat (fst blk)) (filter_blocks R blocks []))" by simp
  show "length (build_filter_block p (filter_blocks R blocks [])) < 2 ^ 32"
    by (rule stored_small [OF stored_filter [OF p(1)]])
  show "(bh_offset (data_handle R blocks j), map fst (blocks ! j)) \<in> set (filter_blocks R blocks [])"
    using j(1) by (auto simp: filter_blocks_def data_handle_def)
  show "k \<in> set (map fst (blocks ! j))"
    using j(2) by force
qed

lemma InternalGet_ok:
  assumes t: "opened t" and filt: "tab_filter t = filter_reader" "\<And>p. to_filter_policy opts = Some p \<Longrightarrow> filter_policy p"
    and k: "valid k" and e: "inv e"
  shows "\<exists>found e'. Table_InternalGet t options k e = Some ((Status_OK, found), e') \<and> inv e' \<and>
     (\<forall>v. (k, v) \<in> set (concat blocks) \<longrightarrow> found = Some (k, v)) \<and>
     (\<forall>x. found = Some x \<longrightarrow> find (\<lambda>(k', _). Compare c k' k \<ge> 0) (concat blocks) = Some x)"
proof -
  have tab: "tab_options t = opts" using t by (simp add: opened_def)
  obtain ix e1 where ix: "it_Seek block_iterator_ops k (Block_NewIterator c (tab_index_block t), []) e = Some (ix, e1)" "inv e1"
      "index_at (first_from (Compare c) k ies) ix"
    using cursor.Seek [OF sorted_block.block_cursor [OF index_block] index_iterator [OF t] e k] by blast
  note icur = sorted_block.block_cursor [OF index_block, of inv]
  have ixs: "it_status block_iterator_ops ix = Status_OK" "inv (it_delete block_iterator_ops ix e')" if "inv e'" for e'
    using cursor.at_status [OF icur ix(3)] cursor.delete [OF icur ix(3) that] by auto
  show ?thesis
  proof (cases "first_from (Compare c) k ies")
    case None
    have "\<not> it_Valid block_iterator_ops ix" using cursor.at_None [OF icur] ix(3) None by simp
    moreover have "(k, v) \<notin> set (concat blocks)" for v
      using get_entry [of k v] None by auto
    ultimately show ?thesis
      using ix ixs by (simp add: Table_InternalGet_def tab status_ok_def Status_OK_def)
  next
    case (Some j)
    have j: "j < length blocks" using Some by (simp add: first_from_Some ies_facts)
    have val: "it_Valid block_iterator_ops ix" "it_value block_iterator_ops ix = Some (snd (ies ! j))"
      using cursor.at_Some [OF icur ix(3) [unfolded Some]] by auto
    have dec: "BlockHandle_DecodeFrom BlockHandle_new (snd (ies ! j)) = (Status_OK, data_handle R blocks j, [])"
      using BlockHandle_round_trip [of BlockHandle_new _ "[]"] by (simp add: ies_facts j)
    let ?hidden = "case tab_filter t of None \<Rightarrow> False
      | Some (policy, reader) \<Rightarrow>
          (case BlockHandle_DecodeFrom BlockHandle_new (snd (ies ! j)) of (s, handle, _) \<Rightarrow>
             status_ok s \<and> \<not> FilterBlockKeyMayMatch policy reader (bh_offset handle) k)"
    show ?thesis
    proof (cases ?hidden)
      case True
      have "(k, v) \<notin> set (concat blocks)" for v
        using get_entry [of k v] filter_passes [of _ j k v] filt True Some
        by (auto simp: dec filter_reader_def status_ok_def Status_OK_def split: option.splits)
      thus ?thesis
        using ix val ixs True by (simp add: Table_InternalGet_def tab status_ok_def Status_OK_def)
    next
      case False
      note dcur = sorted_block.block_cursor [OF data_block [OF j j], of inv]
      obtain d e2 where d: "Table_BlockReader t options (snd (ies ! j)) e1 = Some (d, e2)" "inv e2" "data_at j None d"
        using BlockReader_ok [OF t j ix(2)] by blast
      obtain d' e3 where d': "it_Seek block_iterator_ops k d e2 = Some (d', e3)" "inv e3" "data_at j (first_from (Compare c) k (blocks ! j)) d'"
        using cursor.Seek [OF dcur d(3,2) k] by blast
      have st: "it_status block_iterator_ops d' = Status_OK" "inv (it_delete block_iterator_ops d' e3)"
        using cursor.at_status [OF dcur d'(3)] cursor.delete [OF dcur d'(3,2)] by auto
      show ?thesis
      proof (cases "first_from (Compare c) k (blocks ! j)")
        case None
        have "\<not> it_Valid block_iterator_ops d'" using cursor.at_None [OF dcur] d'(3) None by simp
        moreover have "(k, v) \<notin> set (concat blocks)" for v using get_entry [of k v] Some None by auto
        ultimately show ?thesis
          using ix val ixs False d(1) d'(1) st by (simp add: Table_InternalGet_def tab status_ok_def Status_OK_def)
      next
        case (Some i)
        have "it_Valid block_iterator_ops d'" "it_key block_iterator_ops d' = fst (blocks ! j ! i)" "it_value block_iterator_ops d' = Some (snd (blocks ! j ! i))"
          using cursor.at_Some [OF dcur d'(3) [unfolded Some]] by auto
        hence "Table_InternalGet t options k e = Some ((Status_OK, Some (blocks ! j ! i)), it_delete block_iterator_ops ix (it_delete block_iterator_ops d' e3))"
          using ix val ixs False d(1) d'(1) st by (simp add: Table_InternalGet_def tab status_ok_def Status_OK_def)
        moreover have "blocks ! j ! i = (k, v)" if "(k, v) \<in> set (concat blocks)" for v
          using get_entry [OF that] Some \<open>first_from (Compare c) k ies = Some j\<close> by auto
        ultimately show ?thesis
          using get_first [OF k \<open>first_from (Compare c) k ies = Some j\<close> Some] ixs st by auto
      qed
    qed
  qed
qed

lemma ApproximateOffsetOf_ok:
  assumes t: "opened t" and k: "valid k" and e: "inv e"
  shows "\<exists>e'. Table_ApproximateOffsetOf t k e =
     Some (case first_from (Compare c) k ies of None \<Rightarrow> bh_offset (tab_metaindex_handle t) | Some j \<Rightarrow> bh_offset (data_handle R blocks j), e') \<and> inv e'"
proof -
  note icur = sorted_block.block_cursor [OF index_block, of inv]
  have tab: "tab_options t = opts" using t by (simp add: opened_def)
  obtain ix e1 where ix: "it_Seek block_iterator_ops k (Block_NewIterator c (tab_index_block t), []) e = Some (ix, e1)" "inv e1"
      "index_at (first_from (Compare c) k ies) ix"
    using cursor.Seek [OF icur index_iterator [OF t] e k] by blast
  have del: "inv (it_delete block_iterator_ops ix e1)" using cursor.delete [OF icur ix(3,2)] .
  show ?thesis
  proof (cases "first_from (Compare c) k ies")
    case None
    thus ?thesis
      using ix del cursor.at_None [OF icur] by (simp add: Table_ApproximateOffsetOf_def tab)
  next
    case (Some j)
    hence "j < length blocks" by (simp add: first_from_Some ies_facts)
    hence "BlockHandle_DecodeFrom BlockHandle_new (snd (ies ! j)) = (Status_OK, data_handle R blocks j, [])"
      using BlockHandle_round_trip [of BlockHandle_new _ "[]"] by (simp add: ies_facts)
    thus ?thesis
      using ix del cursor.at_Some [OF icur ix(3) [unfolded Some]] Some
      by (simp add: Table_ApproximateOffsetOf_def tab status_ok_def Status_OK_def)
  qed
qed

subsection \<open>Opening the table\<close>

lemma meta_block: "sorted_block R (meta_entries opts blocks) BytewiseComparator (\<lambda>_. True)"
  by (intro sorted_block.intro built_size [OF interval stored_meta [unfolded meta_bytes_def]] sorted_block_axioms.intro)
    (auto simp: meta_entries_def BytewiseComparator_def bytewise.key_order_axioms split: option.splits)

lemma ReadFilter_ok:
  assumes p: "to_filter_policy opts = Some p" and t: "tab_options t = opts" "tab_file t = F" and e: "inv e"
  shows "\<exists>e'. Table_ReadFilter p (handle_bytes (filter_handle opts blocks p)) t e = Some (t\<lparr>tab_filter := filter_reader\<rparr>, e') \<and> inv e'"
proof -
  have "BlockHandle_DecodeFrom BlockHandle_new (handle_bytes (filter_handle opts blocks p)) = (Status_OK, filter_handle opts blocks p, [])"
    using BlockHandle_round_trip [of BlockHandle_new _ "[]"] by simp
  thus ?thesis
    using ReadBlock_stored [OF stored_filter [OF p] e, of "open_read_options opts"] t p
    by (auto simp: Table_ReadFilter_def status_ok_def Status_OK_def filter_reader_def)
qed

lemma ReadMeta_ok:
  assumes t: "tab_options t = opts" "tab_file t = F" "tab_filter t = None" and e: "inv e"
  shows "\<exists>e'. Table_ReadMeta (table_footer opts seps blocks) t e = Some (t\<lparr>tab_filter := filter_reader\<rparr>, e') \<and> inv e'"
proof (cases "to_filter_policy opts")
  case None
  thus ?thesis using t e by (simp add: Table_ReadMeta_def filter_reader_def)
next
  case (Some p)
  define key where "key = cstr ''filter.'' @ PolicyName p"
  have meta: "meta_entries opts blocks = [(key, handle_bytes (filter_handle opts blocks p))]"
    by (simp add: meta_entries_def Some key_def)
  note mcur = sorted_block.block_cursor [OF meta_block, of inv]
  obtain b e1 where r: "ReadBlock F (open_read_options opts) (ft_metaindex_handle (table_footer opts seps blocks)) e =
      Some ((Status_OK, \<lparr>bc_data = meta_bytes opts blocks, bc_cachable = b, bc_heap_allocated = b\<rparr>), e1)" "inv e1"
    using ReadBlock_stored [OF stored_meta e] by blast
  obtain it e2 where it: "it_Seek block_iterator_ops key (Block_NewIterator BytewiseComparator (Block_new (meta_bytes opts blocks)), []) e1 = Some (it, e2)"
      "inv e2" "sorted_block.block_at R (meta_entries opts blocks) BytewiseComparator inv
        (first_from (Compare BytewiseComparator) key (meta_entries opts blocks)) it"
    using cursor.Seek [OF mcur sorted_block.new_block_at [OF meta_block, of "[]" inv] r(2), of key] by (auto simp: meta_bytes_def)
  have first: "first_from (Compare BytewiseComparator) key (meta_entries opts blocks) = Some 0"
    using bytewise.cmp_self [of key] by (simp add: first_from_Some meta BytewiseComparator_def)
  have at: "it_Valid block_iterator_ops it" "it_key block_iterator_ops it = key" "it_value block_iterator_ops it = Some (handle_bytes (filter_handle opts blocks p))"
    using cursor.at_Some [OF mcur it(3) [unfolded first]] by (simp_all add: meta)
  obtain e3 where f: "Table_ReadFilter p (handle_bytes (filter_handle opts blocks p)) t e2 = Some (t\<lparr>tab_filter := filter_reader\<rparr>, e3)" "inv e3"
    using ReadFilter_ok [OF Some t(1,2) it(2)] by blast
  have "inv (it_delete block_iterator_ops it e3)" by (rule cursor.delete [OF mcur it(3) f(2)])
  thus ?thesis
    unfolding Table_ReadMeta_def t Some option.case r(1) key_def [symmetric]
    by (simp add: it(1) at f(1) status_ok_def Status_OK_def del: block_iterator_ops_simps)
qed

lemma Open_ok:
  assumes e: "inv e"
  shows "\<exists>(t :: ('h, 'e) Table) e'. Table_Open opts None F (word_of_nat (length (table_file opts seps blocks))) e = Some ((Status_OK, Some t), e') \<and>
     opened t \<and> tab_filter t = filter_reader \<and> inv e'"
proof -
  let ?n = "length (table_file opts seps blocks)" and ?f = "table_footer opts seps blocks"
  let ?size = "word_of_nat ?n :: u64"
  have n: "unat ?size = ?n" by (rule small) simp
  have long: "kEncodedLength \<le> ?n" by (simp add: table_file_def length_footer_bytes)
  have k: "unat (word_of_nat kEncodedLength :: u64) = kEncodedLength" by (simp add: kEncodedLength_def kMaxEncodedLength_def)
  have off: "unat (?size - word_of_nat kEncodedLength) = ?n - kEncodedLength"
    using long by (simp add: unat_sub word_le_nat_alt n k)
  obtain b e1 where r: "ra_Read F (?size - word_of_nat kEncodedLength) (word_of_nat kEncodedLength) e =
      ((Status_OK, take kEncodedLength (drop (?n - kEncodedLength) (table_file opts seps blocks)), b), e1)" "inv e1"
    using read_ok [OF e, of "?size - word_of_nat kEncodedLength" "word_of_nat kEncodedLength"] long by (auto simp: off k)
  have tail: "take kEncodedLength (drop (?n - kEncodedLength) (table_file opts seps blocks)) = footer_bytes ?f"
    by (simp add: table_file_def length_footer_bytes)
  obtain b' e2 where x: "ReadBlock F (open_read_options opts) (ft_index_handle ?f) e1 =
      Some ((Status_OK, \<lparr>bc_data = index_bytes opts seps blocks, bc_cachable = b', bc_heap_allocated = b'\<rparr>), e2)" "inv e2"
    using ReadBlock_stored [OF stored_index r(2)] by blast
  let ?t = "\<lparr>tab_options = opts, tab_block_cache = None, tab_file = F, tab_cache_id = 0, tab_filter = None,
      tab_metaindex_handle = ft_metaindex_handle ?f, tab_index_block = Block_new (index_bytes opts seps blocks)\<rparr> :: ('h, 'e) Table"
  obtain e3 where e3: "Table_ReadMeta ?f ?t e2 = Some (?t\<lparr>tab_filter := filter_reader\<rparr>, e3)" "inv e3"
    using ReadMeta_ok [OF _ _ _ x(2), of ?t] by auto
  have "Table_Open opts None F ?size e = Some ((Status_OK, Some (?t\<lparr>tab_filter := filter_reader\<rparr>)), e3)"
    using long r(1) Footer_round_trip [of Footer_new ?f "[]"] x(1) e3(1)
    by (simp add: Table_Open_def n tail status_ok_def Status_OK_def Let_def)
  thus ?thesis using e3(2) by (auto simp: opened_def)
qed

end

section \<open>Writing and reading a table\<close>

lemma separators_length: "length (index_keys c blocks) = length blocks"
  by (cases blocks) (simp_all add: index_keys_def)

lemma table_written:
  assumes W: "reliable_writable_file W good contents" and f: "good f" "contents f = []"
    and opts: "key_shortening (to_comparator opts) valid" "0 < to_block_restart_interval opts"
    and sorted: "sorted_entries (to_comparator opts) valid es"
  shows "\<exists>b b' blocks. TableBuilder_AddAll W es (TableBuilder_new opts f) = Some b \<and> TableBuilder_Finish W b = Some (Status_OK, b') \<and>
     contents (tb_file b') = table_file opts (index_keys (to_comparator opts) blocks) blocks \<and>
     TableBuilder_FileSize b' = word_of_nat (length (contents (tb_file b'))) \<and> es = concat blocks \<and> [] \<notin> set blocks \<and>
     (length (contents (tb_file b')) < 2 ^ 32 \<longrightarrow> table_layout opts valid (index_keys (to_comparator opts) blocks) blocks)"
proof -
  have tb: "table_build W good contents opts valid"
    using W opts by (intro table_build.intro table_build_axioms.intro)
  obtain b blocks cur seps where "TableBuilder_AddAll W es (TableBuilder_new opts f) = Some b" and
      inv: "table_build.tb_inv good contents opts valid es blocks cur seps b"
    using table_build.AddAll_inv [OF tb table_build.tb_inv_new [OF tb f], of es] sorted by auto
  thus ?thesis
    using table_build.Finish_ok [OF tb inv sorted] sorted
    by (fastforce simp: TableBuilder_FileSize_def table_layout_def separators_length)
qed

lemma stored_tableI:
  assumes "content = table_file opts (index_keys (to_comparator opts) blocks) blocks"
    and "length content < 2 ^ 32 \<longrightarrow> table_layout opts valid (index_keys (to_comparator opts) blocks) blocks" "length content < 2 ^ 32"
    and "key_shortening (to_comparator opts) valid" "0 < to_block_restart_interval opts" "random_access_file F I content"
  shows "stored_table F I opts (index_keys (to_comparator opts) blocks) blocks valid"
  using assms key_shortening.order by (auto intro!: stored_table.intro stored_table_axioms.intro)

section \<open>A small table\<close>

text \<open>Two entries in one or two blocks, with a Bloom filter.\<close>

definition small_options :: TableOptions where
  "small_options = TableOptions_new\<lparr>to_filter_policy := Some (NewBloomFilterPolicy 10)\<rparr>"

definition small_entries :: "(bytes \<times> bytes) list" where
  "small_entries = [([1, 2], [9]), ([1, 4], [7, 7])]"

lemma small_blocks:
  assumes "small_entries = concat blocks" "[] \<notin> set blocks"
  shows "blocks = [small_entries] \<or> blocks = map (\<lambda>e. [e]) small_entries"
proof -
  obtain b bs where b: "blocks = b # bs" "b \<noteq> []" using assms by (cases blocks) (auto simp: small_entries_def)
  obtain x xs where x: "b = x # xs" using b(2) by (cases b) auto
  show ?thesis
  proof (cases xs)
    case Nil
    then obtain c cs where "bs = c # cs" "c \<noteq> []" using assms b x by (cases bs) (auto simp: small_entries_def)
    moreover from this obtain y ys where "c = y # ys" by (cases c) auto
    ultimately show ?thesis using assms b x Nil by (cases cs) (auto simp: small_entries_def append_eq_Cons_conv)
  next
    case (Cons y ys)
    thus ?thesis using assms b x by (cases bs) (auto simp: small_entries_def)
  qed
qed

lemma small_block_lengths:
  "length (built_bytes 16 small_entries) = 20" "length (built_bytes 16 [([1, 2], [9])]) = 14" "length (built_bytes 16 [([1, 4], [7, 7])]) = 15"
  by code_simp+

text \<open>A bound for the size of a finished block.\<close>

lemma length_EncodeVarint32: "length (EncodeVarint32 w) \<le> 5"
  using length_EncodeVarint64_bound [of "ucast w" 5] unsigned_less [of w, where 'a = nat]
  by (simp add: EncodeVarint32_eq_EncodeVarint64_aux)

definition builder_size :: "BlockBuilder \<Rightarrow> nat" where
  "builder_size b = length (bb_buffer b) + 4 * length (bb_restarts b)"

lemma builder_size_Add: "builder_size (BlockBuilder_Add k v b) \<le> builder_size b + (length k + length v + 19)"
proof -
  have v: "length (EncodeVarint32 x) + (length (EncodeVarint32 y) + (length (EncodeVarint32 z) + (n + m))) \<le> n + m + 15" for x y z and n m :: nat
    using length_EncodeVarint32 [of x] length_EncodeVarint32 [of y] length_EncodeVarint32 [of z] by simp
  show ?thesis
    using v [of 0 "word_of_nat (length k)" "word_of_nat (length v)" "length k" "length v"]
      v [of "word_of_nat (shared_loop (bb_last_key b) k)" "word_of_nat (length k - shared_loop (bb_last_key b) k)" "word_of_nat (length v)"
        "length k - shared_loop (bb_last_key b) k" "length v"]
    by (auto simp: builder_size_def BlockBuilder_Add_def Let_def PutVarint32_def)
qed

lemma built_bytes_bound: "length (built_bytes I es) \<le> sum_list (map (\<lambda>(k, v). length k + length v + 19) es) + 8"
proof -
  have "builder_size (foldl (\<lambda>b (k, v). BlockBuilder_Add k v b) b es) \<le> builder_size b + sum_list (map (\<lambda>(k, v). length k + length v + 19) es)" for b
  proof (induction es arbitrary: b)
    case (Cons e es)
    obtain k v where "e = (k, v)" by (cases e)
    thus ?case using Cons.IH [of "BlockBuilder_Add k v b"] builder_size_Add [of k v b] by simp
  qed simp
  moreover have "builder_size (BlockBuilder_new I) = 4" by (simp add: builder_size_def BlockBuilder_new_def)
  ultimately have "builder_size (built I es) \<le> 4 + sum_list (map (\<lambda>(k, v). length k + length v + 19) es)"
    unfolding built_def by metis
  moreover have "length (foldl PutFixed32 buf ws) = length buf + 4 * length ws" for buf ws
    by (induction ws arbitrary: buf) (simp_all add: PutFixed32_def)
  ultimately show ?thesis
    by (simp add: built_bytes_def BlockBuilder_Finish_def Let_def PutFixed32_def builder_size_def)
qed

lemma small_filter_lengths:
  "length (build_filter_block (NewBloomFilterPolicy 10) (filter_blocks 16 [small_entries] [])) < 100"
  "length (build_filter_block (NewBloomFilterPolicy 10) (filter_blocks 16 (map (\<lambda>e. [e]) small_entries) [])) < 100"
  by (simp_all add: filter_blocks_def data_file_def small_block_lengths [unfolded small_entries_def] small_entries_def kBlockTrailerSize_def
      build_filter_block_def add_block_def StartBlock_def kFilterBase_def kFilterBaseLg_def
        StartBlock_loop.simps GenerateFilter_def FilterBlock_Finish_def AddKey_def
        FilterBlockBuilder_new_def NewBloomFilterPolicy_def
        length_BloomCreateFilter BloomFilterPolicy_new_def PutFixed32_def Let_def)

lemma small_index_lengths:
  "map length (index_keys BytewiseComparator [small_entries]) = [1]"
  "map length (index_keys BytewiseComparator (map (\<lambda>e. [e]) small_entries)) = [2, 1]"
  by code_simp+

lemma small_file_length:
  assumes "small_entries = concat blocks" "[] \<notin> set blocks"
  shows "length (table_file small_options (index_keys (to_comparator small_options) blocks) blocks) < 2 ^ 32"
proof -
  let ?opts = small_options and ?seps = "index_keys BytewiseComparator blocks"
  have opts: "to_comparator ?opts = BytewiseComparator" "to_block_restart_interval ?opts = 16" "to_filter_policy ?opts = Some (NewBloomFilterPolicy 10)"
    by (simp_all add: small_options_def TableOptions_new_def)
  note b = small_blocks [OF assms]
  have n: "length blocks \<le> 2" using b by (auto simp: small_entries_def)
  have "length (data_file 16 blocks) < 100"
    using b small_block_lengths by (auto simp: data_file_def small_entries_def kBlockTrailerSize_def)
  moreover have "length (filter_file ?opts blocks) < 200"
    using b small_filter_lengths by (auto simp: filter_file_def opts kBlockTrailerSize_def)
  moreover have "length (meta_bytes ?opts blocks) < 200"
    using built_bytes_bound [of 16 "meta_entries ?opts blocks"] length_handle_bytes [of "filter_handle ?opts blocks (NewBloomFilterPolicy 10)"]
    by (simp add: meta_bytes_def opts meta_entries_def NewBloomFilterPolicy_def kMaxEncodedLength_def)
  moreover have "length (index_bytes ?opts ?seps blocks) < 200"
  proof -
    have s: "length (?seps ! i) \<le> 2" if "i < length ?seps" for i
      using b small_index_lengths that nth_map [OF that, of length] by (auto simp: less_Suc_eq nth_Cons')
    have "length (?seps ! i) + length (handle_bytes h) + 19 \<le> 41" if "i < length ?seps" for i h
      using s [OF that] length_handle_bytes [of h] by (simp add: kMaxEncodedLength_def)
    hence "sum_list (map (\<lambda>(k, v). length k + length v + 19) (index_entries 16 ?seps blocks)) \<le> length blocks * 41"
      using sum_list_mono [of "[0..<length ?seps]" "\<lambda>i. length (?seps ! i) + length (handle_bytes (data_handle 16 blocks i)) + 19" "\<lambda>_. 41"]
      by (auto simp: index_entries_def comp_def sum_list_triv separators_length)
    thus ?thesis using n built_bytes_bound [of 1 "index_entries 16 ?seps blocks"] by (simp add: index_bytes_def opts)
  qed
  ultimately show ?thesis
    by (simp add: table_file_def opts length_footer_bytes kEncodedLength_def kMaxEncodedLength_def kBlockTrailerSize_def)
qed

abbreviation "small_seps \<equiv> index_keys BytewiseComparator [small_entries]"
abbreviation "small_content \<equiv> table_file small_options small_seps [small_entries]"

lemma small_options_simps:
  "to_comparator small_options = BytewiseComparator" "to_block_restart_interval small_options = 16"
  "to_filter_policy small_options = Some (NewBloomFilterPolicy 10)"
  by (simp_all add: small_options_def TableOptions_new_def)

lemma small_sorted: "sorted_entries (to_comparator small_options) (\<lambda>_. True) small_entries"
proof -
  have "Compare BytewiseComparator [1, 2] [1, 4] < 0" by code_simp
  thus ?thesis by (simp add: sorted_entries_def small_options_simps small_entries_def)
qed

lemma small_layout: "table_layout small_options (\<lambda>_. True) small_seps [small_entries]"
proof -
  have "small_seps = [[2]]" "Compare BytewiseComparator [1, 2] [2] \<le> 0" "Compare BytewiseComparator [1, 4] [2] \<le> 0" by code_simp+
  moreover have "length small_content < 2 ^ 32"
    using small_file_length [of "[small_entries]"] by (simp add: small_options_simps small_entries_def)
  ultimately show ?thesis
    using small_sorted by (simp add: table_layout_def separators_def small_options_simps small_entries_def)
qed

interpretation small_table: stored_table "PosixRandomAccess_ops mem_kernel (mapped_file small_content)" "\<lambda>_. True" small_options small_seps
  "[small_entries]" "\<lambda>_. True"
proof (intro stored_table.intro stored_table_axioms.intro)
  show "random_access_file (PosixRandomAccess_ops mem_kernel (mapped_file small_content)) (\<lambda>_. True) small_content"
    using small_layout by (intro mapped_random_access_file) (simp add: table_layout_def)
qed (use small_layout in \<open>simp_all add: small_options_simps bytewise.key_order_axioms BytewiseComparator_def\<close>)

definition small_opened :: "(unit, mem_os) Table" where
  "small_opened = \<lparr>tab_options = small_options, tab_block_cache = None, tab_file = PosixRandomAccess_ops mem_kernel (mapped_file small_content),
     tab_cache_id = 0, tab_filter = None, tab_metaindex_handle = BlockHandle_new, tab_index_block = Block_new (index_bytes small_options small_seps [small_entries])\<rparr>"

lemma small_opened: "small_table.opened small_opened"
  by (simp add: small_table.opened_def small_opened_def)

interpretation small_iterator: two_level block_iterator_ops small_table.ies small_table.index_at "\<lambda>_ :: mem_os. True" "Compare (to_comparator small_options)"
  "\<lambda>_. True" block_iterator_ops "Table_BlockReader small_opened ReadOptions_new" "[small_entries]" small_table.data_at
  by (rule small_table.table_two_level [OF small_opened])

interpretation small_index: sorted_block 1 small_table.ies "to_comparator small_options" "\<lambda>_. True" "\<lambda>_ :: mem_os. True"
  by (rule small_table.index_block)

abbreviation "table_bytes b \<equiv> (case tb_file b of (f, os) \<Rightarrow> mem_fs.logical f os)"

lemma mem_log_file_ok:
  "case mem_log_file of (f, os) \<Rightarrow> mem_fs.open_file f os" "(case mem_log_file of (f, os) \<Rightarrow> mem_fs.logical f os) = []"
  by (simp_all add: mem_log_file_def mem_fs.open_file_def mem_fs.logical_def PosixWritableFile_new_def)

lemma small_shortening: "key_shortening (to_comparator small_options) (\<lambda>_. True)" "0 < to_block_restart_interval small_options"
  using bytewise_shortening.key_shortening_axioms by (simp_all add: small_options_simps)

lemma small_table_written:
  assumes "TableBuilder_AddAll (PosixWritableFile_ops mem_kernel) small_entries (TableBuilder_new small_options mem_log_file) = Some b"
    and "TableBuilder_Finish (PosixWritableFile_ops mem_kernel) b = Some (Status_OK, b')"
  shows "length (table_bytes b') < 2 ^ 32"
    "random_access_file (PosixRandomAccess_ops mem_kernel (mapped_file (table_bytes b'))) (\<lambda>_. True) (table_bytes b')"
proof -
  obtain blocks where "table_bytes b' = table_file small_options (index_keys (to_comparator small_options) blocks) blocks"
      "small_entries = concat blocks" "[] \<notin> set blocks"
    using table_written [OF posix_log_file.reliable_writable_file_axioms mem_log_file_ok small_shortening small_sorted] assms by auto
  thus len: "length (table_bytes b') < 2 ^ 32" using small_file_length by simp
  thus "random_access_file (PosixRandomAccess_ops mem_kernel (mapped_file (table_bytes b'))) (\<lambda>_. True) (table_bytes b')"
    by (intro mapped_random_access_file) simp
qed

section \<open>A table is read back\<close>

text \<open>C39: A table is read back exactly. Entries with increasing keys are added to a table builder on a file whose operations succeed: every
  call and \<open>Finish\<close> succeed, and \<open>FileSize\<close> is the length of the file. If the file is shorter than 4 GiB, \<open>Open\<close> without a block cache on
  any random access file with these contents succeeds, and the iterator of the table shows
  exactly the entries, in order, from \<open>SeekToFirst\<close>, and from \<open>Seek\<close> exactly those that are not below the target; it ends without an error.\<close>

theorem table_round_trip:
  assumes "reliable_writable_file W good contents" and "good f" "contents f = []"
    and "key_shortening (to_comparator opts) valid" "0 < to_block_restart_interval opts"
    and "sorted_entries (to_comparator opts) valid es"
  shows "\<exists>b b'. TableBuilder_AddAll W es (TableBuilder_new opts f) = Some b \<and> TableBuilder_Finish W b = Some (Status_OK, b') \<and>
     TableBuilder_FileSize b' = word_of_nat (length (contents (tb_file b'))) \<and>
     (\<forall>(F :: 'e random_access_ops) inv e.
        length (contents (tb_file b')) < 2 ^ 32 \<longrightarrow> random_access_file F inv (contents (tb_file b')) \<longrightarrow> inv e \<longrightarrow>
        (\<exists>(t :: ('h, 'e) Table) e'. Table_Open opts None F (TableBuilder_FileSize b') e = Some ((Status_OK, Some t), e') \<and>
          (\<exists>it e''. it_SeekToFirst (Table_iterator_ops t options) (Table_NewIterator t) e' \<bind> (\<lambda>(it, e). it_scan (Table_iterator_ops t options) it e) =
             Some (es, it, e'') \<and> it_status (Table_iterator_ops t options) it = Status_OK) \<and>
          (\<forall>target. valid target \<longrightarrow>
             (\<exists>it e''. it_Seek (Table_iterator_ops t options) target (Table_NewIterator t) e' \<bind> (\<lambda>(it, e). it_scan (Table_iterator_ops t options) it e) =
               Some (dropWhile (\<lambda>(k, _). Compare (to_comparator opts) k target < 0) es, it, e'') \<and>
               it_status (Table_iterator_ops t options) it = Status_OK))))"
proof -
  obtain b b' blocks where run: "TableBuilder_AddAll W es (TableBuilder_new opts f) = Some b" "TableBuilder_Finish W b = Some (Status_OK, b')"
      "TableBuilder_FileSize b' = word_of_nat (length (contents (tb_file b')))"
      and file_parts: "contents (tb_file b') = table_file opts (index_keys (to_comparator opts) blocks) blocks" "es = concat blocks"
      "length (contents (tb_file b')) < 2 ^ 32 \<longrightarrow> table_layout opts valid (index_keys (to_comparator opts) blocks) blocks"
    using table_written [OF assms] by blast
  show ?thesis
  proof (rule exI [of _ b], rule exI [of _ b'], intro conjI run allI impI, goal_cases)
    case (1 F inv e)
    note st = stored_tableI [OF file_parts(1,3) 1(1) assms(4,5) 1(2)]
    obtain t :: "('h, 'e) Table" and e' where op: "Table_Open opts None F (word_of_nat (length (contents (tb_file b')))) e = Some ((Status_OK, Some t), e')"
      "stored_table.opened F opts (index_keys (to_comparator opts) blocks) blocks t" "inv e'"
      using stored_table.Open_ok [OF st 1(3)] unfolding file_parts(1) by blast
    obtain at where cur: "cursor (Table_iterator_ops t options) es at inv (Compare (to_comparator opts)) valid" "at None (Table_NewIterator t)"
      using stored_table.table_cursor [OF st op(2), of options] file_parts(2) by blast
    show ?case
      using op(1) cursor.scan_first [OF cur op(3)] cursor.scan_seek [OF cur op(3)] unfolding run(3) by blast
  qed
qed

theorem table_round_trip_witness:
  "\<exists>b b' (t :: (unit, mem_os) Table) os it os'.
     TableBuilder_AddAll (PosixWritableFile_ops mem_kernel) small_entries (TableBuilder_new small_options mem_log_file) = Some b \<and>
     TableBuilder_Finish (PosixWritableFile_ops mem_kernel) b = Some (Status_OK, b') \<and>
     Table_Open small_options None (PosixRandomAccess_ops mem_kernel (mapped_file (table_bytes b'))) (TableBuilder_FileSize b') mem_empty =
       Some ((Status_OK, Some t), os) \<and>
     it_SeekToFirst (Table_iterator_ops t ReadOptions_new) (Table_NewIterator t) os \<bind> (\<lambda>(it, e). it_scan (Table_iterator_ops t ReadOptions_new) it e) =
       Some (small_entries, it, os')"
proof -
  from table_round_trip [OF posix_log_file.reliable_writable_file_axioms mem_log_file_ok small_shortening small_sorted,
      where options = ReadOptions_new and 'e = mem_os and 'h = unit]
  show ?thesis
  proof (elim exE conjE, goal_cases)
    case (1 b b')
    from 1(4) [rule_format, OF small_table_written [OF 1(1,2)], of mem_empty] 1(1,2) show ?case by blast
  qed
qed

text \<open>C40: A lookup in a table finds every key. In a table written and opened as above, the lookup of a key that was added
  passes its entry to the handler; the filter block, of any filter policy without false negatives, hides none of them. For any other
  key the handler gets nothing or the first entry above it. The lookup ends without an error.\<close>

theorem table_get:
  assumes "reliable_writable_file W good contents" and "good f" "contents f = []"
    and "key_shortening (to_comparator opts) valid" "0 < to_block_restart_interval opts"
    and "sorted_entries (to_comparator opts) valid es"
    and "\<forall>p. to_filter_policy opts = Some p \<longrightarrow> filter_policy p"
  shows "\<exists>b b'. TableBuilder_AddAll W es (TableBuilder_new opts f) = Some b \<and> TableBuilder_Finish W b = Some (Status_OK, b') \<and>
     (\<forall>(F :: 'e random_access_ops) inv e.
        length (contents (tb_file b')) < 2 ^ 32 \<longrightarrow> random_access_file F inv (contents (tb_file b')) \<longrightarrow> inv e \<longrightarrow>
        (\<exists>(t :: ('h, 'e) Table) e'. Table_Open opts None F (TableBuilder_FileSize b') e = Some ((Status_OK, Some t), e') \<and>
          (\<forall>k. valid k \<longrightarrow>
             (\<exists>found e''. Table_InternalGet t options k e' = Some ((Status_OK, found), e'') \<and>
               (\<forall>v. (k, v) \<in> set es \<longrightarrow> found = Some (k, v)) \<and>
               (\<forall>x. found = Some x \<longrightarrow> find (\<lambda>(k', _). Compare (to_comparator opts) k' k \<ge> 0) es = Some x)))))"
proof -
  obtain b b' blocks where run: "TableBuilder_AddAll W es (TableBuilder_new opts f) = Some b" "TableBuilder_Finish W b = Some (Status_OK, b')"
      "TableBuilder_FileSize b' = word_of_nat (length (contents (tb_file b')))"
      and file_parts: "contents (tb_file b') = table_file opts (index_keys (to_comparator opts) blocks) blocks" "es = concat blocks"
      "length (contents (tb_file b')) < 2 ^ 32 \<longrightarrow> table_layout opts valid (index_keys (to_comparator opts) blocks) blocks"
    using table_written [OF assms(1-6)] by blast
  show ?thesis
  proof (rule exI [of _ b], rule exI [of _ b'], intro conjI run(1,2) allI impI, goal_cases)
    case (1 F inv e)
    note st = stored_tableI [OF file_parts(1,3) 1(1) assms(4,5) 1(2)]
    obtain t :: "('h, 'e) Table" and e' where op: "Table_Open opts None F (word_of_nat (length (contents (tb_file b')))) e = Some ((Status_OK, Some t), e')"
      "stored_table.opened F opts (index_keys (to_comparator opts) blocks) blocks t" "tab_filter t = stored_table.filter_reader opts blocks" "inv e'"
      using stored_table.Open_ok [OF st 1(3)] unfolding file_parts(1) by blast
    have get: "\<exists>found e''. Table_InternalGet t options k e' = Some ((Status_OK, found), e'') \<and>
        (\<forall>v. (k, v) \<in> set es \<longrightarrow> found = Some (k, v)) \<and>
        (\<forall>x. found = Some x \<longrightarrow> find (\<lambda>(k', _). Compare (to_comparator opts) k' k \<ge> 0) es = Some x)" if vk: "valid k" for k
    proof -
      obtain found e'' where "Table_InternalGet t options k e' = Some ((Status_OK, found), e'')"
          "\<forall>v. (k, v) \<in> set es \<longrightarrow> found = Some (k, v)"
          "\<forall>x. found = Some x \<longrightarrow> find (\<lambda>(k', _). Compare (to_comparator opts) k' k \<ge> 0) es = Some x"
        using stored_table.InternalGet_ok [OF st op(2,3) assms(7) [rule_format] vk op(4), of options] unfolding file_parts(2) [symmetric] by metis
      thus ?thesis by blast
    qed
    show ?case
      unfolding run(3) by (intro exI conjI) (rule op(1), use get in blast)
  qed
qed

theorem table_get_witness:
  "\<exists>b b' (t :: (unit, mem_os) Table) os os'.
     TableBuilder_AddAll (PosixWritableFile_ops mem_kernel) small_entries (TableBuilder_new small_options mem_log_file) = Some b \<and>
     TableBuilder_Finish (PosixWritableFile_ops mem_kernel) b = Some (Status_OK, b') \<and>
     Table_Open small_options None (PosixRandomAccess_ops mem_kernel (mapped_file (table_bytes b'))) (TableBuilder_FileSize b') mem_empty =
       Some ((Status_OK, Some t), os) \<and>
     Table_InternalGet t ReadOptions_new [1, 4] os = Some ((Status_OK, Some ([1, 4], [7, 7])), os')"
proof -
  have p: "\<forall>p. to_filter_policy small_options = Some p \<longrightarrow> filter_policy p"
    using bloom.filter_policy_axioms by (simp add: small_options_simps)
  from table_get [OF posix_log_file.reliable_writable_file_axioms mem_log_file_ok small_shortening small_sorted p,
      where options = ReadOptions_new and 'e = mem_os and 'h = unit]
  show ?thesis
  proof (elim exE conjE, goal_cases)
    case (1 b b')
    note b = 1(1,2)
    from 1(3) [rule_format, OF small_table_written [OF b], of mem_empty, OF TrueI] show ?case
    proof (elim exE conjE, goal_cases)
      case (1 t os)
      have "([1, 4], [7, 7]) \<in> set small_entries" by (simp add: small_entries_def)
      with 1(2) [rule_format, OF TrueI, of "[1, 4]"] obtain os' where
        "Table_InternalGet t ReadOptions_new [1, 4] os = Some ((Status_OK, Some ([1, 4], [7, 7])), os')" by auto
      with b 1(1) show ?case by blast
    qed
  qed
qed

end
