(* ===== verification/Ldb_Handle_Table.thy ===== *)
theory Ldb_Handle_Table
  imports Bytes_Prelude "HOL-Library.Multiset" "HOL-Library.Monad_Syntax"
begin

text \<open>
  The entries of the LRU cache and their hash table (\<open>util/cache.cc\<close>). An address is the index of an entry in the list of all entries that were
  ever allocated, which is \<open>None\<close> once it has been freed; a chain of the hash table is a list of addresses. A step that would
  access a freed entry or index outside the table is \<open>None\<close>. The allocation of a larger table is taken to succeed. The lemmas say that the table is a set of entries with different
  keys, and that resizing it changes nothing.
\<close>

section \<open>Entries\<close>

record 'v LRUHandle =
  lh_value :: 'v
  lh_charge :: u64
  lh_in_cache :: bool
  lh_refs :: u32
  lh_hash :: u32
  lh_key :: bytes

type_synonym 'v heap = "'v LRUHandle option list"

definition deref :: "'v heap \<Rightarrow> nat \<Rightarrow> 'v LRUHandle option" where
  "deref H e = (if e < length H then H ! e else None)"

section \<open>The hash table\<close>

record HandleTable =
  ht_length :: u32
  ht_elems :: u32
  ht_list :: "nat list list"

text \<open>The position in its chain of the entry with this key, or the end of the chain.\<close>

fun FindPointer :: "'v heap \<Rightarrow> bytes \<Rightarrow> u32 \<Rightarrow> nat list \<Rightarrow> nat option" where
  "FindPointer H key hash [] = Some 0"
| "FindPointer H key hash (e # chain) = do {
     h \<leftarrow> deref H e;
     if lh_hash h \<noteq> hash \<or> key \<noteq> lh_key h then map_option Suc (FindPointer H key hash chain) else Some 0
   }"

definition bucket :: "u32 \<Rightarrow> HandleTable \<Rightarrow> nat" where
  "bucket hash t = unat (hash AND (ht_length t - 1))"

text \<open>The chain, the position in it and the entry there.\<close>

definition HandleTable_Find :: "'v heap \<Rightarrow> bytes \<Rightarrow> u32 \<Rightarrow> HandleTable \<Rightarrow> (nat list \<times> nat \<times> nat option) option" where
  "HandleTable_Find H key hash t =
     (if bucket hash t < length (ht_list t)
      then let chain = ht_list t ! bucket hash t
           in map_option (\<lambda>p. (chain, p, if p < length chain then Some (chain ! p) else None)) (FindPointer H key hash chain)
      else None)"

definition HandleTable_Lookup :: "'v heap \<Rightarrow> bytes \<Rightarrow> u32 \<Rightarrow> HandleTable \<Rightarrow> nat option option" where
  "HandleTable_Lookup H key hash t = map_option (\<lambda>(_, _, e). e) (HandleTable_Find H key hash t)"

partial_function (option) Resize_length :: "u32 \<Rightarrow> u32 \<Rightarrow> u32 option" where
  "Resize_length elems new_length = (if new_length < elems then Resize_length elems (new_length * 2) else Some new_length)"

fun Resize_move :: "'v heap \<Rightarrow> u32 \<Rightarrow> nat list \<Rightarrow> nat list list \<Rightarrow> nat list list option" where
  "Resize_move H new_length [] new_list = Some new_list"
| "Resize_move H new_length (e # es) new_list = do {
     h \<leftarrow> deref H e;
     let i = unat (lh_hash h AND (new_length - 1))
     in if i < length new_list then Resize_move H new_length es (new_list[i := e # new_list ! i]) else None
   }"

definition HandleTable_Resize :: "'v heap \<Rightarrow> HandleTable \<Rightarrow> HandleTable option" where
  "HandleTable_Resize H t = do {
     new_length \<leftarrow> Resize_length (ht_elems t) 4;
     new_list \<leftarrow> Resize_move H new_length (concat (ht_list t)) (replicate (unat new_length) []);
     Some (t\<lparr>ht_list := new_list, ht_length := new_length\<rparr>)
   }"

definition HandleTable_new :: "'v heap \<Rightarrow> HandleTable option" where
  "HandleTable_new H = HandleTable_Resize H \<lparr>ht_length = 0, ht_elems = 0, ht_list = []\<rparr>"

definition HandleTable_Insert :: "'v heap \<Rightarrow> nat \<Rightarrow> HandleTable \<Rightarrow> (nat option \<times> HandleTable) option" where
  "HandleTable_Insert H e t = do {
     h \<leftarrow> deref H e;
     (chain, p, old) \<leftarrow> HandleTable_Find H (lh_key h) (lh_hash h) t;
     let t = t\<lparr>ht_list := (ht_list t)[bucket (lh_hash h) t := take p chain @ e # drop (Suc p) chain]\<rparr>
     in case old of
          Some _ \<Rightarrow> Some (old, t)
        | None \<Rightarrow>
            (let t = t\<lparr>ht_elems := ht_elems t + 1\<rparr>
             in do {
               t \<leftarrow> (if ht_elems t > ht_length t then HandleTable_Resize H t else Some t);
               Some (None, t)
             })
   }"

definition HandleTable_Remove :: "'v heap \<Rightarrow> bytes \<Rightarrow> u32 \<Rightarrow> HandleTable \<Rightarrow> (nat option \<times> HandleTable) option" where
  "HandleTable_Remove H key hash t = do {
     (chain, p, result) \<leftarrow> HandleTable_Find H key hash t;
     Some (case result of
             None \<Rightarrow> (None, t)
           | Some _ \<Rightarrow> (result, t\<lparr>ht_list := (ht_list t)[bucket hash t := take p chain @ drop (Suc p) chain], ht_elems := ht_elems t - 1\<rparr>))
   }"

section \<open>The hash table is a set of entries\<close>

lemma deref_update: "deref (H[e := x]) e' = (if e = e' \<and> e < length H then x else deref H e')"
  by (simp add: deref_def)

lemma deref_append: "deref (H @ [x]) e' = (if e' = length H then x else deref H e')"
  by (auto simp: deref_def nth_append)

definition matches :: "'v heap \<Rightarrow> bytes \<Rightarrow> u32 \<Rightarrow> nat \<Rightarrow> bool" where
  "matches H key hash e \<longleftrightarrow> (\<exists>h. deref H e = Some h \<and> lh_hash h = hash \<and> lh_key h = key)"

text \<open>The entries of the table.\<close>

definition entries :: "HandleTable \<Rightarrow> nat multiset" where
  "entries t = mset (concat (ht_list t))"

text \<open>Every entry is in the chain of its hash, no two have the same key, and the counters are right.\<close>

definition placed :: "'v heap \<Rightarrow> u32 \<Rightarrow> nat list list \<Rightarrow> bool" where
  "placed H len bs \<longleftrightarrow> length bs = unat len \<and>
     (\<forall>i < length bs. \<forall>e \<in> set (bs ! i). \<exists>h. deref H e = Some h \<and> unat (lh_hash h AND (len - 1)) = i)"

definition unique_keys :: "'v heap \<Rightarrow> nat set \<Rightarrow> bool" where
  "unique_keys H A \<longleftrightarrow> (\<forall>e \<in> A. \<forall>e' \<in> A. \<forall>h. deref H e = Some h \<longrightarrow> matches H (lh_key h) (lh_hash h) e' \<longrightarrow> e = e')"

definition ht_wf :: "'v heap \<Rightarrow> HandleTable \<Rightarrow> bool" where
  "ht_wf H t \<longleftrightarrow> 0 < ht_length t \<and> placed H (ht_length t) (ht_list t) \<and> distinct (concat (ht_list t)) \<and>
     unat (ht_elems t) = size (entries t) \<and>
     unique_keys H (set_mset (entries t))"

lemma unique_keys_subset: "unique_keys H A \<Longrightarrow> B \<subseteq> A \<Longrightarrow> unique_keys H B"
  unfolding unique_keys_def by blast

lemma unique_keys_insert:
  assumes "unique_keys H A" "deref H e = Some h" "\<And>e'. e' \<in> A \<Longrightarrow> \<not> matches H (lh_key h) (lh_hash h) e'"
  shows "unique_keys H (insert e A)"
  using assms unfolding unique_keys_def matches_def by fastforce

lemma bucket_less: "0 < len \<Longrightarrow> unat (hash AND (len - 1 :: u32)) < unat len"
proof -
  assume "0 < len"
  hence "unat (len - 1) < unat len" by (metis less_not_refl measure_unat word_gt_0)
  moreover have "unat (hash AND (len - 1)) \<le> unat (len - 1)"
    by (simp add: word_and_le1 word_le_nat_alt [symmetric])
  ultimately show ?thesis by linarith
qed

lemma mset_concat_update:
  "i < length bs \<Longrightarrow> mset (concat (bs[i := b])) + mset (bs ! i) = mset (concat bs) + mset b"
proof (induction bs arbitrary: i)
  case (Cons x bs)
  thus ?case by (cases i) (auto simp: union_assoc union_commute union_lcomm)
qed simp

lemma FindPointer_ok:
  "(\<And>e. e \<in> set chain \<Longrightarrow> deref H e \<noteq> None) \<Longrightarrow>
   \<exists>p \<le> length chain. FindPointer H key hash chain = Some p \<and> (p < length chain \<longrightarrow> matches H key hash (chain ! p)) \<and>
     (\<forall>q < p. \<not> matches H key hash (chain ! q))"
proof (induction chain)
  case (Cons e chain)
  obtain h where h: "deref H e = Some h" using Cons.prems [of e] by auto
  obtain p where p: "p \<le> length chain" "FindPointer H key hash chain = Some p" "p < length chain \<longrightarrow> matches H key hash (chain ! p)"
      "\<forall>q < p. \<not> matches H key hash (chain ! q)"
    using Cons by auto
  show ?case
  proof (cases "lh_hash h \<noteq> hash \<or> key \<noteq> lh_key h")
    case True
    hence "\<not> matches H key hash e" using h by (auto simp: matches_def)
    thus ?thesis using True h p by (intro exI [of _ "Suc p"]) (auto simp: less_Suc_eq_0_disj)
  next
    case False
    thus ?thesis using h by (intro exI [of _ 0]) (auto simp: matches_def)
  qed
qed simp

lemma Find_ok:
  assumes "ht_wf H t"
  shows "\<exists>p. HandleTable_Find H key hash t = Some (ht_list t ! bucket hash t, p,
      if p < length (ht_list t ! bucket hash t) then Some (ht_list t ! bucket hash t ! p) else None) \<and>
    p \<le> length (ht_list t ! bucket hash t) \<and>
    (p < length (ht_list t ! bucket hash t) \<longrightarrow> matches H key hash (ht_list t ! bucket hash t ! p)) \<and>
    (p = length (ht_list t ! bucket hash t) \<longrightarrow> (\<forall>e \<in># entries t. \<not> matches H key hash e))"
proof -
  let ?i = "bucket hash t"
  have i: "?i < length (ht_list t)"
    using assms bucket_less by (simp add: ht_wf_def placed_def bucket_def)
  have chain: "deref H e \<noteq> None" if "e \<in> set (ht_list t ! ?i)" for e
    using assms i that by (fastforce simp: ht_wf_def placed_def)
  obtain p where p: "p \<le> length (ht_list t ! ?i)" "FindPointer H key hash (ht_list t ! ?i) = Some p"
      "p < length (ht_list t ! ?i) \<longrightarrow> matches H key hash (ht_list t ! ?i ! p)" "\<forall>q < p. \<not> matches H key hash (ht_list t ! ?i ! q)"
    using FindPointer_ok [OF chain, of "ht_list t ! ?i" key hash] by auto
  have "\<not> matches H key hash e" if pe: "p = length (ht_list t ! ?i)" "e \<in># entries t" for e
  proof
    assume m: "matches H key hash e"
    obtain B where "B \<in> set (ht_list t)" "e \<in> set B" using pe(2) by (auto simp: entries_def)
    then obtain j where j: "j < length (ht_list t)" "e \<in> set (ht_list t ! j)" by (metis in_set_conv_nth)
    hence "j = ?i" using assms m by (fastforce simp: ht_wf_def placed_def matches_def bucket_def)
    thus False using j m p(4) pe(1) by (metis in_set_conv_nth)
  qed
  thus ?thesis using i p by (intro exI [of _ p]) (auto simp: HandleTable_Find_def Let_def)
qed

lemma mset_snoc_distinct:
  assumes "mset xs + {#e#} = mset ys" "distinct ys"
  shows "distinct xs" "set xs = set ys - {e}"
proof -
  have eq: "mset (e # xs) = mset ys" using assms(1) by simp
  hence "distinct (e # xs)" using assms(2) mset_eq_imp_distinct_iff by blast
  thus "distinct xs" "set xs = set ys - {e}" using mset_eq_setD [OF eq] by auto
qed

lemma mset_swap:
  assumes "A + {#x#} = B + {#y#}" and "x \<in># B"
  shows "A = add_mset y (B - {#x#})"
proof -
  obtain C where B: "B = add_mset x C" using assms(2) by (metis insert_DiffM)
  hence "A + {#x#} = add_mset y C + {#x#}" using assms(1) by simp
  thus ?thesis using B by (simp only: add_right_cancel) simp
qed

lemma placed_update:
  assumes "placed H len bs" "i < length bs" and "\<And>e. e \<in> set b \<Longrightarrow> \<exists>h. deref H e = Some h \<and> unat (lh_hash h AND (len - 1)) = i"
  shows "placed H len (bs[i := b])"
  using assms by (auto simp: placed_def nth_list_update)

lemma ht_wf_placed: "ht_wf H t \<Longrightarrow> placed H (ht_length t) (ht_list t)"
  by (simp add: ht_wf_def)

lemma chain_placed:
  "ht_wf H t \<Longrightarrow> i < length (ht_list t) \<Longrightarrow> e \<in> set (ht_list t ! i) \<Longrightarrow>
   \<exists>h. deref H e = Some h \<and> unat (lh_hash h AND (ht_length t - 1)) = i"
  by (auto simp: ht_wf_def placed_def)

lemma entry_live:
  assumes wf: "ht_wf H t" and e: "e \<in># entries t"
  shows "deref H e \<noteq> None"
proof -
  obtain B where "B \<in> set (ht_list t)" "e \<in> set B" using e by (auto simp: entries_def)
  then obtain i where "i < length (ht_list t)" "e \<in> set (ht_list t ! i)" by (metis in_set_conv_nth)
  thus ?thesis using chain_placed [OF wf] by fastforce
qed

lemma Remove_ok:
  assumes wf: "ht_wf H t"
  shows "\<exists>r t'. HandleTable_Remove H key hash t = Some (r, t') \<and> ht_wf H t' \<and>
    (case r of None \<Rightarrow> t' = t \<and> (\<forall>e \<in># entries t. \<not> matches H key hash e)
     | Some e \<Rightarrow> e \<in># entries t \<and> matches H key hash e \<and> entries t' = entries t - {#e#})"
proof -
  let ?i = "bucket hash t"
  let ?chain = "ht_list t ! ?i"
  obtain p where p: "HandleTable_Find H key hash t = Some (?chain, p, if p < length ?chain then Some (?chain ! p) else None)"
      "p \<le> length ?chain" "p < length ?chain \<longrightarrow> matches H key hash (?chain ! p)" "p = length ?chain \<longrightarrow> (\<forall>e \<in># entries t. \<not> matches H key hash e)"
    using Find_ok [OF wf, of key hash] by blast
  show ?thesis
  proof (cases "p < length ?chain")
    case False
    thus ?thesis using p wf by (simp add: HandleTable_Remove_def)
  next
    case True
    let ?e = "?chain ! p" and ?b = "take p ?chain @ drop (Suc p) ?chain"
    let ?t = "t\<lparr>ht_list := (ht_list t)[?i := ?b], ht_elems := ht_elems t - 1\<rparr>"
    have i: "?i < length (ht_list t)" using wf bucket_less by (simp add: ht_wf_def placed_def bucket_def)
    have e: "?e \<in># entries t" using True i by (auto simp: entries_def intro!: bexI [of _ ?chain])
    have chain: "mset ?chain = mset ?b + {#?e#}"
      using True by (metis id_take_nth_drop mset.simps(2) mset_append union_mset_add_mset_right add_mset_add_single)
    have mset: "mset (concat (ht_list ?t)) + {#?e#} = mset (concat (ht_list t))"
      using mset_concat_update [OF i, of ?b] chain by (simp add: union_assoc union_commute union_lcomm)
    have ents: "entries ?t = entries t - {#?e#}" unfolding entries_def by (rule add_implies_diff [OF mset])
    have "set ?b \<subseteq> set ?chain" using set_take_subset set_drop_subset by fastforce
    hence "\<exists>h. deref H e = Some h \<and> unat (lh_hash h AND (ht_length t - 1)) = ?i" if "e \<in> set ?b" for e
      using chain_placed [OF wf i] that by blast
    hence "placed H (ht_length t) ((ht_list t)[?i := ?b])" by (rule placed_update [OF ht_wf_placed [OF wf] i])
    hence "placed H (ht_length t) (ht_list ?t)" by simp
    moreover have "distinct (concat (ht_list ?t))"
      using mset_snoc_distinct [OF mset] wf by (simp add: ht_wf_def)
    moreover have "0 < size (entries t)" using e by (metis empty_iff gr0I set_mset_empty size_eq_0_iff_empty)
    hence "unat (ht_elems t - 1) = size (entries t) - 1"
      using wf by (simp add: ht_wf_def unat_sub_if')
    moreover have "unique_keys H (set_mset (entries ?t))"
      unfolding ents by (rule unique_keys_subset) (use wf in \<open>auto simp: ht_wf_def dest: in_diffD\<close>)
    ultimately have "ht_wf H ?t"
      using wf e ents by (simp add: ht_wf_def size_Diff_singleton)
    thus ?thesis
      using p True e ents by (simp add: HandleTable_Remove_def)
  qed
qed

lemma Resize_length_ok:
  assumes "0 < len" "unat elems \<le> 2 ^ 31"
  shows "\<exists>n. Resize_length elems len = Some n \<and> 0 < n \<and> elems \<le> n"
  using assms
proof (induction "2 ^ 32 - unat len" arbitrary: len rule: less_induct)
  case less
  show ?case
  proof (cases "len < elems")
    case False
    thus ?thesis using less.prems by (subst Resize_length.simps) simp
  next
    case True
    have "unat len < 2 ^ 31" using True less.prems by (simp add: word_less_nat_alt)
    hence d: "unat (len * 2) = 2 * unat len" by (simp add: unat_word_ariths)
    have "0 < unat len" using less.prems(1) by (simp add: word_less_nat_alt)
    hence "2 ^ 32 - unat (len * 2) < 2 ^ 32 - unat len" "0 < len * 2"
      using d \<open>unat len < 2 ^ 31\<close> by (simp_all add: word_less_nat_alt)
    thus ?thesis
      using less.hyps [of "len * 2"] less.prems(2) True by (subst Resize_length.simps) simp
  qed
qed

lemma Resize_move_ok:
  assumes "0 < len" "placed H len bs" "\<And>e. e \<in> set es \<Longrightarrow> deref H e \<noteq> None"
  shows "\<exists>bs'. Resize_move H len es bs = Some bs' \<and> placed H len bs' \<and> mset (concat bs') = mset (concat bs) + mset es"
  using assms(2,3)
proof (induction es arbitrary: bs)
  case (Cons e es)
  obtain h where h: "deref H e = Some h" using Cons.prems(2) [of e] by auto
  let ?i = "unat (lh_hash h AND (len - 1))"
  have i: "?i < length bs" using bucket_less [OF assms(1)] Cons.prems(1) by (simp add: placed_def)
  have "\<exists>h. deref H e' = Some h \<and> unat (lh_hash h AND (len - 1)) = ?i" if "e' \<in> set (e # bs ! ?i)" for e'
    using that h i Cons.prems(1) by (auto simp: placed_def)
  hence "placed H len (bs[?i := e # bs ! ?i])" by (rule placed_update [OF Cons.prems(1) i])
  then obtain bs' where "Resize_move H len es (bs[?i := e # bs ! ?i]) = Some bs'" "placed H len bs'"
      "mset (concat bs') = mset (concat (bs[?i := e # bs ! ?i])) + mset es"
    using Cons.IH [of "bs[?i := e # bs ! ?i]"] Cons.prems(2) by auto
  moreover have "mset (concat (bs[?i := e # bs ! ?i])) = mset (concat bs) + {#e#}"
    using mset_concat_update [OF i, of "e # bs ! ?i"] by simp
  ultimately show ?case using h i by simp
qed simp

lemma Resize_ok:
  assumes wf: "ht_wf H t" and small: "size (entries t) \<le> 2 ^ 31"
  shows "\<exists>t'. HandleTable_Resize H t = Some t' \<and> ht_wf H t' \<and> entries t' = entries t"
proof -
  obtain n where n: "Resize_length (ht_elems t) 4 = Some n" "0 < n"
    using Resize_length_ok [of 4 "ht_elems t"] wf small by (auto simp: ht_wf_def)
  have pl: "placed H n (replicate (unat n) [])" by (simp add: placed_def)
  have live: "deref H e \<noteq> None" if "e \<in> set (concat (ht_list t))" for e
    using entry_live [OF wf] that by (simp add: entries_def)
  obtain bs where bs: "Resize_move H n (concat (ht_list t)) (replicate (unat n) []) = Some bs" "placed H n bs"
      "mset (concat bs) = entries t"
    using Resize_move_ok [OF n(2) pl, of "concat (ht_list t)"] live by (auto simp: entries_def)
  have "distinct (concat bs)"
    using bs(3) wf mset_eq_imp_distinct_iff by (auto simp: ht_wf_def entries_def)
  moreover have "entries (t\<lparr>ht_list := bs, ht_length := n\<rparr>) = entries t"
    using bs(3) by (simp add: entries_def)
  ultimately show ?thesis
    using n bs(1,2) wf by (simp add: HandleTable_Resize_def ht_wf_def)
qed

lemma Insert_ok:
  assumes wf: "ht_wf H t" and e: "deref H e = Some h" "e \<notin># entries t" and small: "size (entries t) < 2 ^ 31"
  shows "\<exists>old t'. HandleTable_Insert H e t = Some (old, t') \<and> ht_wf H t' \<and>
    (case old of None \<Rightarrow> entries t' = add_mset e (entries t) \<and> (\<forall>e \<in># entries t. \<not> matches H (lh_key h) (lh_hash h) e)
     | Some o' \<Rightarrow> o' \<in># entries t \<and> matches H (lh_key h) (lh_hash h) o' \<and> entries t' = add_mset e (entries t - {#o'#}))"
proof -
  let ?i = "bucket (lh_hash h) t"
  let ?chain = "ht_list t ! ?i"
  obtain p where p: "HandleTable_Find H (lh_key h) (lh_hash h) t = Some (?chain, p, if p < length ?chain then Some (?chain ! p) else None)"
      "p \<le> length ?chain" "p < length ?chain \<longrightarrow> matches H (lh_key h) (lh_hash h) (?chain ! p)"
      "p = length ?chain \<longrightarrow> (\<forall>e \<in># entries t. \<not> matches H (lh_key h) (lh_hash h) e)"
    using Find_ok [OF wf, of "lh_key h" "lh_hash h"] by blast
  let ?b = "take p ?chain @ e # drop (Suc p) ?chain"
  let ?t = "t\<lparr>ht_list := (ht_list t)[?i := ?b]\<rparr>"
  have i: "?i < length (ht_list t)" using wf bucket_less by (simp add: ht_wf_def placed_def bucket_def)
  have "set ?b \<subseteq> insert e (set ?chain)" using set_take_subset set_drop_subset by fastforce
  hence "\<exists>h. deref H e' = Some h \<and> unat (lh_hash h AND (ht_length t - 1)) = ?i" if "e' \<in> set ?b" for e'
    using chain_placed [OF wf i] that e(1) by (auto simp: bucket_def)
  hence pl: "placed H (ht_length t) ((ht_list t)[?i := ?b])" by (rule placed_update [OF ht_wf_placed [OF wf] i])
  have total: "mset (concat (ht_list ?t)) + mset ?chain = entries t + mset ?b"
    using mset_concat_update [OF i, of ?b] by (simp add: entries_def)
  show ?thesis
  proof (cases "p < length ?chain")
    case True
    let ?o = "?chain ! p"
    have o_in: "?o \<in># entries t" using True i by (auto simp: entries_def intro!: bexI [of _ ?chain])
    have chain: "mset ?chain = mset (take p ?chain @ drop (Suc p) ?chain) + {#?o#}"
      using True by (metis id_take_nth_drop mset.simps(2) mset_append union_mset_add_mset_right add_mset_add_single)
    have "entries ?t + {#?o#} = entries t + {#e#}"
      using total chain by (simp add: entries_def union_assoc union_commute union_lcomm)
    hence ents: "entries ?t = add_mset e (entries t - {#?o#})" by (rule mset_swap [OF _ o_in])
    hence "mset (concat (ht_list ?t)) = mset (e # remove1 ?o (concat (ht_list t)))" by (simp add: entries_def)
    moreover have "distinct (e # remove1 ?o (concat (ht_list t)))"
      using wf e(2) by (auto simp: ht_wf_def entries_def)
    ultimately have "distinct (concat (ht_list ?t))" using mset_eq_imp_distinct_iff by blast
    moreover have "unique_keys H (set_mset (entries ?t))"
    proof -
      have "unique_keys H (set_mset (entries t - {#?o#}))"
        by (rule unique_keys_subset) (use wf in \<open>auto simp: ht_wf_def dest: in_diffD\<close>)
      moreover have "\<not> matches H (lh_key h) (lh_hash h) e'" if "e' \<in># entries t - {#?o#}" for e'
      proof
        assume m: "matches H (lh_key h) (lh_hash h) e'"
        obtain h' where "deref H ?o = Some h'" "lh_key h' = lh_key h" "lh_hash h' = lh_hash h" using p(3) True by (auto simp: matches_def)
        hence "?o = e'" using wf o_in m in_diffD [OF that] by (metis ht_wf_def unique_keys_def)
        moreover have "count (entries t) ?o = 1"
          using wf o_in by (metis distinct_count_atmost_1 entries_def ht_wf_def set_mset_mset)
        ultimately show False using that by (metis count_eq_zero_iff count_single cancel_comm_monoid_add_class.diff_cancel count_diff)
      qed
      ultimately show ?thesis unfolding ents using unique_keys_insert [OF _ e(1)] by simp
    qed
    moreover have "size (entries ?t) = size (entries t)" unfolding ents using o_in by (simp add: size_Suc_Diff1)
    ultimately have "ht_wf H ?t"
      using wf pl by (simp add: ht_wf_def)
    thus ?thesis
      using p True e(1) o_in ents by (simp add: HandleTable_Insert_def Let_def)
  next
    case False
    hence pl_end: "p = length ?chain" using p(2) by simp
    let ?t' = "?t\<lparr>ht_elems := ht_elems t + 1\<rparr>"
    have ents: "entries ?t' = add_mset e (entries t)"
      using total pl_end by (simp add: entries_def)
    hence "mset (concat (ht_list ?t')) = mset (e # concat (ht_list t))" by (simp add: entries_def)
    moreover have "distinct (e # concat (ht_list t))" using wf e(2) by (auto simp: ht_wf_def entries_def)
    ultimately have "distinct (concat (ht_list ?t'))" using mset_eq_imp_distinct_iff by blast
    moreover have "unique_keys H (set_mset (entries ?t'))"
      unfolding ents using wf p(4) pl_end by (auto simp: ht_wf_def intro!: unique_keys_insert [OF _ e(1)])
    moreover have "unat (ht_elems t + 1) = Suc (size (entries t))"
      using wf small by (simp add: ht_wf_def unat_word_ariths)
    ultimately have wf': "ht_wf H ?t'"
      using wf pl ents by (simp add: ht_wf_def)
    obtain t'' where t'': "(if ht_elems ?t' > ht_length ?t' then HandleTable_Resize H ?t' else Some ?t') = Some t''" "ht_wf H t''" "entries t'' = entries ?t'"
      using Resize_ok [OF wf'] wf' small ents by (cases "ht_elems ?t' > ht_length ?t'") auto
    have b_end: "?b = ?chain @ [e]" using pl_end by simp
    have "HandleTable_Insert H e t = Some (None, t'')"
      using p(1) e(1) t''(1) [unfolded b_end] pl_end by (simp add: HandleTable_Insert_def Let_def split del: if_split)
    thus ?thesis
      using t''(2,3) ents p(4) pl_end by auto
  qed
qed

section \<open>The hash table is a map\<close>

lemma Lookup_ok:
  assumes wf: "ht_wf H t"
  shows "\<exists>r. HandleTable_Lookup H key hash t = Some r \<and>
    (case r of None \<Rightarrow> \<forall>e \<in># entries t. \<not> matches H key hash e | Some e \<Rightarrow> e \<in># entries t \<and> matches H key hash e)"
proof -
  let ?chain = "ht_list t ! bucket hash t"
  obtain p where p: "HandleTable_Find H key hash t = Some (?chain, p, if p < length ?chain then Some (?chain ! p) else None)"
      "p \<le> length ?chain" "p < length ?chain \<longrightarrow> matches H key hash (?chain ! p)" "p = length ?chain \<longrightarrow> (\<forall>e \<in># entries t. \<not> matches H key hash e)"
    using Find_ok [OF wf, of key hash] by blast
  have "bucket hash t < length (ht_list t)" using wf bucket_less by (simp add: ht_wf_def placed_def bucket_def)
  hence "?chain ! p \<in># entries t" if "p < length ?chain" using that by (auto simp: entries_def intro!: bexI [of _ ?chain])
  thus ?thesis using p by (auto simp: HandleTable_Lookup_def)
qed

text \<open>The calls that change the table, over entries that are allocated in \<open>H\<close>; the results are the entries that were replaced or removed.\<close>

datatype table_call = Call_Insert nat | Call_Remove bytes u32

fun table_run :: "'v heap \<Rightarrow> table_call list \<Rightarrow> HandleTable \<Rightarrow> (nat option list \<times> HandleTable) option" where
  "table_run H [] t = Some ([], t)"
| "table_run H (Call_Insert e # cs) t = do {
     (r, t) \<leftarrow> HandleTable_Insert H e t;
     (rs, t) \<leftarrow> table_run H cs t;
     Some (r # rs, t)
   }"
| "table_run H (Call_Remove key hash # cs) t = do {
     (r, t) \<leftarrow> HandleTable_Remove H key hash t;
     (rs, t) \<leftarrow> table_run H cs t;
     Some (r # rs, t)
   }"

text \<open>The same calls on a map from keys with their hash to entries.\<close>

type_synonym entry_map = "(bytes \<times> u32) \<rightharpoonup> nat"

fun map_run :: "'v heap \<Rightarrow> table_call list \<Rightarrow> entry_map \<Rightarrow> nat option list \<times> entry_map" where
  "map_run H [] m = ([], m)"
| "map_run H (Call_Insert e # cs) m =
     (let k = (lh_key (the (deref H e)), lh_hash (the (deref H e)));
          (rs, m') = map_run H cs (m(k \<mapsto> e))
      in (m k # rs, m'))"
| "map_run H (Call_Remove key hash # cs) m =
     (let (rs, m') = map_run H cs (m((key, hash) := None)) in (m (key, hash) # rs, m'))"

fun inserted :: "table_call list \<Rightarrow> nat list" where
  "inserted [] = []"
| "inserted (Call_Insert e # cs) = e # inserted cs"
| "inserted (Call_Remove key hash # cs) = inserted cs"

definition table_map :: "'v heap \<Rightarrow> HandleTable \<Rightarrow> entry_map \<Rightarrow> bool" where
  "table_map H t m \<longleftrightarrow> ht_wf H t \<and> (\<forall>key hash e. m (key, hash) = Some e \<longleftrightarrow> e \<in># entries t \<and> matches H key hash e)"

lemma entries_once: "ht_wf H t \<Longrightarrow> e' \<in># entries t - {#e#} \<longleftrightarrow> e' \<in># entries t \<and> e' \<noteq> e"
  by (simp add: ht_wf_def entries_def flip: mset_remove1)

lemma unique_match:
  "ht_wf H t \<Longrightarrow> e \<in># entries t \<Longrightarrow> e' \<in># entries t \<Longrightarrow> matches H key hash e \<Longrightarrow> matches H key hash e' \<Longrightarrow> e = e'"
  unfolding ht_wf_def unique_keys_def matches_def by auto

lemma matches_key: "matches H key hash e \<Longrightarrow> matches H key' hash' e \<Longrightarrow> (key', hash') = (key, hash)"
  by (auto simp: matches_def)

lemma table_map_Lookup: "table_map H t m \<Longrightarrow> HandleTable_Lookup H key hash t = Some (m (key, hash))"
proof -
  assume m: "table_map H t m"
  then obtain r where r: "HandleTable_Lookup H key hash t = Some r"
      "case r of None \<Rightarrow> \<forall>e \<in># entries t. \<not> matches H key hash e | Some e \<Rightarrow> e \<in># entries t \<and> matches H key hash e"
    using Lookup_ok [of H t key hash] by (auto simp: table_map_def)
  have "r = m (key, hash)"
  proof (cases r)
    case None
    thus ?thesis using r(2) m by (cases "m (key, hash)") (auto simp: table_map_def)
  next
    case (Some e)
    hence "m (key, hash) = Some e" using r(2) m by (simp add: table_map_def)
    thus ?thesis using Some by simp
  qed
  thus ?thesis using r(1) by simp
qed

lemma table_map_Remove:
  assumes "table_map H t m"
  shows "\<exists>t'. HandleTable_Remove H key hash t = Some (m (key, hash), t') \<and> table_map H t' (m((key, hash) := None)) \<and>
    size (entries t') \<le> size (entries t) \<and> set_mset (entries t') \<subseteq> set_mset (entries t)"
proof -
  have wf: "ht_wf H t" and m: "\<And>k h e. m (k, h) = Some e \<longleftrightarrow> e \<in># entries t \<and> matches H k h e"
    using assms by (simp_all add: table_map_def)
  obtain r t' where r: "HandleTable_Remove H key hash t = Some (r, t')" "ht_wf H t'"
      "case r of None \<Rightarrow> t' = t \<and> (\<forall>e \<in># entries t. \<not> matches H key hash e)
       | Some e \<Rightarrow> e \<in># entries t \<and> matches H key hash e \<and> entries t' = entries t - {#e#}"
    using Remove_ok [OF wf] by blast
  show ?thesis
  proof (cases r)
    case None
    hence "m (key, hash) = None" using r(3) m [of key hash] by (cases "m (key, hash)") auto
    moreover from this have "m((key, hash) := None) = m" by auto
    ultimately show ?thesis using None r assms by simp
  next
    case (Some e)
    hence e: "e \<in># entries t" "matches H key hash e" "entries t' = entries t - {#e#}" using r(3) by simp_all
    have "(m((key, hash) := None)) (k, h) = Some e' \<longleftrightarrow> e' \<in># entries t' \<and> matches H k h e'" for k h e'
    proof (cases "(k, h) = (key, hash)")
      case True
      thus ?thesis unfolding e(3) entries_once [OF wf] using unique_match [OF wf e(1) _ e(2), of e'] by auto
    next
      case False
      hence "e' \<noteq> e" if "matches H k h e'" using that matches_key [OF e(2)] by blast
      moreover have "(m((key, hash) := None)) (k, h) = m (k, h)" using False by (simp only: fun_upd_apply if_False)
      ultimately show ?thesis unfolding e(3) entries_once [OF wf] by (metis m)
    qed
    moreover have "m (key, hash) = Some e" using m e by simp
    moreover have "set_mset (entries t') \<subseteq> set_mset (entries t)" unfolding e(3) by (auto dest: in_diffD)
    moreover have "size (entries t') \<le> size (entries t)" unfolding e(3) by (simp add: size_Diff1_le)
    ultimately show ?thesis using Some r(1,2) by (simp add: table_map_def)
  qed
qed

lemma table_map_Insert:
  assumes "table_map H t m" and h: "deref H e = Some h" "e \<notin># entries t" and small: "size (entries t) < 2 ^ 31"
  shows "\<exists>t'. HandleTable_Insert H e t = Some (m (lh_key h, lh_hash h), t') \<and> table_map H t' (m((lh_key h, lh_hash h) \<mapsto> e)) \<and>
    size (entries t') \<le> Suc (size (entries t)) \<and> set_mset (entries t') \<subseteq> insert e (set_mset (entries t))"
proof -
  have wf: "ht_wf H t" and m: "\<And>k h e. m (k, h) = Some e \<longleftrightarrow> e \<in># entries t \<and> matches H k h e"
    using assms by (simp_all add: table_map_def)
  let ?k = "lh_key h" and ?h = "lh_hash h"
  have me: "matches H k' h' e \<longleftrightarrow> k' = ?k \<and> h' = ?h" for k' h' using h(1) by (auto simp: matches_def)
  obtain r t' where r: "HandleTable_Insert H e t = Some (r, t')" "ht_wf H t'"
      "case r of None \<Rightarrow> entries t' = add_mset e (entries t) \<and> (\<forall>e \<in># entries t. \<not> matches H ?k ?h e)
       | Some x \<Rightarrow> x \<in># entries t \<and> matches H ?k ?h x \<and> entries t' = add_mset e (entries t - {#x#})"
    using Insert_ok [OF wf h small] by blast
  show ?thesis
  proof (cases r)
    case None
    hence e: "entries t' = add_mset e (entries t)" "\<And>x. x \<in># entries t \<Longrightarrow> \<not> matches H ?k ?h x" using r(3) by simp_all
    have "m (?k, ?h) = None" using e(2) m [of ?k ?h] by (cases "m (?k, ?h)") auto
    moreover have "(m((?k, ?h) \<mapsto> e)) (k', h') = Some e' \<longleftrightarrow> e' \<in># entries t' \<and> matches H k' h' e'" for k' h' e'
    proof (cases "(k', h') = (?k, ?h)")
      case True
      thus ?thesis unfolding e(1) using e(2) [of e'] me by auto
    next
      case False
      hence "e' \<noteq> e" if "matches H k' h' e'" using that me [of k' h'] by blast
      moreover have "(m((?k, ?h) \<mapsto> e)) (k', h') = m (k', h')" using False by (simp only: fun_upd_apply if_False)
      ultimately show ?thesis unfolding e(1) set_mset_add_mset_insert insert_iff by (metis m)
    qed
    ultimately show ?thesis using None r(1,2) e(1) by (simp add: table_map_def)
  next
    case (Some x)
    hence e: "x \<in># entries t" "matches H ?k ?h x" "entries t' = add_mset e (entries t - {#x#})" using r(3) by simp_all
    have "(m((?k, ?h) \<mapsto> e)) (k', h') = Some e' \<longleftrightarrow> e' \<in># entries t' \<and> matches H k' h' e'" for k' h' e'
    proof (cases "(k', h') = (?k, ?h)")
      case True
      thus ?thesis unfolding e(3) set_mset_add_mset_insert insert_iff entries_once [OF wf]
        using unique_match [OF wf e(1) _ e(2), of e'] me by auto
    next
      case False
      hence "e' \<noteq> e \<and> e' \<noteq> x" if "matches H k' h' e'" using that me [of k' h'] matches_key [OF e(2)] by blast
      moreover have "(m((?k, ?h) \<mapsto> e)) (k', h') = m (k', h')" using False by (simp only: fun_upd_apply if_False)
      ultimately show ?thesis unfolding e(3) set_mset_add_mset_insert insert_iff entries_once [OF wf] by (metis m)
    qed
    moreover have "m (?k, ?h) = Some x" using m e by simp
    moreover have "size (entries t') = size (entries t)" unfolding e(3) using e(1) by (simp add: size_Suc_Diff1)
    moreover have "set_mset (entries t') \<subseteq> insert e (set_mset (entries t))" unfolding e(3) by (auto dest: in_diffD)
    ultimately show ?thesis using Some r(1,2) by (simp add: table_map_def)
  qed
qed

lemma table_map_run:
  assumes "table_map H t m" "\<forall>e \<in> set (inserted cs). deref H e \<noteq> None \<and> e \<notin># entries t" "distinct (inserted cs)"
    "size (entries t) + length (inserted cs) \<le> 2 ^ 31"
  shows "\<exists>t'. table_run H cs t = Some (fst (map_run H cs m), t') \<and> table_map H t' (snd (map_run H cs m))"
  using assms
proof (induction H cs t arbitrary: m rule: table_run.induct)
  case (2 H e cs t)
  obtain h where h: "deref H e = Some h" using "2.prems"(2) by auto
  obtain t' where t': "HandleTable_Insert H e t = Some (m (lh_key h, lh_hash h), t')" "table_map H t' (m((lh_key h, lh_hash h) \<mapsto> e))"
      "size (entries t') \<le> Suc (size (entries t))" "set_mset (entries t') \<subseteq> insert e (set_mset (entries t))"
    using table_map_Insert [OF "2.prems"(1) h] "2.prems"(2,4) by auto
  have "\<exists>t''. table_run H cs t' = Some (fst (map_run H cs (m((lh_key h, lh_hash h) \<mapsto> e))), t'') \<and>
      table_map H t'' (snd (map_run H cs (m((lh_key h, lh_hash h) \<mapsto> e))))"
    by (rule "2.IH" [OF t'(1) refl t'(2)]) (use "2.prems"(2-4) t'(3,4) in auto)
  thus ?case using t'(1) h by (auto simp: Let_def case_prod_unfold)
next
  case (3 H key hash cs t)
  obtain t' where t': "HandleTable_Remove H key hash t = Some (m (key, hash), t')" "table_map H t' (m((key, hash) := None))"
      "size (entries t') \<le> size (entries t)" "set_mset (entries t') \<subseteq> set_mset (entries t)"
    using table_map_Remove [OF "3.prems"(1)] by blast
  have "\<exists>t''. table_run H cs t' = Some (fst (map_run H cs (m((key, hash) := None))), t'') \<and>
      table_map H t'' (snd (map_run H cs (m((key, hash) := None))))"
    by (rule "3.IH" [OF t'(1) refl t'(2)]) (use "3.prems"(2-4) t'(3,4) in auto)
  thus ?case using t'(1) by (auto simp: Let_def case_prod_unfold)
qed simp

lemma table_map_new: "\<exists>t. HandleTable_new H = Some t \<and> table_map H t Map.empty \<and> entries t = {#}"
proof -
  have "Resize_length 0 4 = Some 4" by (subst Resize_length.simps) simp
  hence "HandleTable_new H = Some \<lparr>ht_length = 4, ht_elems = 0, ht_list = replicate 4 []\<rparr>"
    by (simp add: HandleTable_new_def HandleTable_Resize_def)
  moreover have "concat (replicate 4 []) = []" by simp
  ultimately show ?thesis by (auto simp: table_map_def ht_wf_def placed_def unique_keys_def entries_def)
qed

text \<open>C38: the hash table of the cache refines a map. A new table is given any sequence of insertions of different allocated entries (at most \<open>2 ^ 31\<close> of them) and
  removals. No call touches a freed entry or indexes outside the table, every growth of the table ends, each call returns
  the entry that the map has for the key and its hash (the one that an insertion replaces), and afterwards \<open>Lookup\<close> returns exactly what the map has,
  however often the table was resized.\<close>

theorem handle_table_refines_map:
  assumes "\<forall>e \<in> set (inserted cs). deref H e \<noteq> None" "distinct (inserted cs)" "length (inserted cs) \<le> 2 ^ 31"
  shows "\<exists>t t'. HandleTable_new H = Some t \<and> table_run H cs t = Some (fst (map_run H cs Map.empty), t') \<and>
    (\<forall>key hash. HandleTable_Lookup H key hash t' = Some (snd (map_run H cs Map.empty) (key, hash)))"
proof -
  obtain t where t: "HandleTable_new H = Some t" "table_map H t Map.empty" "entries t = {#}" using table_map_new by blast
  obtain t' where "table_run H cs t = Some (fst (map_run H cs Map.empty), t')" "table_map H t' (snd (map_run H cs Map.empty))"
    using table_map_run [OF t(2), of cs] assms t(3) by auto
  thus ?thesis using t(1) table_map_Lookup by blast
qed

text \<open>Six entries, two of them with the same key: the table grows, and the later one replaces the earlier.\<close>

theorem handle_table_refines_map_witness:
  "\<exists>(H :: unit heap) t t'. HandleTable_new H = Some t \<and> table_run H (map Call_Insert [0..<6] @ [Call_Remove [1] 1]) t =
       Some ([None, None, None, None, None, Some 0, Some 1], t') \<and>
     HandleTable_Lookup H [0] 0 t' = Some (Some 5) \<and> HandleTable_Lookup H [1] 1 t' = Some None"
proof -
  let ?e = "\<lambda>k. Some \<lparr>lh_value = (), lh_charge = 1, lh_in_cache = True, lh_refs = 1, lh_hash = k, lh_key = [ucast k]\<rparr>"
  let ?H = "map ?e [0, 1, 2, 3, 4, 0]"
  let ?cs = "map Call_Insert [0..<6] @ [Call_Remove [1] 1]"
  have l: "[0..<6] = [0, 1, 2, 3, 4, 5 :: nat]" by (simp add: upt_rec)
  have i: "inserted ?cs = [0, 1, 2, 3, 4, 5]" unfolding l by simp
  have d: "\<forall>e \<in> set (inserted ?cs). deref ?H e \<noteq> None" "distinct (inserted ?cs)" "length (inserted ?cs) \<le> 2 ^ 31"
    unfolding i by (simp_all add: deref_def)
  have m: "fst (map_run ?H ?cs Map.empty) = [None, None, None, None, None, Some 0, Some 1]"
      "snd (map_run ?H ?cs Map.empty) ([0], 0) = Some 5" "snd (map_run ?H ?cs Map.empty) ([1], 1) = None"
    unfolding l by (simp_all add: deref_def Let_def)
  obtain t t' where r: "HandleTable_new ?H = Some t" "table_run ?H ?cs t = Some (fst (map_run ?H ?cs Map.empty), t')"
      "\<And>key hash. HandleTable_Lookup ?H key hash t' = Some (snd (map_run ?H ?cs Map.empty) (key, hash))"
    using handle_table_refines_map [OF d] by blast
  show ?thesis
    using r(1) r(2) [unfolded m(1)] r(3) [of "[0]" 0, unfolded m(2)] r(3) [of "[1]" 1, unfolded m(3)] by blast
qed

end
