(* ===== verification/Ldb_Arena.thy ===== *)
theory Ldb_Arena
  imports Ldb_Coding "HOL-Library.Monad_Syntax"
begin

text \<open>
  The arena allocator (\<open>util/arena.h\<close>, \<open>util/arena.cc\<close>) and the random number generator of the skip
  list (\<open>util/random.h\<close>). The arena takes its blocks from \<open>operator new[]\<close>, which is the parameter
  \<open>new\<close> of its operations: given a size and a state of the heap it returns the address of the new
  array, or \<open>None\<close> when it throws \<open>std::bad_alloc\<close>; an operation that lets the exception pass is \<open>None\<close> and
  leaves the arena as it was. Addresses and sizes (\<open>char*\<close>, \<open>size_t\<close>) are 64-bit words, so every sum and difference
  wraps around as in the code. The arena is never asked for zero bytes.
\<close>

section \<open>The arena\<close>

text \<open>\<open>static const int kBlockSize\<close> of arena.cc.\<close>

definition arena_kBlockSize :: u64 where
  "arena_kBlockSize = 4096"

record 'h arena =
  ar_alloc_ptr :: u64
  ar_bytes_remaining :: u64
  ar_blocks :: "u64 list"
  ar_memory_usage :: u64
  ar_heap :: 'h

type_synonym 'h new_array = "u64 \<Rightarrow> 'h \<Rightarrow> (u64 \<times> 'h) option"

definition Arena_new :: "'h \<Rightarrow> 'h arena" where
  "Arena_new h = \<lparr>ar_alloc_ptr = 0, ar_bytes_remaining = 0, ar_blocks = [], ar_memory_usage = 0, ar_heap = h\<rparr>"

definition MemoryUsage :: "'h arena \<Rightarrow> u64" where
  "MemoryUsage a = ar_memory_usage a"

definition AllocateNewBlock :: "'h new_array \<Rightarrow> u64 \<Rightarrow> 'h arena \<Rightarrow> (u64 \<times> 'h arena) option" where
  "AllocateNewBlock new block_bytes a = do {
     (r, h) \<leftarrow> new block_bytes (ar_heap a);
     Some (r, a\<lparr>ar_blocks := ar_blocks a @ [r], ar_memory_usage := ar_memory_usage a + (block_bytes + 8), ar_heap := h\<rparr>)
   }"

definition AllocateFallback :: "'h new_array \<Rightarrow> u64 \<Rightarrow> 'h arena \<Rightarrow> (u64 \<times> 'h arena) option" where
  "AllocateFallback new bytes a =
     (if bytes > arena_kBlockSize div 4 then AllocateNewBlock new bytes a
      else do {
        (p, a) \<leftarrow> AllocateNewBlock new arena_kBlockSize a;
        let a = a\<lparr>ar_alloc_ptr := p, ar_bytes_remaining := arena_kBlockSize\<rparr>;
            r = ar_alloc_ptr a
        in Some (r, a\<lparr>ar_alloc_ptr := ar_alloc_ptr a + bytes,
                      ar_bytes_remaining := ar_bytes_remaining a - bytes\<rparr>)
      })"

definition Allocate :: "'h new_array \<Rightarrow> u64 \<Rightarrow> 'h arena \<Rightarrow> (u64 \<times> 'h arena) option" where
  "Allocate new bytes a =
     (if bytes \<le> ar_bytes_remaining a
      then Some (ar_alloc_ptr a, a\<lparr>ar_alloc_ptr := ar_alloc_ptr a + bytes,
                                   ar_bytes_remaining := ar_bytes_remaining a - bytes\<rparr>)
      else AllocateFallback new bytes a)"

text \<open>Pointers have eight bytes, so \<open>align\<close> is 8.\<close>

definition AllocateAligned :: "'h new_array \<Rightarrow> u64 \<Rightarrow> 'h arena \<Rightarrow> (u64 \<times> 'h arena) option" where
  "AllocateAligned new bytes a =
     (let align = 8;
          current_mod = ar_alloc_ptr a AND (align - 1);
          slop = (if current_mod = 0 then 0 else align - current_mod);
          needed = bytes + slop
      in if needed \<le> ar_bytes_remaining a
         then Some (ar_alloc_ptr a + slop, a\<lparr>ar_alloc_ptr := ar_alloc_ptr a + needed,
                                             ar_bytes_remaining := ar_bytes_remaining a - needed\<rparr>)
         else AllocateFallback new bytes a)"

text \<open>An \<open>operator new[]\<close> that does not throw, and that every allocation returns with it.\<close>

definition no_bad_alloc :: "'h new_array \<Rightarrow> bool" where
  "no_bad_alloc new \<longleftrightarrow> (\<forall>n h. new n h \<noteq> None)"

lemma AllocateNewBlock_fails: "AllocateNewBlock new n a = None \<Longrightarrow> new n (ar_heap a) = None"
  by (cases "new n (ar_heap a)") (auto simp: AllocateNewBlock_def)

lemma AllocateFallback_fails: "AllocateFallback new n a = None \<Longrightarrow> \<exists>n h. new n h = None"
  by (cases "AllocateNewBlock new arena_kBlockSize a")
    (auto simp: AllocateFallback_def Let_def dest: AllocateNewBlock_fails split: if_splits)

lemma Allocate_fails: "Allocate new n a = None \<Longrightarrow> \<exists>n h. new n h = None"
  by (auto simp: Allocate_def dest: AllocateFallback_fails split: if_splits)

lemma AllocateAligned_fails: "AllocateAligned new n a = None \<Longrightarrow> \<exists>n h. new n h = None"
  by (auto simp: AllocateAligned_def Let_def dest: AllocateFallback_fails split: if_splits)

lemma Allocate_returns: "no_bad_alloc new \<Longrightarrow> \<exists>p a'. Allocate new n a = Some (p, a')"
  unfolding no_bad_alloc_def by (metis Allocate_fails not_None_eq surj_pair)

lemma AllocateAligned_returns: "no_bad_alloc new \<Longrightarrow> \<exists>p a'. AllocateAligned new n a = Some (p, a')"
  unfolding no_bad_alloc_def by (metis AllocateAligned_fails not_None_eq surj_pair)

section \<open>The random number generator\<close>

text \<open>The generator is its seed; \<open>Next\<close> returns the new seed, which is also the random number.\<close>

definition Random_new :: "u32 \<Rightarrow> u32" where
  "Random_new s = (let seed = s AND 0x7fffffff in if seed = 0 \<or> seed = 2147483647 then 1 else seed)"

definition Random_Next :: "u32 \<Rightarrow> u32" where
  "Random_Next seed =
     (let M = 2147483647 :: u32;
          A = 16807 :: u64;
          product = ucast seed * A;
          seed = ucast (drop_bit 31 product + (product AND ucast M)) :: u32
      in if seed > M then seed - M else seed)"

definition Random_Uniform :: "u32 \<Rightarrow> u32 \<Rightarrow> u32 \<times> u32" where
  "Random_Uniform n seed = (let r = Random_Next seed in (r mod n, r))"

definition Random_OneIn :: "u32 \<Rightarrow> u32 \<Rightarrow> bool \<times> u32" where
  "Random_OneIn n seed = (let r = Random_Next seed in (r mod n = 0, r))"

definition Random_Skewed :: "u32 \<Rightarrow> u32 \<Rightarrow> u32 \<times> u32" where
  "Random_Skewed max_log seed =
     (let (base, seed) = Random_Uniform (max_log + 1) seed
      in Random_Uniform (push_bit (unat base) 1) seed)"

section \<open>Allocations are disjoint\<close>

definition region :: "u64 \<times> u64 \<Rightarrow> nat set" where
  "region r = {unat (fst r) ..< unat (fst r) + unat (snd r)}"

datatype arena_request = Plain u64 | Aligned u64

fun request_size :: "arena_request \<Rightarrow> u64" where
  "request_size (Plain n) = n"
| "request_size (Aligned n) = n"

fun request_aligned :: "arena_request \<Rightarrow> bool" where
  "request_aligned (Plain n) = False"
| "request_aligned (Aligned n) = True"

text \<open>A request that the arena can serve: not empty, and an aligned one leaves room for the padding.\<close>

definition request_ok :: "arena_request \<Rightarrow> bool" where
  "request_ok q \<longleftrightarrow> 0 < request_size q \<and> (request_aligned q \<longrightarrow> unat (request_size q) + 7 < 2 ^ 64)"

fun serve_request :: "'h new_array \<Rightarrow> arena_request \<Rightarrow> 'h arena \<Rightarrow> (u64 \<times> 'h arena) option" where
  "serve_request new (Plain n) a = Allocate new n a"
| "serve_request new (Aligned n) a = AllocateAligned new n a"

text \<open>A sequence of requests, answered in order. A request whose allocation throws gets nothing, and the client goes on.\<close>

fun arena_run :: "'h new_array \<Rightarrow> arena_request list \<Rightarrow> 'h arena \<Rightarrow> u64 option list \<times> 'h arena" where
  "arena_run new [] a = ([], a)"
| "arena_run new (q # qs) a =
     (case serve_request new q a of
        None \<Rightarrow> (let (ps, a) = arena_run new qs a in (None # ps, a))
      | Some (p, a) \<Rightarrow> (let (ps, a) = arena_run new qs a in (Some p # ps, a)))"

text \<open>The memory that was handed out.\<close>

fun granted :: "arena_request list \<Rightarrow> u64 option list \<Rightarrow> (u64 \<times> u64) list" where
  "granted (q # qs) (Some p # ps) = (p, request_size q) # granted qs ps"
| "granted (q # qs) (None # ps) = granted qs ps"
| "granted _ _ = []"

text \<open>What the arena relies on: \<open>operator new[]\<close> returns an array that lies in the address space, overlaps no live array and
  is aligned for every fundamental type. Nothing is freed while the arena lives.\<close>

locale array_allocator =
  fixes new :: "'h new_array"
    and live :: "'h \<Rightarrow> (u64 \<times> u64) set"
  assumes new_live: "new n h = Some (p, h') \<Longrightarrow> live h' = insert (p, n) (live h)"
    and new_disjoint: "new n h = Some (p, h') \<Longrightarrow> r \<in> live h \<Longrightarrow> region (p, n) \<inter> region r = {}"
    and new_fits: "new n h = Some (p, h') \<Longrightarrow> unat p + unat n < 2 ^ 64"
    and new_aligned: "new n h = Some (p, h') \<Longrightarrow> unat p mod 8 = 0"
begin

text \<open>A region lies in a block that the arena owns.\<close>

definition owned :: "'h arena \<Rightarrow> u64 \<times> u64 \<Rightarrow> bool" where
  "owned a r \<longleftrightarrow> (\<exists>p n. (p, n) \<in> live (ar_heap a) \<and> p \<in> set (ar_blocks a) \<and> region r \<subseteq> region (p, n))"

abbreviation current :: "'h arena \<Rightarrow> u64 \<times> u64" where
  "current a \<equiv> (ar_alloc_ptr a, ar_bytes_remaining a)"

text \<open>The regions handed out are owned and disjoint, and disjoint from the rest of the current block. \<open>sizes\<close> are the
  sizes of the blocks: they cover the regions and that rest, and with eight bytes more for each block they make up the memory usage.\<close>

definition regions_ok :: "'h arena \<Rightarrow> (u64 \<times> u64) list \<Rightarrow> bool" where
  "regions_ok a rs \<longleftrightarrow>
     (\<forall>r\<in>set rs. owned a r \<and> region r \<inter> region (current a) = {}) \<and>
     (ar_bytes_remaining a = 0 \<or> owned a (current a)) \<and> unat (ar_alloc_ptr a) + unat (ar_bytes_remaining a) < 2 ^ 64 \<and>
     sorted_wrt (\<lambda>r s. region r \<inter> region s = {}) rs"

definition sizes_ok :: "'h arena \<Rightarrow> (u64 \<times> u64) list \<Rightarrow> u64 list \<Rightarrow> bool" where
  "sizes_ok a rs sizes \<longleftrightarrow>
     length sizes = length (ar_blocks a) \<and> set (zip (ar_blocks a) sizes) \<subseteq> live (ar_heap a) \<and>
     sum_list (map (unat \<circ> snd) rs) + unat (ar_bytes_remaining a) \<le> sum_list (map unat sizes) \<and>
     ar_memory_usage a = word_of_nat (sum_list (map (\<lambda>n. unat n + 8) sizes))"

definition arena_ok :: "'h arena \<Rightarrow> (u64 \<times> u64) list \<Rightarrow> bool" where
  "arena_ok a rs \<longleftrightarrow> regions_ok a rs \<and> (\<exists>sizes. sizes_ok a rs sizes)"

lemma arena_ok_new: "arena_ok (Arena_new h) []"
  by (simp add: arena_ok_def regions_ok_def sizes_ok_def Arena_new_def)

lemma AllocateNewBlock_result:
  assumes "AllocateNewBlock new n a = Some (p, a')"
  shows "unat p mod 8 = 0" "unat p + unat n < 2 ^ 64" "current a' = current a"
    "owned a r \<Longrightarrow> owned a' r" "owned a' (p, n)" "owned a r \<Longrightarrow> region (p, n) \<inter> region r = {}"
    "sizes_ok a rs sizes \<Longrightarrow> sizes_ok a' ((p, n) # rs) (sizes @ [n])"
    "sizes_ok a rs sizes \<Longrightarrow> sizes_ok (a'\<lparr>ar_alloc_ptr := q, ar_bytes_remaining := n\<rparr>) rs (sizes @ [n])"
proof -
  obtain h where h: "new n (ar_heap a) = Some (p, h)"
    and a': "a' = a\<lparr>ar_blocks := ar_blocks a @ [p], ar_memory_usage := ar_memory_usage a + (n + 8), ar_heap := h\<rparr>"
    using assms by (auto simp: AllocateNewBlock_def bind_eq_Some_conv)
  show "unat p mod 8 = 0" "unat p + unat n < 2 ^ 64" using new_aligned [OF h] new_fits [OF h] by simp_all
  show "current a' = current a" by (simp add: a')
  have l: "live (ar_heap a') = insert (p, n) (live (ar_heap a))" using new_live [OF h] by (simp add: a')
  show "owned a r \<Longrightarrow> owned a' r" "owned a' (p, n)" using l unfolding owned_def by (auto simp: a')
  show "region (p, n) \<inter> region r = {}" if "owned a r"
    using that new_disjoint [OF h] unfolding owned_def by blast
  show "sizes_ok a rs sizes \<Longrightarrow> sizes_ok a' ((p, n) # rs) (sizes @ [n])"
    "sizes_ok a rs sizes \<Longrightarrow> sizes_ok (a'\<lparr>ar_alloc_ptr := q, ar_bytes_remaining := n\<rparr>) rs (sizes @ [n])"
    using l by (auto simp: sizes_ok_def a')
qed

text \<open>Taking \<open>n\<close> bytes after \<open>slop\<close> from the current block.\<close>

lemma arena_ok_carve:
  assumes ok: "arena_ok a rs" and n: "0 < n" and fit: "unat slop + unat n \<le> unat (ar_bytes_remaining a)"
  shows "arena_ok (a\<lparr>ar_alloc_ptr := ar_alloc_ptr a + (n + slop),
      ar_bytes_remaining := ar_bytes_remaining a - (n + slop)\<rparr>) ((ar_alloc_ptr a + slop, n) # rs)"
proof -
  let ?a = "a\<lparr>ar_alloc_ptr := ar_alloc_ptr a + (n + slop), ar_bytes_remaining := ar_bytes_remaining a - (n + slop)\<rparr>"
  have top: "unat (ar_alloc_ptr a) + unat (ar_bytes_remaining a) < 2 ^ 64" using ok by (simp add: arena_ok_def regions_ok_def)
  have sum: "unat (n + slop) = unat slop + unat n"
    using top fit by (subst unat_add_lem [THEN iffD1]) auto
  have addr: "unat (ar_alloc_ptr a + slop) = unat (ar_alloc_ptr a) + unat slop"
      "unat (ar_alloc_ptr a + (n + slop)) = unat (ar_alloc_ptr a) + (unat slop + unat n)"
      "unat (ar_bytes_remaining a - (n + slop)) = unat (ar_bytes_remaining a) - (unat slop + unat n)"
    using top fit sum by (simp_all add: unat_sub_if' unat_add_lem [THEN iffD1])
  have rest: "unat (ar_alloc_ptr ?a) + unat (ar_bytes_remaining ?a) < 2 ^ 64"
    using top fit addr by simp
  have pos: "0 < unat n" using n by (simp add: word_less_nat_alt)
  have own: "owned a (current a)"
    using ok pos fit by (auto simp: arena_ok_def regions_ok_def)
  have sub: "region (ar_alloc_ptr a + slop, n) \<subseteq> region (current a)" "region (current ?a) \<subseteq> region (current a)"
      "region (ar_alloc_ptr a + slop, n) \<inter> region (current ?a) = {}"
    using fit addr by (auto simp: region_def)
  have same: "owned ?a r = owned a r" for r by (simp add: owned_def)
  have smaller: "owned a r" if "region r \<subseteq> region (current a)" for r
    using own that unfolding owned_def by blast
  have old: "owned a r \<and> region r \<inter> region (current ?a) = {} \<and> region (ar_alloc_ptr a + slop, n) \<inter> region r = {}" if "r \<in> set rs" for r
    using ok that sub unfolding arena_ok_def regions_ok_def by blast
  have "sorted_wrt (\<lambda>r s. region r \<inter> region s = {}) rs" using ok by (simp add: arena_ok_def regions_ok_def)
  hence "regions_ok ?a ((ar_alloc_ptr a + slop, n) # rs)"
    unfolding regions_ok_def same using smaller [OF sub(1)] smaller [OF sub(2)] sub(3) old rest by simp
  moreover obtain sizes where "sizes_ok a rs sizes" using ok by (auto simp: arena_ok_def)
  hence "sizes_ok ?a ((ar_alloc_ptr a + slop, n) # rs) sizes"
    using fit addr by (auto simp: sizes_ok_def)
  ultimately show ?thesis unfolding arena_ok_def by blast
qed

lemma arena_ok_block:
  assumes ok: "arena_ok a rs" and b: "AllocateNewBlock new n a = Some (p, a')"
  shows "arena_ok a' ((p, n) # rs)" "arena_ok (a'\<lparr>ar_alloc_ptr := p, ar_bytes_remaining := n\<rparr>) rs"
proof -
  note B = AllocateNewBlock_result [OF b]
  obtain sizes where sizes: "sizes_ok a rs sizes" using ok by (auto simp: arena_ok_def)
  have ok': "regions_ok a rs" using ok by (simp add: arena_ok_def)
  have "region (p, n) \<inter> region (current a) = {}"
    using ok' B(6) [of "current a"] by (cases "ar_bytes_remaining a = 0") (auto simp: regions_ok_def region_def)
  hence "regions_ok a' ((p, n) # rs)"
    using ok' B(3-6) by (auto simp: regions_ok_def)
  thus "arena_ok a' ((p, n) # rs)"
    using B(7) [OF sizes] by (auto simp: arena_ok_def)
  have "owned (a'\<lparr>ar_alloc_ptr := x, ar_bytes_remaining := y\<rparr>) r = owned a' r" for x y r
    by (simp add: owned_def)
  hence "regions_ok (a'\<lparr>ar_alloc_ptr := p, ar_bytes_remaining := n\<rparr>) rs"
    using ok' B(2,4-6) by (auto simp: regions_ok_def Int_commute)
  thus "arena_ok (a'\<lparr>ar_alloc_ptr := p, ar_bytes_remaining := n\<rparr>) rs"
    using B(8) [OF sizes] by (auto simp: arena_ok_def)
qed

lemma AllocateFallback_ok:
  assumes ok: "arena_ok a rs" and n: "0 < n" and r: "AllocateFallback new n a = Some (p, a')"
  shows "arena_ok a' ((p, n) # rs) \<and> unat p mod 8 = 0"
proof (cases "n > arena_kBlockSize div 4")
  case True
  then show ?thesis using arena_ok_block(1) [OF ok] AllocateNewBlock_result(1) r
    by (auto simp: AllocateFallback_def)
next
  case False
  obtain b where b: "AllocateNewBlock new arena_kBlockSize a = Some (p, b)"
      "a' = b\<lparr>ar_alloc_ptr := p + n, ar_bytes_remaining := arena_kBlockSize - n\<rparr>"
    using r False by (auto simp: AllocateFallback_def Let_def bind_eq_Some_conv)
  have "n \<le> 1024" using False by (simp add: arena_kBlockSize_def not_less)
  hence "unat n \<le> unat arena_kBlockSize" by (simp add: arena_kBlockSize_def word_le_nat_alt)
  thus ?thesis
    using arena_ok_carve [OF arena_ok_block(2) [OF ok b(1)] n, of 0] AllocateNewBlock_result(1) [OF b(1)] b(2) by simp
qed

lemma Allocate_ok:
  assumes ok: "arena_ok a rs" and n: "0 < n" and r: "Allocate new n a = Some (p, a')"
  shows "arena_ok a' ((p, n) # rs)"
  using arena_ok_carve [OF ok n, of 0] AllocateFallback_ok [OF ok n] r
  by (auto simp: Allocate_def word_le_nat_alt split: if_splits)

text \<open>The padding, as long as its sum with the request does not wrap around.\<close>

definition slop :: "u64 \<Rightarrow> u64" where
  "slop p = (if p AND 7 = 0 then 0 else 8 - (p AND 7))"

lemma low_bits: "unat (p AND 7 :: u64) = unat p mod 8"
proof -
  have "p AND 7 = take_bit 3 p" by (simp add: take_bit_eq_mask mask_eq_exp_minus_1)
  thus ?thesis by (simp add: take_bit_eq_mod unat_mod)
qed

lemma unat_slop: "unat (slop p) = (if unat p mod 8 = 0 then 0 else 8 - unat p mod 8)"
proof -
  have "p AND 7 = 0 \<longleftrightarrow> unat p mod 8 = 0" using low_bits [of p] by (metis unat_eq_zero)
  moreover have "p AND 7 \<le> 8" unfolding word_le_nat_alt low_bits by (simp add: less_imp_le)
  ultimately show ?thesis by (simp add: slop_def unat_sub low_bits)
qed

lemma align_slop: "((p::nat) + (if p mod 8 = 0 then 0 else 8 - p mod 8)) mod 8 = 0"
  by presburger

lemma AllocateAligned_ok:
  assumes ok: "arena_ok a rs" and n: "0 < n" "unat n + 7 < 2 ^ 64" and r: "AllocateAligned new n a = Some (p, a')"
  shows "arena_ok a' ((p, n) # rs) \<and> unat p mod 8 = 0"
proof -
  let ?s = "slop (ar_alloc_ptr a)"
  have step: "AllocateAligned new n a =
     (if n + ?s \<le> ar_bytes_remaining a
      then Some (ar_alloc_ptr a + ?s, a\<lparr>ar_alloc_ptr := ar_alloc_ptr a + (n + ?s), ar_bytes_remaining := ar_bytes_remaining a - (n + ?s)\<rparr>)
      else AllocateFallback new n a)"
    by (simp add: AllocateAligned_def Let_def slop_def)
  show ?thesis
  proof (cases "n + ?s \<le> ar_bytes_remaining a")
    case True
    have "unat ?s \<le> 7" by (simp add: unat_slop) presburger
    hence "unat (n + ?s) = unat n + unat ?s" using n(2) by (subst unat_add_lem [THEN iffD1]) auto
    hence fit: "unat ?s + unat n \<le> unat (ar_bytes_remaining a)" using True by (simp add: word_le_nat_alt)
    moreover have "unat (ar_alloc_ptr a) + unat (ar_bytes_remaining a) < 2 ^ 64" using ok by (simp add: arena_ok_def regions_ok_def)
    ultimately have "unat (ar_alloc_ptr a + ?s) = unat (ar_alloc_ptr a) + unat ?s"
      by (subst unat_add_lem [THEN iffD1]) auto
    hence "unat (ar_alloc_ptr a + ?s) mod 8 = 0" using align_slop [of "unat (ar_alloc_ptr a)"] by (simp add: unat_slop)
    thus ?thesis using arena_ok_carve [OF ok n(1) fit] r True by (auto simp: step)
  next
    case False
    thus ?thesis using AllocateFallback_ok [OF ok n(1)] r by (simp add: step)
  qed
qed

lemma arena_run_ok:
  assumes "arena_ok a rs" "\<forall>q\<in>set qs. request_ok q" "arena_run new qs a = (ps, a')"
  shows "arena_ok a' (rev (granted qs ps) @ rs) \<and> length ps = length qs \<and>
    list_all2 (\<lambda>q x. request_aligned q \<longrightarrow> (\<forall>p. x = Some p \<longrightarrow> unat p mod 8 = 0)) qs ps"
  using assms
proof (induction qs arbitrary: a rs ps a')
  case (Cons q qs)
  show ?case
  proof (cases "serve_request new q a")
    case None
    then obtain ps' where ps: "ps = None # ps'" "arena_run new qs a = (ps', a')"
      using Cons.prems(3) by (auto split: prod.splits)
    with Cons.IH [OF Cons.prems(1) _ ps(2)] Cons.prems(2) show ?thesis by simp
  next
    case (Some x)
    then obtain p b where q: "serve_request new q a = Some (p, b)" by (cases x) auto
    then obtain ps' where ps: "ps = Some p # ps'" "arena_run new qs b = (ps', a')"
      using Cons.prems(3) by (auto split: prod.splits)
    have "arena_ok b ((p, request_size q) # rs) \<and> (request_aligned q \<longrightarrow> unat p mod 8 = 0)"
      using q Cons.prems(1,2) Allocate_ok AllocateAligned_ok by (cases q) (auto simp: request_ok_def)
    with Cons.IH [of b "(p, request_size q) # rs" ps' a'] Cons.prems(2) ps show ?thesis by simp
  qed
qed simp

end

lemma arena_run_fails: "None \<in> set (fst (arena_run new qs a)) \<Longrightarrow> \<exists>n h. new n h = None"
proof (induction qs arbitrary: a)
  case (Cons q qs)
  show ?case
  proof (cases "serve_request new q a")
    case None
    thus ?thesis using Allocate_fails AllocateAligned_fails by (cases q) fastforce+
  next
    case (Some x)
    thus ?thesis using Cons.IH [of "snd x"] Cons.prems by (auto split: prod.splits)
  qed
qed simp

lemma granted_nth:
  "i < length qs \<Longrightarrow> length ps = length qs \<Longrightarrow> ps ! i = Some p \<Longrightarrow> (p, request_size (qs ! i)) \<in> set (granted qs ps)"
proof (induction qs ps arbitrary: i rule: granted.induct)
  case (1 q qs p' ps)
  thus ?case by (cases i) auto
next
  case (2 q qs ps)
  thus ?case by (cases i) auto
qed auto

lemma granted_disjoint:
  assumes "sorted_wrt (\<lambda>r s. region r \<inter> region s = {}) (granted qs ps)" "length ps = length qs" "i < j" "j < length qs"
    "ps ! i = Some p" "ps ! j = Some p'"
  shows "region (p, request_size (qs ! i)) \<inter> region (p', request_size (qs ! j)) = {}"
  using assms
proof (induction qs ps arbitrary: i j rule: granted.induct)
  case (1 q qs x ps)
  obtain j' where j: "j = Suc j'" using "1.prems"(3) by (cases j) auto
  show ?case
  proof (cases i)
    case 0
    have "(p', request_size (qs ! j')) \<in> set (granted qs ps)"
      using "1.prems" j by (intro granted_nth) auto
    thus ?thesis using "1.prems" j 0 by auto
  next
    case (Suc i')
    thus ?thesis using "1.IH" [of i' j'] "1.prems" j by simp
  qed
next
  case (2 q qs ps)
  obtain i' j' where "i = Suc i'" "j = Suc j'" using "2.prems" by (cases i; cases j) auto
  thus ?case using "2.IH" [of i' j'] "2.prems" by simp
qed auto

text \<open>An allocator of the library: every array starts after the end of all earlier ones, and there is none when the address space is used up.\<close>

definition bump_new :: "(u64 \<times> u64) list new_array" where
  "bump_new n h =
     (let p = 8 * (1 + sum_list (map (\<lambda>r. unat (fst r) + unat (snd r)) h))
      in if p + unat n < 2 ^ 64 then Some (word_of_nat p, (word_of_nat p, n) # h) else None)"

lemma bump_new_result:
  assumes "bump_new n h = Some (p, h')"
  shows "h' = (p, n) # h" "unat p = 8 * (1 + sum_list (map (\<lambda>r. unat (fst r) + unat (snd r)) h))" "unat p + unat n < 2 ^ 64"
proof -
  let ?p = "8 * (1 + sum_list (map (\<lambda>r. unat (fst r) + unat (snd r)) h))"
  have r: "p = word_of_nat ?p" "h' = (word_of_nat ?p, n) # h" "?p + unat n < 2 ^ 64"
    using assms unfolding bump_new_def Let_def by (auto split: if_splits)
  show "h' = (p, n) # h" using r by simp
  show p: "unat p = ?p" unfolding r(1) using r(3) by (simp only: unsigned_of_nat) (simp add: take_bit_nat_eq_self)
  show "unat p + unat n < 2 ^ 64" using p r(3) by simp
qed

interpretation bump: array_allocator bump_new set
proof
  fix n h p h' assume b: "bump_new n h = Some (p, h')"
  note B = bump_new_result [OF b]
  show "set h' = insert (p, n) (set h)" "unat p + unat n < 2 ^ 64" "unat p mod 8 = 0" using B by simp_all
  show "region (p, n) \<inter> region r = {}" if "r \<in> set h" for r
    using member_le_sum_list [of "unat (fst r) + unat (snd r)" "map (\<lambda>r. unat (fst r) + unat (snd r)) h"] that B(2)
    by (force simp: region_def)
qed



text \<open>Without the bound the sum of an aligned request and its padding wraps around: after one byte, a request for all but seven bytes of the
  address space is served from the current block, of which it takes nothing, and the memory of the next request of ten bytes overlaps it.\<close>

lemma arena_aligned_wrap:
  "fst (arena_run bump_new [Plain 1, Aligned (- 7), Plain 10] (Arena_new [])) = [Some 8, Some 16, Some 9] \<and>
   16 \<in> region (16, - 7) \<inter> region (9, 10)"
  by (simp add: region_def Arena_new_def Allocate_def AllocateAligned_def AllocateFallback_def AllocateNewBlock_def
      arena_kBlockSize_def bump_new_def Let_def)

text \<open>An allocator that never throws.\<close>

definition endless_new :: "u64 new_array" where
  "endless_new n h = Some (h, h + (n + 7 AND NOT 7))"

lemma no_bad_alloc_endless: "no_bad_alloc endless_new"
  by (simp add: no_bad_alloc_def endless_new_def)

section \<open>The generator runs through all numbers\<close>

definition random_M :: nat where
  "random_M = 2147483647"

lemma mersenne_31: "(product :: nat) mod 2147483648 + product div 2147483648 = product - 2147483647 * (product div 2147483648)"
  using div_mult_mod_eq [of product 2147483648] by linarith

lemma random_mult_nonzero:
  assumes "0 < s" "s < random_M"
  shows "s * 16807 mod random_M \<noteq> 0"
proof
  assume "s * 16807 mod random_M = 0"
  then have "s * 16807 * 1407677000 mod random_M = 0" by (metis mod_mult_left_eq mult_0 mod_0)
  moreover have "s * 16807 * 1407677000 mod random_M = s * (16807 * 1407677000 mod random_M) mod random_M"
    by (simp add: mod_mult_right_eq mult.assoc)
  moreover have "16807 * 1407677000 mod random_M = 1" by (simp add: random_M_def)
  ultimately show False using assms by simp
qed

lemma Random_Next_mod:
  assumes "unat seed < random_M"
  shows "unat (Random_Next seed) = unat seed * 16807 mod random_M"
proof -
  let ?p = "unat seed * 16807"
  have p: "?p < 2 ^ 46" using assms by (simp add: random_M_def)
  have prod: "unat (ucast seed * (16807 :: u64)) = ?p"
    using p by (simp add: unat_word_ariths)
  have mask: "ucast (2147483647 :: u32) = (mask 31 :: u64)" by (simp add: mask_eq_exp_minus_1)
  let ?q = "?p div 2 ^ 31 + ?p mod 2 ^ 31"
  define w where "w = (ucast (drop_bit 31 (ucast seed * (16807 :: u64)) + (ucast seed * (16807 :: u64) AND ucast (2147483647 :: u32))) :: u32)"
  have step: "Random_Next seed = (if w > 2147483647 then w - 2147483647 else w)"
    unfolding Random_Next_def Let_def w_def ..
  have w: "unat w = ?q"
  proof -
    have q: "?q < 2 ^ 32" using p by (simp add: less_mult_imp_div_less)
    have "unat (drop_bit 31 (ucast seed * (16807 :: u64))) = ?p div 2 ^ 31"
      unfolding unat_drop_bit_eq prod by (rule drop_bit_eq_div)
    moreover have "unat (take_bit 31 (ucast seed * (16807 :: u64))) = ?p mod 2 ^ 31"
      unfolding unsigned_take_bit_eq prod by (rule take_bit_eq_mod)
    ultimately show ?thesis
      using q unfolding w_def mask take_bit_eq_mask [symmetric] by (simp add: unsigned_ucast_eq take_bit_eq_mod unat_word_ariths)
  qed
  have le: "?q < 2 * random_M" using p assms unfolding random_M_def by (simp add: less_mult_imp_div_less)
  have mod: "?q mod random_M = ?p mod random_M"
  proof -
    have "?p = ?q + random_M * (?p div 2 ^ 31)"
      using div_mult_mod_eq [of ?p "2 ^ 31"] by (simp add: random_M_def)
    then show ?thesis by (metis mod_mult_self2)
  qed
  have neq: "?q \<noteq> random_M"
  proof (cases "unat seed = 0")
    case False
    then show ?thesis using random_mult_nonzero [of "unat seed"] assms mod by auto
  qed (simp add: random_M_def)
  have M: "unat (2147483647 :: u32) = random_M" by (simp add: random_M_def)
  show ?thesis
  proof (cases "w > 2147483647")
    case True
    then have "unat (w - 2147483647) = ?q - random_M" "?q > random_M"
      unfolding w [symmetric] M [symmetric] by (simp_all only: word_less_nat_alt unat_sub word_le_nat_alt less_imp_le)
    then show ?thesis using True le mod by (simp only: step if_True le_mod_geq less_imp_le mod_less)
  next
    case False
    then have "?q \<le> random_M" unfolding w [symmetric] M [symmetric] by (simp only: word_less_nat_alt not_less)
    then show ?thesis using False mod neq w by (simp only: step if_False mod_less order.not_eq_order_implies_strict)
  qed
qed

text \<open>Powers by squaring on integers, to evaluate large exponents.\<close>

function random_power :: "int \<Rightarrow> int \<Rightarrow> int \<Rightarrow> int" where
  "random_power acc a n =
     (if n \<le> 0 then acc
      else random_power (if n mod 2 = 0 then acc else acc * a mod 2147483647) (a * a mod 2147483647) (n div 2))"
  by auto
termination by (relation "measure (\<lambda>(acc, a, n). nat n)") auto

declare random_power.simps [simp del]

lemma square_mod: "x * (a * a mod m) ^ k mod m = x * a ^ (2 * k) mod (m :: int)"
proof -
  have "x * (a * a mod m) ^ k mod m = x * ((a * a mod m) ^ k mod m) mod m" by (simp only: mod_mult_right_eq)
  also have "\<dots> = x * ((a * a) ^ k mod m) mod m" by (simp only: power_mod)
  finally show ?thesis by (simp only: mod_mult_right_eq power_mult power2_eq_square)
qed

lemma random_power_mod: "random_power acc a n mod 2147483647 = acc * a ^ nat n mod 2147483647"
proof (induction acc a n rule: random_power.induct)
  case (1 acc a n)
  let ?M = "2147483647 :: int"
  let ?k = "nat (n div 2)"
  note red = square_mod [of _ a ?M]
  show ?case
  proof (cases "n \<le> 0")
    case False
    obtain m where n: "n = int m" using False by (metis nonneg_int_cases le_cases)
    have halve: "n mod 2 = 0 \<Longrightarrow> 2 * ?k = nat n" "n mod 2 \<noteq> 0 \<Longrightarrow> nat n = Suc (2 * ?k)"
      unfolding n by (simp_all add: nat_div_distrib) presburger+
    let ?acc = "if n mod 2 = 0 then acc else acc * a mod ?M"
    have "random_power acc a n mod ?M = ?acc * a ^ (2 * ?k) mod ?M"
      using 1 False red [of ?acc ?k] by (simp only: random_power.simps [of acc a n] if_False not_False_eq_True)
    also have "\<dots> = acc * a ^ nat n mod ?M"
    proof (cases "n mod 2 = 0")
      case True
      from halve(1) [OF this] this show ?thesis by (simp only: if_True simp_thms)
    next
      case odd: False
      from halve(2) [OF this] this show ?thesis by (simp only: if_False mod_mult_left_eq power_Suc mult.assoc)
    qed
    finally show ?thesis .
  qed (simp add: random_power.simps)
qed

definition random_period :: nat where
  "random_period = 2147483646"

lemma random_power_1:
  "16807 ^ n mod random_M = 1 \<longleftrightarrow> random_power 1 16807 (int n) mod 2147483647 = 1"
proof -
  have "int (16807 ^ n mod random_M) = random_power 1 16807 (int n) mod 2147483647"
    by (simp add: random_power_mod random_M_def zmod_int)
  then show ?thesis by (metis of_nat_1 of_nat_eq_iff)
qed

lemma random_period_power: "16807 ^ random_period mod random_M = 1"
proof -
  have "random_power 1 16807 2147483646 mod 2147483647 = 1" by code_simp
  then show ?thesis unfolding random_power_1 random_period_def by (simp only: of_nat_numeral)
qed

lemma random_no_smaller_power:
  assumes "p \<in> {2, 3, 7, 11, 31, 151, 331}"
  shows "16807 ^ (random_period div p) mod random_M \<noteq> 1"
proof -
  have "\<forall>e\<in>set [1073741823, 715827882, 306783378, 195225786, 69273666, 14221746, 6487866].
      random_power 1 16807 e mod 2147483647 \<noteq> 1" by code_simp
  moreover have "int (random_period div p) \<in> set [1073741823, 715827882, 306783378, 195225786, 69273666, 14221746, 6487866]"
    using assms by (auto simp: random_period_def)
  ultimately show ?thesis unfolding random_power_1 by blast
qed

lemma random_factors_prime:
  fixes d :: nat
  assumes p: "p \<in> {2, 3, 7, 11, 31, 151, 331}" and d: "d dvd p"
  shows "d = 1 \<or> d = p"
proof -
  have "\<forall>p\<in>set [2, 3, 7, 11, 31, 151, 331 :: nat]. \<forall>e\<in>set [1..<19]. e dvd p \<longrightarrow> e = 1 \<or> e = p"
    by code_simp
  moreover have "p \<in> set [2, 3, 7, 11, 31, 151, 331]" "0 < p" using p by auto
  moreover have "e \<in> set [1..<19]" if "e dvd p" "e \<le> 18" for e
    using that dvd_pos_nat [of p e] \<open>0 < p\<close> by (simp add: Suc_le_eq)
  ultimately have small: "e = 1 \<or> e = p" if "e dvd p" "e \<le> 18" for e
    using that by blast
  obtain k where k: "p = d * k" using d by blast
  have "p \<le> 331" using p by auto
  then have "d \<le> 18 \<or> k \<le> 18" using k mult_le_mono [of 19 d 19 k] by linarith
  then show ?thesis using small [OF d] small [of k] k p by auto
qed

lemma random_order:
  assumes "16807 ^ k mod random_M = 1" "0 < k"
  shows "random_period dvd k"
proof (rule ccontr)
  assume ndvd: "\<not> random_period dvd k"
  define g where "g = gcd k random_period"
  have pow1: "16807 ^ (j * x) mod random_M = 1" if "16807 ^ j mod random_M = 1" for j x :: nat
    using that power_mod [of "16807 ^ j" random_M x] by (simp add: power_mult random_M_def)
  obtain x y where "k * x = random_period * y + g"
    using bezout_nat [of k random_period] assms(2) unfolding g_def by auto
  then have "16807 ^ (random_period * y) * 16807 ^ g mod random_M = 1"
    using pow1 [OF assms(1), of x] by (simp add: power_add)
  then have g1: "16807 ^ g mod random_M = 1"
    using pow1 [OF random_period_power, of y] by (metis mod_mult_left_eq mult_1)
  obtain m where m: "random_period = g * m" unfolding g_def by (meson dvdE gcd_dvd2)
  have "m \<noteq> 1" using ndvd m unfolding g_def by (metis gcd_dvd1 mult.right_neutral)
  have "\<exists>p\<in>{2, 3, 7, 11, 31, 151, 331}. \<not> coprime m p"
  proof (rule ccontr)
    assume "\<not> ?thesis"
    then have c: "coprime m 2" "coprime m 3" "coprime m 7" "coprime m 11" "coprime m 31" "coprime m 151" "coprime m 331"
      by auto
    have "random_period = 2 * (3 * (3 * (7 * (11 * (31 * (151 * 331))))))" by (simp add: random_period_def)
    then have "m dvd 2 * (3 * (3 * (7 * (11 * (31 * (151 * 331))))))" using m by (metis dvd_triv_right)
    then have "m dvd 331" by (simp only: coprime_dvd_mult_right_iff c)
    then show False using c(7) \<open>m \<noteq> 1\<close> by (simp add: coprime_absorb_left)
  qed
  then obtain p where p: "p \<in> {2, 3, 7, 11, 31, 151, 331}" and np: "gcd m p \<noteq> 1"
    unfolding coprime_iff_gcd_eq_1 by blast
  have "0 < p" using p by auto
  have "gcd m p = p" using random_factors_prime [OF p gcd_dvd2 [of m p]] np by blast
  then obtain m' where "m = p * m'" by (metis dvdE gcd_dvd1)
  then have "random_period = p * (g * m')" using m by (simp only: mult.left_commute)
  then have "random_period div p = g * m'" using nonzero_mult_div_cancel_left [of p "g * m'"] \<open>0 < p\<close>
    by (metis less_irrefl)
  then show False using random_no_smaller_power [OF p] pow1 [OF g1, of m'] by (simp only: simp_thms)
qed

lemma random_cancel:
  assumes "x * 16807 ^ i mod random_M = y * 16807 ^ i mod random_M"
  shows "x mod random_M = y mod random_M"
proof -
  have inv: "z * 16807 ^ i * 1407677000 ^ i mod random_M = z mod random_M" for z :: nat
  proof -
    have "(16807 * 1407677000) ^ i mod random_M = 1"
      using power_mod [of "16807 * 1407677000" random_M i] by (simp add: random_M_def)
    then have "z * ((16807 * 1407677000) ^ i mod random_M) mod random_M = z mod random_M" by simp
    then show ?thesis by (simp only: power_mult_distrib mod_mult_right_eq mult.assoc)
  qed
  show ?thesis using inv [of x] inv [of y] assms by (metis mod_mult_left_eq)
qed

lemma random_powers: "(\<lambda>i. 16807 ^ i mod random_M) ` {..<random_period} = {1..<random_M}"
proof -
  let ?f = "\<lambda>i. 16807 ^ i mod random_M"
  have inj: "inj_on ?f {..<random_period}"
  proof (rule linorder_inj_onI)
    fix i j assume ij: "i < j" "j \<in> {..<random_period}"
    show "?f i \<noteq> ?f j"
    proof
      assume "?f i = ?f j"
      then have "1 * 16807 ^ i mod random_M = 16807 ^ (j - i) * 16807 ^ i mod random_M"
        using ij by (simp flip: power_add)
      then have "1 mod random_M = 16807 ^ (j - i) mod random_M" by (rule random_cancel)
      then have "16807 ^ (j - i) mod random_M = 1" by (simp add: random_M_def)
      then have "random_period dvd j - i" using ij random_order by simp
      then show False using ij dvd_imp_le [of random_period "j - i"] by auto
    qed
  qed auto
  have "?f i \<noteq> 0" for i
  proof
    assume "?f i = 0"
    then have "1 * 16807 ^ i mod random_M = 0 * 16807 ^ i mod random_M" by simp
    then have "1 mod random_M = 0 mod random_M" by (rule random_cancel)
    then show False by (simp add: random_M_def)
  qed
  then have "?f ` {..<random_period} \<subseteq> {1..<random_M}" by (auto simp: random_M_def Suc_le_eq)
  moreover have "card (?f ` {..<random_period}) = card {1..<random_M}"
    using card_image [OF inj] by (simp add: random_period_def random_M_def)
  ultimately show ?thesis by (intro card_subset_eq) auto
qed

lemma random_power_ex: "v \<in> {1..<random_M} \<Longrightarrow> \<exists>i<random_period. v = 16807 ^ i mod random_M"
  unfolding random_powers [symmetric] by blast

lemma random_power_wrap: "16807 ^ (random_period + j) mod random_M = 16807 ^ j mod random_M"
  using mod_mult_left_eq [of "16807 ^ random_period" random_M "16807 ^ j"] random_period_power
  by (simp only: power_add mult_1)

lemma random_power_range: "16807 ^ k mod random_M \<in> {1..<random_M}"
proof (induction k rule: less_induct)
  case (less k)
  show ?case
  proof (cases "k < random_period")
    case True
    then show ?thesis unfolding random_powers [symmetric] by blast
  next
    case False
    then have "k = random_period + (k - random_period)" "k - random_period < k" by (simp_all add: random_period_def)
    then show ?thesis using less.IH random_power_wrap [of "k - random_period"] by metis
  qed
qed

lemma Random_Next_iterate:
  "unat seed < random_M \<Longrightarrow> unat ((Random_Next ^^ n) seed) = unat seed * 16807 ^ n mod random_M"
proof (induction n)
  case (Suc n)
  then have "unat ((Random_Next ^^ n) seed) < random_M" by (simp add: random_M_def)
  then have "unat ((Random_Next ^^ Suc n) seed) = unat seed * 16807 ^ n mod random_M * 16807 mod random_M"
    using Suc Random_Next_mod by simp
  then show ?case by (simp only: mod_mult_left_eq mult.assoc power_Suc2)
qed simp

lemma Random_new_range: "0 < unat (Random_new s) \<and> unat (Random_new s) < random_M"
proof -
  have m: "s AND 0x7fffffff = take_bit 31 s"
    by (simp add: take_bit_eq_mask mask_eq_exp_minus_1)
  have "unat (take_bit 31 s) < 2 ^ 31" unfolding unsigned_take_bit_eq by (rule take_bit_nat_less_exp)
  moreover have "take_bit 31 s \<noteq> 0 \<Longrightarrow> 0 < unat (take_bit 31 s)" by (simp add: unat_gt_0)
  moreover have "take_bit 31 s \<noteq> 2147483647 \<Longrightarrow> unat (take_bit 31 s) \<noteq> 2147483647"
    unfolding word_unat_eq_iff by simp
  ultimately show ?thesis unfolding Random_new_def m Let_def
    by (auto simp: random_M_def)
qed

text \<open>C29: the generator computes \<open>seed * 16807 mod (2^31 - 1)\<close> by its shift and mask, and whatever
  the seed given to the constructor, it cycles through every number from 1 to \<open>2^31 - 2\<close>.\<close>

theorem random_full_cycle:
  assumes "seed = Random_new s"
  shows "unat (Random_Next seed) = unat seed * 16807 mod (2 ^ 31 - 1) \<and>
    (\<lambda>n. unat ((Random_Next ^^ n) seed)) ` {..< 2 ^ 31 - 2} = {1 ..< 2 ^ 31 - 1}"
proof -
  have M: "random_M = 2 ^ 31 - 1" "random_period = 2 ^ 31 - 2" by (simp_all add: random_M_def random_period_def)
  have r: "unat seed \<in> {1..<random_M}" using Random_new_range [of s] assms by auto
  then obtain i where i: "i < random_period" "unat seed = 16807 ^ i mod random_M"
    using random_power_ex by blast
  have lt: "unat seed < random_M" using r by simp
  have it: "unat ((Random_Next ^^ n) seed) = 16807 ^ (i + n) mod random_M" for n
    using Random_Next_iterate [OF lt, of n] i(2) by (simp only: mod_mult_left_eq power_add)
  have "\<exists>n<random_period. v = unat ((Random_Next ^^ n) seed)" if v: "v \<in> {1..<random_M}" for v
  proof -
    obtain j where j: "j < random_period" "v = 16807 ^ j mod random_M"
      using random_power_ex [OF v] by blast
    show ?thesis
    proof (cases "i \<le> j")
      case True
      then have "i + (j - i) = j" "j - i < random_period" using j(1) by linarith+
      then show ?thesis using it [of "j - i"] j(2) by metis
    next
      case False
      then have "i + (random_period + j - i) = random_period + j" "random_period + j - i < random_period"
        using i(1) by linarith+
      then show ?thesis using it [of "random_period + j - i"] j(2) random_power_wrap [of j] by metis
    qed
  qed
  moreover have "unat ((Random_Next ^^ n) seed) \<in> {1..<random_M}" for n
    unfolding it by (rule random_power_range)
  ultimately have "(\<lambda>n. unat ((Random_Next ^^ n) seed)) ` {..<random_period} = {1..<random_M}" by blast
  then show ?thesis using Random_Next_mod [OF lt] by (simp only: M simp_thms)
qed

theorem random_full_cycle_witness:
  "unat (Random_Next (Random_new 0xdeadbeef)) = unat (Random_new 0xdeadbeef) * 16807 mod (2 ^ 31 - 1)"
  using random_full_cycle [OF refl, of "0xdeadbeef"] by blast

end
