(* ===== verification/Ldb_Skiplist.thy ===== *)
theory Ldb_Skiplist
  imports Ldb_Arena Ldb_Comparator "HOL-Library.Monad_Syntax" "HOL-Library.Multiset"
begin

text \<open>
  The skip list of the memtable (\<open>db/skiplist.h\<close>). The nodes live in a heap, the list of all nodes in
  the order of their allocation, and a pointer is a position in it. The arena accounts for the
  memory of the nodes; that its regions are disjoint is shown with the arena, so distinct nodes have distinct
  positions. An entry of the array \<open>next_\<close> is \<open>None\<close> until it is first written. Every operation
  returns an option: it is \<open>None\<close> if the search does not end or if the code would read an uninitialised
  entry, index past an array or dereference a null pointer. Readers that run beside a writer are not
  modelled: one operation runs at a time.
\<close>

section \<open>Nodes\<close>

type_synonym node_ptr = "nat option"

record 'k node =
  node_key :: 'k
  node_next :: "node_ptr option list"

definition node_at :: "'k node list \<Rightarrow> nat \<Rightarrow> 'k node option" where
  "node_at h x = (if x < length h then Some (h ! x) else None)"

definition Node_Next :: "'k node list \<Rightarrow> nat \<Rightarrow> nat \<Rightarrow> node_ptr option" where
  "Node_Next h x n = do {
     nd \<leftarrow> node_at h x;
     if n < length (node_next nd) then node_next nd ! n else None
   }"

definition Node_SetNext :: "'k node list \<Rightarrow> nat \<Rightarrow> nat \<Rightarrow> node_ptr \<Rightarrow> 'k node list option" where
  "Node_SetNext h x n p = do {
     nd \<leftarrow> node_at h x;
     if n < length (node_next nd) then Some (h[x := nd\<lparr>node_next := (node_next nd)[n := Some p]\<rparr>]) else None
   }"

section \<open>The list\<close>

definition kMaxHeight :: nat where
  "kMaxHeight = 12"

record ('k, 'h) skiplist =
  sl_compare :: "'k \<Rightarrow> 'k \<Rightarrow> int option"
  sl_arena :: "'h arena"
  sl_nodes :: "'k node list"
  sl_head :: nat
  sl_max_height :: nat
  sl_rnd :: u32

definition GetMaxHeight :: "('k, 'h) skiplist \<Rightarrow> nat" where
  "GetMaxHeight sl = sl_max_height sl"

text \<open>A node and an entry of \<open>next_\<close> have 8 bytes for the key pointer and 8 for each link.\<close>

definition NewNode :: "'h new_array \<Rightarrow> 'k \<Rightarrow> nat \<Rightarrow> ('k, 'h) skiplist \<Rightarrow> (nat \<times> ('k, 'h) skiplist) option" where
  "NewNode new key height sl = do {
     (_, arena) \<leftarrow> AllocateAligned new (word_of_nat (16 + 8 * (height - 1))) (sl_arena sl);
     Some (length (sl_nodes sl),
           sl\<lparr>sl_arena := arena,
              sl_nodes := sl_nodes sl @ [\<lparr>node_key = key, node_next = replicate height None\<rparr>]\<rparr>)
   }"

fun SetNexts :: "nat list \<Rightarrow> nat \<Rightarrow> 'k node list \<Rightarrow> 'k node list option" where
  "SetNexts [] x h = Some h"
| "SetNexts (i # is) x h = do { h \<leftarrow> Node_SetNext h x i None; SetNexts is x h }"

text \<open>The key \<open>0\<close> of the head is the null pointer, which no comparison sees: \<open>any_key\<close>.\<close>

definition SkipList_new ::
    "'h new_array \<Rightarrow> ('k \<Rightarrow> 'k \<Rightarrow> int option) \<Rightarrow> 'h arena \<Rightarrow> 'k \<Rightarrow> ('k, 'h) skiplist option" where
  "SkipList_new new cmp arena any_key = do {
     (x, sl) \<leftarrow> NewNode new any_key kMaxHeight
       \<lparr>sl_compare = cmp, sl_arena = arena, sl_nodes = [], sl_head = 0, sl_max_height = 1,
        sl_rnd = Random_new 0xdeadbeef\<rparr>;
     h \<leftarrow> SetNexts [0..<kMaxHeight] x (sl_nodes sl);
     Some (sl\<lparr>sl_head := x, sl_nodes := h\<rparr>)
   }"

function RandomHeight_loop :: "nat \<Rightarrow> u32 \<Rightarrow> nat \<times> u32" where
  "RandomHeight_loop height rnd =
     (if height < kMaxHeight
      then let r = Random_Next rnd
           in if r mod 4 = 0 then RandomHeight_loop (height + 1) r else (height, r)
      else (height, rnd))"
  by auto
termination by (relation "measure (\<lambda>(height, rnd). kMaxHeight - height)") auto

declare RandomHeight_loop.simps [simp del]

definition RandomHeight :: "u32 \<Rightarrow> nat \<times> u32" where
  "RandomHeight rnd = RandomHeight_loop 1 rnd"

definition Equal :: "('k, 'h) skiplist \<Rightarrow> 'k \<Rightarrow> 'k \<Rightarrow> bool option" where
  "Equal sl a b = map_option (\<lambda>r. r = 0) (sl_compare sl a b)"

definition compare_node :: "('k, 'h) skiplist \<Rightarrow> nat \<Rightarrow> 'k \<Rightarrow> int option" where
  "compare_node sl n key = do { nd \<leftarrow> node_at (sl_nodes sl) n; sl_compare sl (node_key nd) key }"

definition KeyIsAfterNode :: "('k, 'h) skiplist \<Rightarrow> 'k \<Rightarrow> node_ptr \<Rightarrow> bool option" where
  "KeyIsAfterNode sl key p =
     (case p of None \<Rightarrow> Some False | Some n \<Rightarrow> map_option (\<lambda>r. r < 0) (compare_node sl n key))"

text \<open>The array \<open>prev\<close> may be null; its entries are uninitialised at first.\<close>

partial_function (option) FindGreaterOrEqual_loop ::
    "('k, 'h) skiplist \<Rightarrow> 'k \<Rightarrow> nat \<Rightarrow> nat \<Rightarrow> nat option list option \<Rightarrow> (node_ptr \<times> nat option list option) option" where
  "FindGreaterOrEqual_loop sl key x level prev = do {
     n \<leftarrow> Node_Next (sl_nodes sl) x level;
     after \<leftarrow> KeyIsAfterNode sl key n;
     if after then FindGreaterOrEqual_loop sl key (the n) level prev
     else let prev = map_option (\<lambda>pv. pv[level := Some x]) prev
          in if level = 0 then Some (n, prev)
             else FindGreaterOrEqual_loop sl key x (level - 1) prev
   }"

definition FindGreaterOrEqual ::
    "('k, 'h) skiplist \<Rightarrow> 'k \<Rightarrow> nat option list option \<Rightarrow> (node_ptr \<times> nat option list option) option" where
  "FindGreaterOrEqual sl key prev =
     FindGreaterOrEqual_loop sl key (sl_head sl) (GetMaxHeight sl - 1) prev"

partial_function (option) FindLessThan_loop ::
    "('k, 'h) skiplist \<Rightarrow> 'k \<Rightarrow> nat \<Rightarrow> nat \<Rightarrow> nat option" where
  "FindLessThan_loop sl key x level = do {
     n \<leftarrow> Node_Next (sl_nodes sl) x level;
     stop \<leftarrow> (case n of None \<Rightarrow> Some True | Some y \<Rightarrow> map_option (\<lambda>r. r \<ge> 0) (compare_node sl y key));
     if stop then (if level = 0 then Some x else FindLessThan_loop sl key x (level - 1))
     else FindLessThan_loop sl key (the n) level
   }"

definition FindLessThan :: "('k, 'h) skiplist \<Rightarrow> 'k \<Rightarrow> nat option" where
  "FindLessThan sl key = FindLessThan_loop sl key (sl_head sl) (GetMaxHeight sl - 1)"

partial_function (option) FindLast_loop :: "('k, 'h) skiplist \<Rightarrow> nat \<Rightarrow> nat \<Rightarrow> nat option" where
  "FindLast_loop sl x level = do {
     n \<leftarrow> Node_Next (sl_nodes sl) x level;
     case n of
       None \<Rightarrow> if level = 0 then Some x else FindLast_loop sl x (level - 1)
     | Some y \<Rightarrow> FindLast_loop sl y level
   }"

definition FindLast :: "('k, 'h) skiplist \<Rightarrow> nat option" where
  "FindLast sl = FindLast_loop sl (sl_head sl) (GetMaxHeight sl - 1)"

fun Insert_links :: "nat list \<Rightarrow> nat \<Rightarrow> nat option list \<Rightarrow> 'k node list \<Rightarrow> 'k node list option" where
  "Insert_links [] x prev h = Some h"
| "Insert_links (i # is) x prev h = do {
     p \<leftarrow> (if i < length prev then prev ! i else None);
     q \<leftarrow> Node_Next h p i;
     h \<leftarrow> Node_SetNext h x i q;
     h \<leftarrow> Node_SetNext h p i (Some x);
     Insert_links is x prev h
   }"

text \<open>The assertion that the key is not in the list yet is the caller's obligation.\<close>

definition Insert :: "'h new_array \<Rightarrow> 'k \<Rightarrow> ('k, 'h) skiplist \<Rightarrow> ('k, 'h) skiplist option" where
  "Insert new key sl = do {
     (x, pv) \<leftarrow> FindGreaterOrEqual sl key (Some (replicate kMaxHeight None));
     let (height, rnd) = RandomHeight (sl_rnd sl);
         sl = sl\<lparr>sl_rnd := rnd\<rparr>;
         prev = (if height > GetMaxHeight sl
                 then fold (\<lambda>i prev. prev[i := Some (sl_head sl)]) [GetMaxHeight sl..<height] (the pv)
                 else the pv);
         sl = (if height > GetMaxHeight sl then sl\<lparr>sl_max_height := height\<rparr> else sl)
     in do {
       (x, sl) \<leftarrow> NewNode new key height sl;
       h \<leftarrow> Insert_links [0..<height] x prev (sl_nodes sl);
       Some (sl\<lparr>sl_nodes := h\<rparr>)
     }
   }"

definition Contains :: "('k, 'h) skiplist \<Rightarrow> 'k \<Rightarrow> bool option" where
  "Contains sl key = do {
     (x, _) \<leftarrow> FindGreaterOrEqual sl key None;
     case x of None \<Rightarrow> Some False
     | Some n \<Rightarrow> do { nd \<leftarrow> node_at (sl_nodes sl) n; Equal sl key (node_key nd) }
   }"

section \<open>The iterator\<close>

text \<open>An iterator is the list and the pointer \<open>node_\<close>, null when it is not valid.\<close>

definition SlIter_Valid :: "node_ptr \<Rightarrow> bool" where
  "SlIter_Valid n \<longleftrightarrow> n \<noteq> None"

definition SlIter_key :: "('k, 'h) skiplist \<Rightarrow> node_ptr \<Rightarrow> 'k option" where
  "SlIter_key sl n = do { x \<leftarrow> n; nd \<leftarrow> node_at (sl_nodes sl) x; Some (node_key nd) }"

definition SlIter_Next :: "('k, 'h) skiplist \<Rightarrow> node_ptr \<Rightarrow> node_ptr option" where
  "SlIter_Next sl n = do { x \<leftarrow> n; Node_Next (sl_nodes sl) x 0 }"

definition SlIter_Prev :: "('k, 'h) skiplist \<Rightarrow> node_ptr \<Rightarrow> node_ptr option" where
  "SlIter_Prev sl n = do {
     k \<leftarrow> SlIter_key sl n;
     x \<leftarrow> FindLessThan sl k;
     Some (if x = sl_head sl then None else Some x)
   }"

definition SlIter_Seek :: "('k, 'h) skiplist \<Rightarrow> 'k \<Rightarrow> node_ptr option" where
  "SlIter_Seek sl target = map_option fst (FindGreaterOrEqual sl target None)"

definition SlIter_SeekToFirst :: "('k, 'h) skiplist \<Rightarrow> node_ptr option" where
  "SlIter_SeekToFirst sl = Node_Next (sl_nodes sl) (sl_head sl) 0"

definition SlIter_SeekToLast :: "('k, 'h) skiplist \<Rightarrow> node_ptr option" where
  "SlIter_SeekToLast sl = do {
     x \<leftarrow> FindLast sl;
     Some (if x = sl_head sl then None else Some x)
   }"

section \<open>Using the list\<close>

text \<open>Insertions one after the other, and a walk of the iterator to the end that collects the keys.\<close>

fun Inserts :: "'h new_array \<Rightarrow> 'k list \<Rightarrow> ('k, 'h) skiplist \<Rightarrow> ('k, 'h) skiplist option" where
  "Inserts new [] sl = Some sl"
| "Inserts new (k # ks) sl = do { sl \<leftarrow> Insert new k sl; Inserts new ks sl }"

partial_function (option) SlIter_collect :: "('k, 'h) skiplist \<Rightarrow> node_ptr \<Rightarrow> 'k list option" where
  "SlIter_collect sl n =
     (if SlIter_Valid n
      then do { k \<leftarrow> SlIter_key sl n; n \<leftarrow> SlIter_Next sl n; ks \<leftarrow> SlIter_collect sl n; Some (k # ks) }
      else Some [])"

section \<open>Chains of nodes\<close>

abbreviation node_height :: "'k node list \<Rightarrow> nat \<Rightarrow> nat" where
  "node_height h x \<equiv> length (node_next (h ! x))"

abbreviation key_at :: "'k node list \<Rightarrow> nat \<Rightarrow> 'k" where
  "key_at h x \<equiv> node_key (h ! x)"

text \<open>Following the links of one level from a node visits the given nodes and ends in a null pointer.\<close>

fun linked :: "'k node list \<Rightarrow> nat \<Rightarrow> nat \<Rightarrow> nat list \<Rightarrow> bool" where
  "linked h l x [] \<longleftrightarrow> Node_Next h x l = Some None"
| "linked h l x (y # ys) \<longleftrightarrow> Node_Next h x l = Some (Some y) \<and> linked h l y ys"

definition level_nodes :: "'k node list \<Rightarrow> nat \<Rightarrow> nat list \<Rightarrow> nat list" where
  "level_nodes h l ns = filter (\<lambda>n. l < node_height h n) ns"

lemma level_nodes_simps [simp]:
  "level_nodes h l [] = []"
  "level_nodes h l (n # ns) = (if l < node_height h n then n # level_nodes h l ns else level_nodes h l ns)"
  "level_nodes h l (ns @ ms) = level_nodes h l ns @ level_nodes h l ms"
  by (simp_all add: level_nodes_def)

lemma linked_append: "linked h l x (ys @ zs) \<Longrightarrow> linked h l (last (x # ys)) zs"
  by (induction ys arbitrary: x) auto

lemma linked_next: "linked h l x ys \<Longrightarrow> Node_Next h x l = Some (case ys of [] \<Rightarrow> None | y # _ \<Rightarrow> Some y)"
  by (cases ys) auto

lemma linked_cong:
  "(\<And>y. y \<in> set (x # ys) \<Longrightarrow> Node_Next h' y l = Node_Next h y l) \<Longrightarrow> linked h' l x ys = linked h l x ys"
  by (induction ys arbitrary: x) auto

lemma Node_Next_bounds: "Node_Next h x l = Some p \<Longrightarrow> x < length h \<and> l < node_height h x"
  by (auto simp: Node_Next_def node_at_def split: if_splits Option.bind_splits)

lemma linked_bounds: "linked h l x ys \<Longrightarrow> y \<in> set (x # ys) \<Longrightarrow> y < length h \<and> l < node_height h y"
  by (induction ys arbitrary: x) (auto dest: Node_Next_bounds)

lemma sorted_wrt_distinct: "sorted_wrt P xs \<Longrightarrow> (\<And>x. x \<in> set xs \<Longrightarrow> \<not> P x x) \<Longrightarrow> distinct xs"
  by (induction xs) auto

subsection \<open>Writing links\<close>

lemma Node_SetNext_result:
  assumes "x < length h" "l < node_height h x"
  shows "\<exists>h'. Node_SetNext h x l p = Some h' \<and> length h' = length h \<and>
    (\<forall>y. node_height h' y = node_height h y \<and> key_at h' y = key_at h y) \<and>
    (\<forall>y k. Node_Next h' y k = (if y = x \<and> k = l then Some p else Node_Next h y k))"
  using assms by (auto simp: Node_SetNext_def Node_Next_def node_at_def nth_list_update)

lemma Node_Next_append:
  "x < length h \<Longrightarrow> Node_Next (h @ hs) x l = Node_Next h x l"
  by (simp add: Node_Next_def node_at_def nth_append)

lemma linked_insert:
  assumes "linked h l s (A @ B)" "distinct (s # A)" "x \<notin> set (s # A @ B)"
    "Node_Next h' x l = Node_Next h (last (s # A)) l" "Node_Next h' (last (s # A)) l = Some (Some x)"
    "\<And>y. y \<noteq> x \<Longrightarrow> y \<noteq> last (s # A) \<Longrightarrow> Node_Next h' y l = Node_Next h y l"
    "distinct (s # A @ B)"
  shows "linked h' l s (A @ x # B)"
  using assms
proof (induction A arbitrary: s)
  case Nil
  have "linked h' l x B = linked h l s B"
  proof (cases B)
    case (Cons b B')
    have "Node_Next h' y l = Node_Next h y l" if "y \<in> set (b # B')" for y
      using Nil.prems(3,7) Cons that by (intro Nil.prems(6)) auto
    then have "linked h' l b B' = linked h l b B'" by (rule linked_cong)
    then show ?thesis using Nil.prems Cons by simp
  qed (use Nil.prems in simp)
  then show ?case using Nil.prems by simp
next
  case (Cons a A)
  have "last (s # a # A) = last (a # A)" by simp
  moreover have "s \<noteq> last (a # A)" using Cons.prems(2) by (metis distinct.simps(2) last_in_set list.distinct(1))
  ultimately have "linked h' l a (A @ x # B)" using Cons.prems by (intro Cons.IH) auto
  then show ?case using Cons.prems \<open>s \<noteq> last (a # A)\<close> by simp
qed

lemma RandomHeight_loop_bounds:
  "1 \<le> height \<Longrightarrow> height \<le> kMaxHeight \<Longrightarrow>
   1 \<le> fst (RandomHeight_loop height rnd) \<and> fst (RandomHeight_loop height rnd) \<le> kMaxHeight"
proof (induction height rnd rule: RandomHeight_loop.induct)
  case (1 height rnd)
  then show ?case by (simp add: RandomHeight_loop.simps [of height rnd] Let_def)
qed

lemma RandomHeight_bounds: "1 \<le> fst (RandomHeight rnd) \<and> fst (RandomHeight rnd) \<le> kMaxHeight"
  unfolding RandomHeight_def by (rule RandomHeight_loop_bounds) (simp_all add: kMaxHeight_def)

lemma fold_update_nth:
  "i < length pv \<Longrightarrow> fold (\<lambda>i pv. pv[i := v]) is pv ! i = (if i \<in> set is then v else pv ! i)"
  "length (fold (\<lambda>i pv. pv[i := v]) is pv) = length pv"
  by (induction "is" arbitrary: pv) (auto simp: nth_list_update)

lemma SetNexts_result:
  assumes "x < length h" "\<And>i. i \<in> set is \<Longrightarrow> i < node_height h x"
  shows "\<exists>h'. SetNexts is x h = Some h' \<and> length h' = length h \<and>
    (\<forall>y. node_height h' y = node_height h y \<and> key_at h' y = key_at h y) \<and>
    (\<forall>i. Node_Next h' x i = (if i \<in> set is then Some None else Node_Next h x i))"
  using assms
proof (induction "is" arbitrary: h)
  case (Cons i "is")
  obtain h1 where h1: "Node_SetNext h x i None = Some h1" "length h1 = length h"
      "\<And>y. node_height h1 y = node_height h y \<and> key_at h1 y = key_at h y"
      "\<And>y k. Node_Next h1 y k = (if y = x \<and> k = i then Some None else Node_Next h y k)"
    using Node_SetNext_result [of x h i None] Cons.prems by auto
  then show ?case using Cons.IH [of h1] Cons.prems by fastforce
qed simp

section \<open>The representation\<close>

text \<open>The list represents the nodes \<open>ns\<close>: every level links the nodes that reach it, in order, from the head,
  and the keys increase strictly.\<close>

locale skiplist_order = key_order cmp valid
  for cmp :: "'k \<Rightarrow> 'k \<Rightarrow> int" and valid :: "'k \<Rightarrow> bool" +
  fixes compare :: "'k \<Rightarrow> 'k \<Rightarrow> int option"
  assumes compare_defined: "valid a \<Longrightarrow> valid b \<Longrightarrow> compare a b = Some (cmp a b)"
begin

definition rep :: "('k, 'h) skiplist \<Rightarrow> nat list \<Rightarrow> bool" where
  "rep sl ns \<longleftrightarrow>
     sl_compare sl = compare \<and> sl_head sl = 0 \<and> 0 < length (sl_nodes sl) \<and>
     node_height (sl_nodes sl) 0 = kMaxHeight \<and>
     1 \<le> sl_max_height sl \<and> sl_max_height sl \<le> kMaxHeight \<and>
     (\<forall>n\<in>set ns. n \<noteq> 0 \<and> n < length (sl_nodes sl) \<and> valid (key_at (sl_nodes sl) n) \<and>
        1 \<le> node_height (sl_nodes sl) n \<and> node_height (sl_nodes sl) n \<le> sl_max_height sl) \<and>
     sorted_wrt (\<lambda>a b. cmp (key_at (sl_nodes sl) a) (key_at (sl_nodes sl) b) < 0) ns \<and>
     (\<forall>l < kMaxHeight. linked (sl_nodes sl) l 0 (level_nodes (sl_nodes sl) l ns))"

lemma repD:
  assumes "rep sl ns"
  shows "sl_compare sl = compare" "sl_head sl = 0"
    "l < kMaxHeight \<Longrightarrow> linked (sl_nodes sl) l 0 (level_nodes (sl_nodes sl) l ns)"
    "n \<in> set ns \<Longrightarrow> n \<noteq> 0 \<and> n < length (sl_nodes sl) \<and> valid (key_at (sl_nodes sl) n)"
    "sorted_wrt (\<lambda>a b. cmp (key_at (sl_nodes sl) a) (key_at (sl_nodes sl) b) < 0) ns"
  using assms by (simp_all add: rep_def)

lemma rep_distinct:
  assumes "rep sl ns"
  shows "distinct (0 # ns)"
proof -
  have "distinct ns" using assms cmp_self unfolding rep_def by (intro sorted_wrt_distinct) auto
  then show ?thesis using assms by (auto simp: rep_def)
qed

text \<open>One step of a search that has reached the last node of \<open>A1\<close>: the link at this level leads to the next
  node of \<open>A2\<close>, or past \<open>A2\<close> when none of its nodes reaches the level.\<close>

lemma walk_step:
  assumes r: "rep sl ns" and ns: "ns = A1 @ A2 @ B" and l: "l < node_height (sl_nodes sl) (last (0 # A1))"
    and lm: "l < kMaxHeight"
  shows "(level_nodes (sl_nodes sl) l A2 = [] \<and>
      Node_Next (sl_nodes sl) (last (0 # A1)) l =
        Some (case level_nodes (sl_nodes sl) l B of [] \<Rightarrow> None | y # _ \<Rightarrow> Some y) \<and>
      last (0 # A1) = last (0 # level_nodes (sl_nodes sl) l (A1 @ A2))) \<or>
    (\<exists>C y A2'. A2 = C @ y # A2' \<and> Node_Next (sl_nodes sl) (last (0 # A1)) l = Some (Some y) \<and>
      l < node_height (sl_nodes sl) y)"
proof -
  let ?h = "sl_nodes sl"
  have "linked ?h l 0 (level_nodes ?h l ns)" using r lm by (simp add: rep_def)
  then have "linked ?h l (last (0 # level_nodes ?h l A1)) (level_nodes ?h l (A2 @ B))"
    using ns by (simp only: level_nodes_simps) (rule linked_append)
  moreover have last: "last (0 # level_nodes ?h l A1) = last (0 # A1)"
    using l by (cases A1 rule: rev_cases) simp_all
  ultimately have link: "linked ?h l (last (0 # A1)) (level_nodes ?h l (A2 @ B))" by simp
  show ?thesis
  proof (cases "level_nodes ?h l A2")
    case Nil
    then show ?thesis using linked_next [OF link] last by (simp del: last.simps)
  next
    case (Cons y ys)
    then have "Node_Next ?h (last (0 # A1)) l = Some (Some y)" using linked_next [OF link] by simp
    moreover obtain C A2' where "A2 = C @ y # A2'" "l < node_height ?h y"
      using Cons unfolding level_nodes_def by (auto simp: filter_eq_Cons_iff)
    ultimately show ?thesis by blast
  qed
qed
subsection \<open>Searches\<close>

definition nodes_before :: "('k, 'h) skiplist \<Rightarrow> 'k \<Rightarrow> nat list \<Rightarrow> nat list" where
  "nodes_before sl key ns = takeWhile (\<lambda>n. cmp (key_at (sl_nodes sl) n) key < 0) ns"

definition nodes_from :: "('k, 'h) skiplist \<Rightarrow> 'k \<Rightarrow> nat list \<Rightarrow> nat list" where
  "nodes_from sl key ns = dropWhile (\<lambda>n. cmp (key_at (sl_nodes sl) n) key < 0) ns"

lemma nodes_split: "nodes_before sl key ns @ nodes_from sl key ns = ns"
  by (simp add: nodes_before_def nodes_from_def)

lemma nodes_before_less: "n \<in> set (nodes_before sl key ns) \<Longrightarrow> cmp (key_at (sl_nodes sl) n) key < 0"
  unfolding nodes_before_def by (auto dest: set_takeWhileD)

lemma nodes_from_ge:
  assumes r: "rep sl ns" and k: "valid key" and n: "n \<in> set (nodes_from sl key ns)"
  shows "cmp (key_at (sl_nodes sl) n) key \<ge> 0"
proof -
  let ?k = "key_at (sl_nodes sl)"
  obtain b bs where b: "nodes_from sl key ns = b # bs" using n by (cases "nodes_from sl key ns") auto
  then have ge: "cmp (?k b) key \<ge> 0" unfolding nodes_from_def by (auto simp: dropWhile_eq_Cons_conv)
  have sub: "set (b # bs) \<subseteq> set ns" using b unfolding nodes_from_def by (metis set_dropWhileD subsetI)
  then have v: "valid (?k b)" "valid (?k n)" using r n b unfolding rep_def by auto
  have "sorted_wrt (\<lambda>a b. cmp (?k a) (?k b) < 0) (nodes_before sl key ns @ nodes_from sl key ns)"
    unfolding nodes_split using r by (simp add: rep_def)
  then have "n = b \<or> cmp (?k b) (?k n) < 0" using n b by (auto simp: sorted_wrt_append)
  then show ?thesis using ge v k cmp_less_trans [of "?k b" "?k n" key] by fastforce
qed

lemma compare_node_defined:
  assumes "rep sl ns" "valid key" "n \<in> set ns"
  shows "compare_node sl n key = Some (cmp (key_at (sl_nodes sl) n) key)"
  using assms compare_defined by (simp add: rep_def compare_node_def node_at_def)

lemma nodes_next_from:
  assumes "rep sl ns" "valid key"
    "(case level_nodes (sl_nodes sl) l (nodes_from sl key ns) of [] \<Rightarrow> None | y # _ \<Rightarrow> Some y) = Some y"
  shows "y \<in> set ns \<and> cmp (key_at (sl_nodes sl) y) key \<ge> 0"
proof -
  have "y \<in> set (level_nodes (sl_nodes sl) l (nodes_from sl key ns))" using assms(3) by (auto split: list.splits)
  then have "y \<in> set (nodes_from sl key ns)" by (simp add: level_nodes_def)
  then show ?thesis using nodes_from_ge [OF assms(1,2)] nodes_split [of sl key ns] by (metis Un_iff set_append)
qed

lemma level_nodes_0:
  assumes "rep sl ns" "set ms \<subseteq> set ns"
  shows "level_nodes (sl_nodes sl) 0 ms = ms"
  using assms unfolding level_nodes_def rep_def by (intro filter_True) (auto simp: Suc_le_eq)

text \<open>The array \<open>prev\<close> is filled with the last node before the key at every level.\<close>

definition fill_prev :: "('k, 'h) skiplist \<Rightarrow> nat list \<Rightarrow> nat \<Rightarrow> nat option list \<Rightarrow> nat option list" where
  "fill_prev sl A level pv =
     map (\<lambda>l. if l \<le> level then Some (last (0 # level_nodes (sl_nodes sl) l A)) else pv ! l) [0..<length pv]"

lemma fill_prev_nth:
  "length (fill_prev sl A level pv) = length pv"
  "l < length pv \<Longrightarrow> fill_prev sl A level pv ! l =
    (if l \<le> level then Some (last (0 # level_nodes (sl_nodes sl) l A)) else pv ! l)"
  by (simp_all add: fill_prev_def)

lemma fill_prev_step:
  assumes l: "level < length pv" and x: "x = last (0 # level_nodes (sl_nodes sl) level A)"
  shows "level = 0 \<Longrightarrow> pv[level := Some x] = fill_prev sl A level pv"
    and "0 < level \<Longrightarrow> fill_prev sl A (level - 1) (pv[level := Some x]) = fill_prev sl A level pv"
proof -
  show "pv[level := Some x] = fill_prev sl A level pv" if "level = 0"
  proof (rule nth_equalityI)
    fix i assume "i < length (pv[level := Some x])"
    then show "pv[level := Some x] ! i = fill_prev sl A level pv ! i"
      using that l x by (cases "i = level") (simp_all add: fill_prev_nth del: last.simps)
  qed (simp add: fill_prev_nth)
  show "fill_prev sl A (level - 1) (pv[level := Some x]) = fill_prev sl A level pv" if "0 < level"
  proof (rule nth_equalityI)
    fix i assume "i < length (fill_prev sl A (level - 1) (pv[level := Some x]))"
    then have i: "i < length pv" by (simp add: fill_prev_nth)
    consider "i < level" | "i = level" | "level < i" by linarith
    then show "fill_prev sl A (level - 1) (pv[level := Some x]) ! i = fill_prev sl A level pv ! i"
      using i that x by cases (auto simp add: fill_prev_nth simp del: last.simps)
  qed (simp add: fill_prev_nth)
qed

lemma FindGreaterOrEqual_loop_correct:
  assumes r: "rep sl ns" and k: "valid key"
    and split: "ns = A1 @ A2 @ nodes_from sl key ns"
    and x: "x = last (0 # A1)" and l: "level < node_height (sl_nodes sl) x" "level < kMaxHeight"
    and pv: "\<And>p. pv = Some p \<Longrightarrow> length p = kMaxHeight"
  shows "FindGreaterOrEqual_loop sl key x level pv =
    Some (case nodes_from sl key ns of [] \<Rightarrow> None | y # _ \<Rightarrow> Some y,
          map_option (fill_prev sl (nodes_before sl key ns) level) pv)"
  using split x l pv
proof (induction "level + length A2" arbitrary: A1 A2 x level pv rule: less_induct)
  case less
  let ?h = "sl_nodes sl"
  let ?B = "nodes_from sl key ns"
  have A: "A1 @ A2 = nodes_before sl key ns"
    using less.prems(1) nodes_split [of sl key ns] by (metis append.assoc append_same_eq)
  note step = walk_step [OF r less.prems(1) less.prems(3) [unfolded less.prems(2)] less.prems(4)]
  show ?case
  proof (cases "level_nodes ?h level A2 = []")
    case True
    let ?n = "case level_nodes ?h level ?B of [] \<Rightarrow> None | y # _ \<Rightarrow> Some y"
    have nx: "Node_Next ?h x level = Some ?n"
      and xl: "x = last (0 # level_nodes ?h level (nodes_before sl key ns))"
      using step True A unfolding less.prems(2) by (auto simp del: last.simps)
    have "y \<in> set ns \<and> cmp (key_at ?h y) key \<ge> 0" if "?n = Some y" for y
      using that nodes_next_from [OF r k] by blast
    then have after: "KeyIsAfterNode sl key ?n = Some False"
      using compare_node_defined [OF r k] by (auto simp: KeyIsAfterNode_def split: option.splits)
    let ?pv = "map_option (\<lambda>pv. pv[level := Some x]) pv"
    show ?thesis
    proof (cases "level = 0")
      case True
      have "level_nodes ?h 0 ?B = ?B"
        using nodes_split [of sl key ns] by (intro level_nodes_0 [OF r]) (metis Un_upper2 set_append)
      moreover have "?pv = map_option (fill_prev sl (nodes_before sl key ns) level) pv"
        using fill_prev_step(1) [OF _ xl True] less.prems(4,5) by (cases pv) simp_all
      ultimately show ?thesis using True nx after
        by (subst FindGreaterOrEqual_loop.simps) simp
    next
      case False
      then have "FindGreaterOrEqual_loop sl key x (level - 1) ?pv =
          Some (case ?B of [] \<Rightarrow> None | y # _ \<Rightarrow> Some y,
            map_option (fill_prev sl (nodes_before sl key ns) (level - 1)) ?pv)"
        using less.prems by (intro less.hyps) auto
      moreover have "map_option (fill_prev sl (nodes_before sl key ns) (level - 1)) ?pv =
          map_option (fill_prev sl (nodes_before sl key ns) level) pv"
        using fill_prev_step(2) [OF _ xl] less.prems(4,5) False by (cases pv) simp_all
      ultimately show ?thesis using False nx after
        by (subst FindGreaterOrEqual_loop.simps) simp
    qed
  next
    case False
    then obtain C y A2' where y: "A2 = C @ y # A2'" "Node_Next ?h x level = Some (Some y)"
        "level < node_height ?h y"
      using step unfolding less.prems(2) by blast
    have "y \<in> set (nodes_before sl key ns)" using A y(1) by (metis in_set_conv_decomp append.assoc)
    then have "cmp (key_at ?h y) key < 0" "y \<in> set ns"
      using nodes_before_less nodes_split [of sl key ns] by (metis, metis Un_iff set_append)
    then have "KeyIsAfterNode sl key (Some y) = Some True"
      using compare_node_defined [OF r k] by (simp add: KeyIsAfterNode_def)
    moreover have "FindGreaterOrEqual_loop sl key y level pv =
        Some (case ?B of [] \<Rightarrow> None | y # _ \<Rightarrow> Some y,
          map_option (fill_prev sl (nodes_before sl key ns) level) pv)"
      using less.prems y by (intro less.hyps [of _ A2' "A1 @ C @ [y]"]) auto
    ultimately show ?thesis using y(2) by (subst FindGreaterOrEqual_loop.simps) simp
  qed
qed

lemma FindGreaterOrEqual_correct:
  assumes r: "rep sl ns" and k: "valid key" and pv: "\<And>p. pv = Some p \<Longrightarrow> length p = kMaxHeight"
  shows "FindGreaterOrEqual sl key pv =
    Some (case nodes_from sl key ns of [] \<Rightarrow> None | y # _ \<Rightarrow> Some y,
          map_option (fill_prev sl (nodes_before sl key ns) (sl_max_height sl - 1)) pv)"
  unfolding FindGreaterOrEqual_def GetMaxHeight_def
  by (rule FindGreaterOrEqual_loop_correct [OF r k, of "[]" "nodes_before sl key ns"])
    (use r pv in \<open>auto simp: rep_def nodes_split\<close>)

text \<open>The two other searches end at the last node before the key and at the last node.\<close>

lemma FindLessThan_loop_correct:
  assumes r: "rep sl ns" and k: "valid key"
    and split: "ns = A1 @ A2 @ nodes_from sl key ns"
    and x: "x = last (0 # A1)" and l: "level < node_height (sl_nodes sl) x" "level < kMaxHeight"
  shows "FindLessThan_loop sl key x level = Some (last (0 # nodes_before sl key ns))"
  using split x l
proof (induction "level + length A2" arbitrary: A1 A2 x level rule: less_induct)
  case less
  let ?h = "sl_nodes sl"
  let ?B = "nodes_from sl key ns"
  have A: "A1 @ A2 = nodes_before sl key ns"
    using less.prems(1) nodes_split [of sl key ns] by (metis append.assoc append_same_eq)
  note step = walk_step [OF r less.prems(1) less.prems(3) [unfolded less.prems(2)] less.prems(4)]
  show ?case
  proof (cases "level_nodes ?h level A2 = []")
    case True
    let ?n = "case level_nodes ?h level ?B of [] \<Rightarrow> None | y # _ \<Rightarrow> Some y"
    have nx: "Node_Next ?h x level = Some ?n"
      and xl: "x = last (0 # level_nodes ?h level (nodes_before sl key ns))"
      using step True A unfolding less.prems(2) by (auto simp del: last.simps)
    have "y \<in> set ns \<and> cmp (key_at ?h y) key \<ge> 0" if "?n = Some y" for y
      using that nodes_next_from [OF r k] by blast
    then have stop: "(case ?n of None \<Rightarrow> Some True | Some y \<Rightarrow> map_option (\<lambda>r. r \<ge> 0) (compare_node sl y key)) = Some True"
      using compare_node_defined [OF r k] by (auto split: option.splits)
    show ?thesis
    proof (cases "level = 0")
      case True
      have "level_nodes ?h 0 (nodes_before sl key ns) = nodes_before sl key ns"
        using nodes_split [of sl key ns] by (intro level_nodes_0 [OF r]) (metis Un_upper1 set_append)
      then show ?thesis using True nx stop xl
        by (subst FindLessThan_loop.simps) (simp del: last.simps)
    next
      case False
      then have "FindLessThan_loop sl key x (level - 1) = Some (last (0 # nodes_before sl key ns))"
        using less.prems by (intro less.hyps) auto
      then show ?thesis using False nx stop by (subst FindLessThan_loop.simps) simp
    qed
  next
    case False
    then obtain C y A2' where y: "A2 = C @ y # A2'" "Node_Next ?h x level = Some (Some y)"
        "level < node_height ?h y"
      using step unfolding less.prems(2) by blast
    have "y \<in> set (nodes_before sl key ns)" using A y(1) by (metis in_set_conv_decomp append.assoc)
    then have "cmp (key_at ?h y) key < 0" "y \<in> set ns"
      using nodes_before_less nodes_split [of sl key ns] by (metis, metis Un_iff set_append)
    moreover have "FindLessThan_loop sl key y level = Some (last (0 # nodes_before sl key ns))"
      using less.prems y by (intro less.hyps [of _ A2' "A1 @ C @ [y]"]) auto
    ultimately show ?thesis using y(2) compare_node_defined [OF r k]
      by (subst FindLessThan_loop.simps) simp
  qed
qed

lemma FindLessThan_correct:
  assumes "rep sl ns" "valid key"
  shows "FindLessThan sl key = Some (last (0 # nodes_before sl key ns))"
  unfolding FindLessThan_def GetMaxHeight_def
  by (rule FindLessThan_loop_correct [OF assms, of "[]" "nodes_before sl key ns"])
    (use assms in \<open>auto simp: rep_def nodes_split\<close>)

lemma FindLast_loop_correct:
  assumes r: "rep sl ns" and split: "ns = A1 @ A2"
    and x: "x = last (0 # A1)" and l: "level < node_height (sl_nodes sl) x" "level < kMaxHeight"
  shows "FindLast_loop sl x level = Some (last (0 # ns))"
  using split x l
proof (induction "level + length A2" arbitrary: A1 A2 x level rule: less_induct)
  case less
  let ?h = "sl_nodes sl"
  have "ns = A1 @ A2 @ []" using less.prems(1) by simp
  note step = walk_step [OF r this less.prems(3) [unfolded less.prems(2)] less.prems(4)]
  show ?case
  proof (cases "level_nodes ?h level A2 = []")
    case True
    then have nx: "Node_Next ?h x level = Some None" and xl: "x = last (0 # level_nodes ?h level ns)"
      using step unfolding less.prems(1,2) by (auto simp del: last.simps)
    show ?thesis
    proof (cases "level = 0")
      case True
      then show ?thesis using nx xl level_nodes_0 [OF r, of ns]
        by (subst FindLast_loop.simps) (simp del: last.simps)
    next
      case False
      then have "FindLast_loop sl x (level - 1) = Some (last (0 # ns))"
        using less.prems by (intro less.hyps) auto
      then show ?thesis using False nx by (subst FindLast_loop.simps) (simp del: last.simps)
    qed
  next
    case False
    then obtain C y A2' where y: "A2 = C @ y # A2'" "Node_Next ?h x level = Some (Some y)"
        "level < node_height ?h y"
      using step unfolding less.prems(2) by blast
    then have "FindLast_loop sl y level = Some (last (0 # ns))"
      using less.prems by (intro less.hyps [of _ A2' "A1 @ C @ [y]"]) auto
    then show ?thesis using y(2) by (subst FindLast_loop.simps) (simp del: last.simps)
  qed
qed

lemma FindLast_correct:
  assumes "rep sl ns"
  shows "FindLast sl = Some (last (0 # ns))"
  unfolding FindLast_def GetMaxHeight_def
  by (rule FindLast_loop_correct [OF assms, of "[]" ns]) (use assms in \<open>auto simp: rep_def\<close>)

subsection \<open>Insertion\<close>

lemma Insert_links_correct:
  assumes "x < length h" "x \<notin> set (0 # A @ B)" "distinct (0 # A @ B)" "node_height h x = H"
    "\<And>i. j \<le> i \<Longrightarrow> i < H \<Longrightarrow> linked h i 0 (level_nodes h i (A @ B))"
    "\<And>i. j \<le> i \<Longrightarrow> i < H \<Longrightarrow> i < length prev \<and> prev ! i = Some (last (0 # level_nodes h i A))"
    "is = [j..<H]"
  shows "\<exists>h'. Insert_links is x prev h = Some h' \<and> length h' = length h \<and>
    (\<forall>y. node_height h' y = node_height h y \<and> key_at h' y = key_at h y) \<and>
    (\<forall>i. j \<le> i \<and> i < H \<longrightarrow> linked h' i 0 (level_nodes h i A @ x # level_nodes h i B)) \<and>
    (\<forall>i y. \<not> (j \<le> i \<and> i < H) \<longrightarrow> Node_Next h' y i = Node_Next h y i)"
  using assms
proof (induction "is" arbitrary: j h)
  case (Cons i "is")
  have j: "j < H" "i = j" and is': "is = [Suc j..<H]" using Cons.prems(7) [symmetric] unfolding upt_eq_Cons_conv by auto
  let ?p = "last (0 # level_nodes h j A)"
  have link: "linked h j 0 (level_nodes h j A @ level_nodes h j B)" using Cons.prems(5) [of j] j by simp
  have pv: "j < length prev" "prev ! j = Some ?p" using Cons.prems(6) [of j] j by simp_all
  have p_in: "?p \<in> set (0 # level_nodes h j A @ level_nodes h j B)" by auto
  from linked_bounds [OF link p_in] have p: "?p < length h" "j < node_height h ?p" by simp_all
  have xp: "x \<noteq> ?p" using p_in Cons.prems(2) by (auto simp: level_nodes_def)
  obtain q where q: "Node_Next h ?p j = Some q" using linked_next [OF linked_append [OF link]] by simp
  obtain h1 where h1: "Node_SetNext h x j q = Some h1" "length h1 = length h"
      "\<And>y. node_height h1 y = node_height h y" "\<And>y. key_at h1 y = key_at h y"
      "\<And>y k. Node_Next h1 y k = (if y = x \<and> k = j then Some q else Node_Next h y k)"
    using Node_SetNext_result [of x h j q] Cons.prems(1,4) j by blast
  obtain h2 where h2: "Node_SetNext h1 ?p j (Some x) = Some h2" "length h2 = length h1"
      "\<And>y. node_height h2 y = node_height h1 y" "\<And>y. key_at h2 y = key_at h1 y"
      "\<And>y k. Node_Next h2 y k = (if y = ?p \<and> k = j then Some (Some x) else Node_Next h1 y k)"
    using Node_SetNext_result [of ?p h1 j "Some x"] p h1(2,3) by metis
  have lv: "level_nodes h2 i ms = level_nodes h i ms" for i ms by (simp add: level_nodes_def h2(3) h1(3))
  have nx2: "Node_Next h2 y k = Node_Next h y k" if "k \<noteq> j" for y k using that h1(5) h2(5) by simp
  have linked2: "linked h2 k 0 ms = linked h k 0 ms" if "k \<noteq> j" for k ms
    by (rule linked_cong) (simp add: nx2 [OF that])
  have "\<exists>h'. Insert_links is x prev h2 = Some h' \<and> length h' = length h2 \<and>
    (\<forall>y. node_height h' y = node_height h2 y \<and> key_at h' y = key_at h2 y) \<and>
    (\<forall>i. Suc j \<le> i \<and> i < H \<longrightarrow> linked h' i 0 (level_nodes h2 i A @ x # level_nodes h2 i B)) \<and>
    (\<forall>i y. \<not> (Suc j \<le> i \<and> i < H) \<longrightarrow> Node_Next h' y i = Node_Next h2 y i)"
    using Cons.prems(1-6) is' h1(2,3) h2(2,3)
    by (intro Cons.IH) (simp_all add: lv linked2 del: last.simps level_nodes_simps distinct.simps)
  then obtain h' where h': "Insert_links is x prev h2 = Some h'" "length h' = length h2"
      "\<And>y. node_height h' y = node_height h2 y" "\<And>y. key_at h' y = key_at h2 y"
      "\<And>i. Suc j \<le> i \<Longrightarrow> i < H \<Longrightarrow> linked h' i 0 (level_nodes h i A @ x # level_nodes h i B)"
      "\<And>i y. \<not> (Suc j \<le> i \<and> i < H) \<Longrightarrow> Node_Next h' y i = Node_Next h2 y i"
    unfolding lv by blast
  have "linked h2 j 0 (level_nodes h j A @ x # level_nodes h j B)"
  proof (rule linked_insert [OF link])
    have "set (level_nodes h j ms) \<subseteq> set ms" "distinct ms \<Longrightarrow> distinct (level_nodes h j ms)" for ms
      by (auto simp: level_nodes_def)
    from this(1) [of A] this(1) [of B] this(2) [of A] this(2) [of B] Cons.prems(2,3)
    show "distinct (0 # level_nodes h j A)" "x \<notin> set (0 # level_nodes h j A @ level_nodes h j B)"
      "distinct (0 # level_nodes h j A @ level_nodes h j B)" by auto
  qed (use xp q h1(5) h2(5) in \<open>auto simp del: last.simps\<close>)
  then have new: "linked h' j 0 (level_nodes h j A @ x # level_nodes h j B)"
    using linked_cong [of 0 _ h' j h2] h'(6) [of j] by simp
  have run: "Insert_links (i # is) x prev h = Some h'"
    using pv q h1(1) h2(1) h'(1) j(2) by (simp del: last.simps)
  show ?case
  proof (intro exI [of _ h'] conjI allI impI run)
    show "linked h' k 0 (level_nodes h k A @ x # level_nodes h k B)" if "j \<le> k \<and> k < H" for k
      using that new h'(5) [of k] by (cases "k = j") auto
    show "Node_Next h' y k = Node_Next h y k" if "\<not> (j \<le> k \<and> k < H)" for y k
      using that nx2 h'(6) [of k] j by (cases "k = j") auto
  qed (simp_all add: h' h2 h1)
next
  case Nil
  then have "H \<le> j" by (metis upt_eq_Nil_conv nat_le_linear not_less order.strict_trans1 zero_less_iff_neq_zero)
  then show ?case by auto
qed

lemma Insert_sorted:
  assumes r: "rep sl ns" and k: "valid key" and fresh: "\<And>n. n \<in> set ns \<Longrightarrow> cmp (key_at (sl_nodes sl) n) key \<noteq> 0"
    and old: "\<And>n. n \<in> set ns \<Longrightarrow> key_at h n = key_at (sl_nodes sl) n" and new: "key_at h x = key"
  shows "sorted_wrt (\<lambda>a b. cmp (key_at h a) (key_at h b) < 0) (nodes_before sl key ns @ x # nodes_from sl key ns)"
proof -
  let ?A = "nodes_before sl key ns"
  let ?B = "nodes_from sl key ns"
  have sub: "set ?A \<subseteq> set ns" "set ?B \<subseteq> set ns" using nodes_split [of sl key ns] by (metis Un_upper1 set_append, metis Un_upper2 set_append)
  have "sorted_wrt (\<lambda>a b. cmp (key_at h a) (key_at h b) < 0) (?A @ ?B)"
    unfolding nodes_split using r by (auto simp: rep_def old intro: sorted_wrt_mono_rel [rotated])
  moreover have "cmp (key_at h a) key < 0" if "a \<in> set ?A" for a
    using that sub nodes_before_less old by (metis subset_iff)
  moreover have "cmp key (key_at h b) < 0" if "b \<in> set ?B" for b
  proof -
    have b: "b \<in> set ns" using that sub by blast
    then have "cmp (key_at (sl_nodes sl) b) key > 0"
      using nodes_from_ge [OF r k that] fresh [OF b] by linarith
    moreover have "valid (key_at (sl_nodes sl) b)" using r b by (simp add: rep_def)
    ultimately show ?thesis using cmp_swap k old [OF b] by simp
  qed
  ultimately show ?thesis using new by (auto simp: sorted_wrt_append)
qed

lemma Insert_prev:
  assumes r: "rep sl ns" and H: "H \<le> kMaxHeight" "i < H" and A: "set A \<subseteq> set ns"
    and pv: "pv = fill_prev sl A (sl_max_height sl - 1) (replicate kMaxHeight None)"
  shows "(if H > sl_max_height sl then fold (\<lambda>i prev. prev[i := Some 0]) [sl_max_height sl..<H] pv else pv) ! i
    = Some (last (0 # level_nodes (sl_nodes sl) i A))"
proof -
  have m: "1 \<le> sl_max_height sl" "sl_max_height sl \<le> kMaxHeight" using r by (simp_all add: rep_def)
  have l: "length pv = kMaxHeight" by (simp add: pv fill_prev_nth)
  show ?thesis
  proof (cases "i < sl_max_height sl")
    case True
    then have "i \<le> sl_max_height sl - 1" using m by linarith
    then have "pv ! i = Some (last (0 # level_nodes (sl_nodes sl) i A))"
      using True m unfolding pv by (subst fill_prev_nth) simp_all
    then show ?thesis using True H l by (simp add: fold_update_nth del: last.simps)
  next
    case False
    then have "level_nodes (sl_nodes sl) i A = []"
      using r A unfolding level_nodes_def rep_def by (intro filter_False) fastforce
    then show ?thesis using False H l by (simp add: fold_update_nth)
  qed
qed

lemma Insert_correct:
  assumes heap: "no_bad_alloc new" and r: "rep sl ns" and k: "valid key" and fresh: "\<And>n. n \<in> set ns \<Longrightarrow> cmp (key_at (sl_nodes sl) n) key \<noteq> 0"
  shows "\<exists>sl'. Insert new key sl = Some sl' \<and>
    rep sl' (nodes_before sl key ns @ length (sl_nodes sl) # nodes_from sl key ns) \<and>
    (\<forall>n\<in>set ns. key_at (sl_nodes sl') n = key_at (sl_nodes sl) n) \<and>
    key_at (sl_nodes sl') (length (sl_nodes sl)) = key"
proof -
  let ?h = "sl_nodes sl"
  let ?x = "length ?h"
  let ?A = "nodes_before sl key ns"
  let ?B = "nodes_from sl key ns"
  let ?m = "sl_max_height sl"
  obtain H rnd where H: "RandomHeight (sl_rnd sl) = (H, rnd)" by (cases "RandomHeight (sl_rnd sl)")
  have Hb: "1 \<le> H" "H \<le> kMaxHeight" using RandomHeight_bounds [of "sl_rnd sl"] H by simp_all
  obtain a arena where arena: "AllocateAligned new (word_of_nat (16 + 8 * (H - 1))) (sl_arena sl) = Some (a, arena)"
    using AllocateAligned_returns [OF heap] by blast
  let ?hn = "?h @ [\<lparr>node_key = key, node_next = replicate H None\<rparr>]"
  let ?pv = "fill_prev sl ?A (?m - 1) (replicate kMaxHeight None)"
  let ?prev = "if H > ?m then fold (\<lambda>i prev. prev[i := Some 0]) [?m..<H] ?pv else ?pv"
  have R: "sl_head sl = 0" "sl_compare sl = compare" "0 < ?x" "node_height ?h 0 = kMaxHeight" "1 \<le> ?m" "?m \<le> kMaxHeight"
      "\<And>n. n \<in> set ns \<Longrightarrow> n \<noteq> 0 \<and> n < ?x \<and> valid (key_at ?h n) \<and> 1 \<le> node_height ?h n \<and> node_height ?h n \<le> ?m"
      "\<And>l. l < kMaxHeight \<Longrightarrow> linked ?h l 0 (level_nodes ?h l ns)"
    using r by (simp_all add: rep_def)
  have sub: "set ?A \<subseteq> set ns" "set ?B \<subseteq> set ns" using nodes_split [of sl key ns] by (metis Un_upper1 set_append, metis Un_upper2 set_append)
  have old: "?hn ! y = ?h ! y" if "y < ?x" for y using that by (simp add: nth_append)
  have lv: "level_nodes ?hn l ms = level_nodes ?h l ms" if "set ms \<subseteq> set ns" for l ms
    unfolding level_nodes_def using that R(7) old by (intro filter_cong) auto
  have l0: "linked ?hn l 0 (level_nodes ?hn l ns)" if "l < kMaxHeight" for l
  proof -
    have "linked ?hn l 0 (level_nodes ?h l ns) = linked ?h l 0 (level_nodes ?h l ns)"
    proof (rule linked_cong)
      fix y assume "y \<in> set (0 # level_nodes ?h l ns)"
      then have "y < ?x" using R(3,7) by (auto simp: level_nodes_def)
      then show "Node_Next ?hn y l = Node_Next ?h y l" by (rule Node_Next_append)
    qed
    then show ?thesis using R(8) [OF that] lv by simp
  qed
  have "\<exists>h'. Insert_links [0..<H] ?x ?prev ?hn = Some h' \<and> length h' = length ?hn \<and>
    (\<forall>y. node_height h' y = node_height ?hn y \<and> key_at h' y = key_at ?hn y) \<and>
    (\<forall>i. 0 \<le> i \<and> i < H \<longrightarrow> linked h' i 0 (level_nodes ?hn i ?A @ ?x # level_nodes ?hn i ?B)) \<and>
    (\<forall>i y. \<not> (0 \<le> i \<and> i < H) \<longrightarrow> Node_Next h' y i = Node_Next ?hn y i)"
  proof (rule Insert_links_correct)
    show "?x \<notin> set (0 # ?A @ ?B)" unfolding nodes_split using R(3,7) by fastforce
    show "distinct (0 # ?A @ ?B)" unfolding nodes_split by (rule rep_distinct [OF r])
    show "linked ?hn i 0 (level_nodes ?hn i (?A @ ?B))" if "i < H" for i
      unfolding nodes_split using l0 that Hb by simp
    show "i < length ?prev \<and> ?prev ! i = Some (last (0 # level_nodes ?hn i ?A))" if "i < H" for i
      using Insert_prev [OF r Hb(2) that sub(1) refl] that Hb
      by (simp add: lv [OF sub(1)] fold_update_nth fill_prev_nth del: last.simps)
  qed simp_all
  then obtain h' where h': "Insert_links [0..<H] ?x ?prev ?hn = Some h'" "length h' = Suc ?x"
      "\<And>y. node_height h' y = node_height ?hn y" "\<And>y. key_at h' y = key_at ?hn y"
      "\<And>i. i < H \<Longrightarrow> linked h' i 0 (level_nodes ?h i ?A @ ?x # level_nodes ?h i ?B)"
      "\<And>i y. \<not> i < H \<Longrightarrow> Node_Next h' y i = Node_Next ?hn y i"
    unfolding lv [OF sub(1)] lv [OF sub(2)] by auto
  let ?sl = "sl\<lparr>sl_max_height := max ?m H, sl_rnd := rnd, sl_arena := arena, sl_nodes := h'\<rparr>"
  have fge: "FindGreaterOrEqual sl key (Some (replicate kMaxHeight None)) =
      Some (case ?B of [] \<Rightarrow> None | y # _ \<Rightarrow> Some y, Some ?pv)"
    using FindGreaterOrEqual_correct [OF r k, of "Some (replicate kMaxHeight None)"] by simp
  have run: "Insert new key sl = Some ?sl"
  proof (cases "H > ?m")
    case True
    then show ?thesis using h'(1) arena unfolding Insert_def fge
      by (simp add: H NewNode_def GetMaxHeight_def R(1) Let_def max_def)
  next
    case False
    then have "sl\<lparr>sl_max_height := max ?m H\<rparr> = sl" by (simp add: max_def)
    then show ?thesis using False h'(1) arena unfolding Insert_def fge
      by (simp add: H NewNode_def GetMaxHeight_def R(1) Let_def)
  qed
  have key: "key_at h' n = key_at ?h n" if "n \<in> set ns" for n using R(7) [OF that] h'(4) old by simp
  have hgt: "node_height h' n = node_height ?h n" if "n < ?x" for n using h'(3) old [OF that] by simp
  have hx: "node_height h' ?x = H" "key_at h' ?x = key" using h'(3,4) by (simp_all add: nth_append)
  have lv': "level_nodes h' l ms = level_nodes ?h l ms" if "set ms \<subseteq> set ns" for l ms
    unfolding level_nodes_def using that R(7) hgt by (intro filter_cong) auto
  have "linked h' l 0 (level_nodes h' l (?A @ ?x # ?B))" if "l < kMaxHeight" for l
  proof (cases "l < H")
    case True
    then show ?thesis using h'(5) hx lv' [OF sub(1)] lv' [OF sub(2)] by simp
  next
    case False
    have "linked h' l 0 (level_nodes ?hn l ns)"
      using l0 [OF that] linked_cong [of 0 _ h' l ?hn] h'(6) [OF False] by simp
    then show ?thesis using False hx lv' [OF sub(1)] lv' [OF sub(2)] lv [of ns] nodes_split [of sl key ns]
      by simp (metis level_nodes_simps(3))
  qed
  moreover have "sorted_wrt (\<lambda>a b. cmp (key_at h' a) (key_at h' b) < 0) (?A @ ?x # ?B)"
    by (rule Insert_sorted [OF r k fresh key hx(2)])
  moreover have "n \<noteq> 0 \<and> n < Suc ?x \<and> valid (key_at h' n) \<and> 1 \<le> node_height h' n \<and> node_height h' n \<le> max ?m H"
    if "n \<in> set (?A @ ?x # ?B)" for n
  proof (cases "n = ?x")
    case True
    then show ?thesis using hx k Hb R(3) by simp
  next
    case False
    then have n: "n \<in> set ns" using that sub by auto
    then show ?thesis using R(7) [OF n] key hgt by fastforce
  qed
  ultimately have "rep ?sl (?A @ ?x # ?B)"
    unfolding rep_def using R(1-6) Hb h'(2) hgt [OF R(3)] by simp
  then show ?thesis using run key hx by (intro exI [of _ ?sl]) simp
qed

lemma rep_new:
  assumes "SkipList_new new compare arena any_key = Some sl"
  shows "rep sl []"
proof -
  let ?h = "[\<lparr>node_key = any_key, node_next = replicate kMaxHeight None\<rparr>]"
  obtain h where h: "SetNexts [0..<kMaxHeight] 0 ?h = Some h" "length h = 1" "node_height h 0 = kMaxHeight"
      "\<And>i. i < kMaxHeight \<Longrightarrow> Node_Next h 0 i = Some None"
    using SetNexts_result [of 0 ?h "[0..<kMaxHeight]"] by auto
  have "sl_nodes sl = h \<and> sl_compare sl = compare \<and> sl_head sl = 0 \<and> sl_max_height sl = 1"
    using assms h(1) by (auto simp: SkipList_new_def NewNode_def bind_eq_Some_conv)
  then show ?thesis using h by (simp add: rep_def kMaxHeight_def)
qed

lemma SkipList_new_defined: "no_bad_alloc new \<Longrightarrow> \<exists>sl. SkipList_new new compare arena any_key = Some sl"
  using AllocateAligned_returns [of new "word_of_nat (16 + 8 * (kMaxHeight - 1))" arena] SetNexts_result [of 0 "[\<lparr>node_key = any_key, node_next = replicate kMaxHeight None\<rparr>]" "[0..<kMaxHeight]"]
  by (auto simp: SkipList_new_def NewNode_def split: prod.splits)

subsection \<open>Keys and iterators\<close>

definition keys_of :: "('k, 'h) skiplist \<Rightarrow> nat list \<Rightarrow> 'k list" where
  "keys_of sl ns = map (key_at (sl_nodes sl)) ns"

definition nth_ptr :: "nat list \<Rightarrow> nat \<Rightarrow> node_ptr" where
  "nth_ptr ns i = (if i < length ns then Some (ns ! i) else None)"

lemma Insert_keys:
  assumes heap: "no_bad_alloc new" and r: "rep sl ns" and k: "valid key" and fresh: "\<forall>k\<in>set (keys_of sl ns). cmp k key \<noteq> 0"
  obtains sl' ns' where "Insert new key sl = Some sl'" "rep sl' ns'"
    "keys_of sl' ns' = takeWhile (\<lambda>k. cmp k key < 0) (keys_of sl ns) @ key # dropWhile (\<lambda>k. cmp k key < 0) (keys_of sl ns)"
proof -
  let ?ns = "nodes_before sl key ns @ length (sl_nodes sl) # nodes_from sl key ns"
  have "\<And>n. n \<in> set ns \<Longrightarrow> cmp (key_at (sl_nodes sl) n) key \<noteq> 0" using fresh by (simp add: keys_of_def)
  from Insert_correct [OF heap r k this] obtain sl' where sl': "Insert new key sl = Some sl'"
    "rep sl' ?ns" "\<forall>n\<in>set ns. key_at (sl_nodes sl') n = key_at (sl_nodes sl) n"
    "key_at (sl_nodes sl') (length (sl_nodes sl)) = key" by auto
  have "map (key_at (sl_nodes sl')) ms = map (key_at (sl_nodes sl)) ms" if "set ms \<subseteq> set ns" for ms
    using sl'(3) that by auto
  moreover have "set (nodes_before sl key ns) \<subseteq> set ns" "set (nodes_from sl key ns) \<subseteq> set ns"
    by (auto simp: nodes_before_def nodes_from_def dest: set_takeWhileD set_dropWhileD)
  ultimately have "keys_of sl' ?ns = takeWhile (\<lambda>k. cmp k key < 0) (keys_of sl ns) @ key # dropWhile (\<lambda>k. cmp k key < 0) (keys_of sl ns)"
    using sl'(4) by (simp add: keys_of_def takeWhile_map dropWhile_map comp_def nodes_before_def nodes_from_def)
  with sl'(1,2) that show ?thesis by blast
qed

lemma iter_key:
  "rep sl ns \<Longrightarrow> i < length ns \<Longrightarrow> SlIter_key sl (nth_ptr ns i) = Some (keys_of sl ns ! i)"
  by (simp add: SlIter_key_def nth_ptr_def keys_of_def node_at_def rep_def)

lemma iter_Valid: "SlIter_Valid (nth_ptr ns i) \<longleftrightarrow> i < length ns"
  by (simp add: SlIter_Valid_def nth_ptr_def)

lemma level_0_next:
  assumes r: "rep sl ns" and i: "i \<le> length ns"
  shows "Node_Next (sl_nodes sl) (last (0 # take i ns)) 0 = Some (nth_ptr ns i)"
proof -
  have "linked (sl_nodes sl) 0 0 (take i ns @ drop i ns)"
    using repD(3) [OF r, of 0] level_nodes_0 [OF r, of ns] by (simp add: kMaxHeight_def)
  from linked_next [OF linked_append [OF this]] show ?thesis using i
    by (cases "drop i ns") (auto simp: nth_ptr_def hd_drop_conv_nth dest: arg_cong [of _ _ hd] simp del: last.simps)
qed

lemma iter_SeekToFirst: "rep sl ns \<Longrightarrow> SlIter_SeekToFirst sl = Some (nth_ptr ns 0)"
  using level_0_next [of sl ns 0] by (simp add: SlIter_SeekToFirst_def rep_def)

lemma iter_Next:
  assumes "rep sl ns" "i < length ns"
  shows "SlIter_Next sl (nth_ptr ns i) = Some (nth_ptr ns (Suc i))"
  using level_0_next [OF assms(1), of "Suc i"] assms(2)
  by (simp add: SlIter_Next_def nth_ptr_def take_Suc_conv_app_nth)

lemma iter_Seek:
  assumes r: "rep sl ns" and k: "valid key"
  shows "SlIter_Seek sl key = Some (nth_ptr ns (length (takeWhile (\<lambda>k. cmp k key < 0) (keys_of sl ns))))"
proof -
  have l: "length (takeWhile (\<lambda>k. cmp k key < 0) (keys_of sl ns)) = length (nodes_before sl key ns)"
    by (simp add: keys_of_def takeWhile_map nodes_before_def comp_def)
  have "(case nodes_from sl key ns of [] \<Rightarrow> None | y # _ \<Rightarrow> Some y) = nth_ptr ns (length (nodes_before sl key ns))"
    using nodes_split [of sl key ns]
    by (cases "nodes_from sl key ns") (auto simp: nth_ptr_def nth_append dest: arg_cong [of _ _ length] arg_cong [of _ _ "\<lambda>xs. xs ! length (nodes_before sl key ns)"])
  then show ?thesis using FindGreaterOrEqual_correct [OF r k, of None] l by (simp add: SlIter_Seek_def)
qed

lemma iter_last:
  assumes "rep sl ns" "i \<le> length ns"
  shows "(if last (0 # take i ns) = sl_head sl then None else Some (last (0 # take i ns))) =
    (if i = 0 then None else nth_ptr ns (i - 1))"
proof (cases "i = 0")
  case False
  then have "last (0 # take i ns) = ns ! (i - 1)" using assms(2) by (cases i) (auto simp: take_Suc_conv_app_nth)
  moreover have "ns ! (i - 1) \<noteq> 0" using repD(4) [OF assms(1), of "ns ! (i - 1)"] assms(2) False by simp
  ultimately show ?thesis using repD(2) [OF assms(1)] assms(2) False by (simp add: nth_ptr_def del: last.simps)
qed (use repD(2) [OF assms(1)] in simp)

lemma iter_SeekToLast:
  assumes "rep sl ns"
  shows "SlIter_SeekToLast sl = Some (if ns = [] then None else nth_ptr ns (length ns - 1))"
  using iter_last [OF assms order.refl] FindLast_correct [OF assms]
  unfolding take_all [OF order.refl] SlIter_SeekToLast_def by (simp del: last.simps)

lemma iter_Prev:
  assumes r: "rep sl ns" and i: "i < length ns"
  shows "SlIter_Prev sl (nth_ptr ns i) = Some (if i = 0 then None else nth_ptr ns (i - 1))"
proof -
  let ?k = "key_at (sl_nodes sl)"
  have sorted: "sorted_wrt (\<lambda>a b. cmp (?k a) (?k b) < 0) ns" and v: "\<And>n. n \<in> set ns \<Longrightarrow> valid (?k n)"
    using r by (simp_all add: rep_def)
  have k: "SlIter_key sl (nth_ptr ns i) = Some (?k (ns ! i))"
    using iter_key [OF r i] i by (simp add: keys_of_def)
  have "nodes_before sl (?k (ns ! i)) ns = take i ns"
    unfolding nodes_before_def
  proof (rule takeWhile_eq_take_P_nth)
    show "cmp (?k (ns ! j)) (?k (ns ! i)) < 0" if "j < i" for j
      using sorted that i by (simp add: sorted_wrt_iff_nth_less)
  qed (use i v cmp_self in auto)
  then show ?thesis using iter_last [OF r, of i] FindLessThan_correct [OF r v, of "ns ! i"] k i
    by (simp add: SlIter_Prev_def del: last.simps)
qed

lemma Contains_correct:
  assumes r: "rep sl ns" and k: "valid key"
  shows "Contains sl key = Some (\<exists>k\<in>set (keys_of sl ns). cmp k key = 0)"
proof -
  let ?k = "key_at (sl_nodes sl)"
  let ?B = "nodes_from sl key ns"
  have v: "\<And>n. n \<in> set ns \<Longrightarrow> valid (?k n) \<and> n < length (sl_nodes sl)" and c: "sl_compare sl = compare"
    using r by (simp_all add: rep_def)
  have ex: "(\<exists>k\<in>set (keys_of sl ns). cmp k key = 0) \<longleftrightarrow> (\<exists>n\<in>set ?B. cmp (?k n) key = 0)"
    using nodes_before_less [of _ sl key ns] nodes_split [of sl key ns]
    by (auto simp: keys_of_def) (metis Un_iff less_irrefl set_append, metis Un_iff set_append)
  show ?thesis
  proof (cases ?B)
    case Nil
    then show ?thesis using FindGreaterOrEqual_correct [OF r k, of None] ex by (simp add: Contains_def)
  next
    case (Cons b B)
    have ns: "set ?B \<subseteq> set ns" using nodes_split [of sl key ns] by (metis Un_upper2 set_append)
    have b: "valid (?k b)" "b < length (sl_nodes sl)" using v ns Cons by auto
    have "cmp (?k n) key \<noteq> 0" if "n \<in> set B" for n
    proof -
      have "sorted_wrt (\<lambda>a b. cmp (?k a) (?k b) < 0) (nodes_before sl key ns @ ?B)"
        unfolding nodes_split using r by (simp add: rep_def)
      then have "cmp (?k b) (?k n) < 0" using Cons that by (simp add: sorted_wrt_append)
      moreover have "cmp (?k b) key \<ge> 0" using nodes_from_ge [OF r k, of b] Cons by simp
      moreover have "valid (?k n)" using v ns Cons that by auto
      ultimately show ?thesis using cmp_less_le_trans [of "?k b" "?k n" key] b k by fastforce
    qed
    then show ?thesis using FindGreaterOrEqual_correct [OF r k, of None] ex Cons b c k compare_defined cmp_swap_eq
      by (auto simp: Contains_def Equal_def node_at_def)
  qed
qed

lemma collect_from:
  assumes r: "rep sl ns" and i: "i \<le> length ns"
  shows "SlIter_collect sl (nth_ptr ns i) = Some (drop i (keys_of sl ns))"
  using i
proof (induction "length ns - i" arbitrary: i)
  case 0
  then show ?case by (subst SlIter_collect.simps) (simp add: iter_Valid keys_of_def)
next
  case (Suc n)
  then have i: "i < length ns" and "SlIter_collect sl (nth_ptr ns (Suc i)) = Some (drop (Suc i) (keys_of sl ns))" by auto
  then show ?case
    by (subst SlIter_collect.simps)
      (simp add: iter_Valid iter_key [OF r] iter_Next [OF r] keys_of_def drop_map flip: Cons_nth_drop_Suc [of i ns])
qed

lemma collect_all:
  assumes "rep sl ns"
  shows "Option.bind (SlIter_SeekToFirst sl) (SlIter_collect sl) = Some (keys_of sl ns)"
  using collect_from [OF assms, of 0] iter_SeekToFirst [OF assms] by simp

lemma keys_sorted: "rep sl ns \<Longrightarrow> sorted_wrt (\<lambda>a b. cmp a b < 0) (keys_of sl ns)"
  using repD(5) by (simp add: keys_of_def sorted_wrt_map)

lemma Inserts_correct:
  assumes heap: "no_bad_alloc new"
    and "rep sl ns" "\<forall>k\<in>set ks. valid k" "sorted_wrt (\<lambda>a b. cmp a b \<noteq> 0) ks"
    "\<forall>k\<in>set ks. \<forall>k'\<in>set (keys_of sl ns). cmp k' k \<noteq> 0"
  shows "\<exists>sl' ns'. Inserts new ks sl = Some sl' \<and> rep sl' ns' \<and> mset (keys_of sl' ns') = mset (keys_of sl ns) + mset ks"
  using assms(2-)
proof (induction ks arbitrary: sl ns)
  case (Cons k ks)
  obtain sl' ns' where I: "Insert new k sl = Some sl'" "rep sl' ns'"
    and keys: "keys_of sl' ns' = takeWhile (\<lambda>x. cmp x k < 0) (keys_of sl ns) @ k # dropWhile (\<lambda>x. cmp x k < 0) (keys_of sl ns)"
    using Insert_keys [OF heap Cons.prems(1), of k] Cons.prems(2,4) by auto
  have m: "mset (keys_of sl' ns') = add_mset k (mset (keys_of sl ns))"
    unfolding keys by simp (metis mset_append takeWhile_dropWhile_id)
  then have "set (keys_of sl' ns') = insert k (set (keys_of sl ns))" by (metis set_mset_add_mset_insert set_mset_mset)
  then have "\<exists>sl'' ns''. Inserts new ks sl' = Some sl'' \<and> rep sl'' ns'' \<and> mset (keys_of sl'' ns'') = mset (keys_of sl' ns') + mset ks"
    using Cons.prems by (intro Cons.IH [OF I(2)]) auto
  then show ?case using I(1) m by auto
qed auto

end

text \<open>C30: the skip list is a sorted set. Keys that are pairwise different in the order are inserted into a new
  list, whatever the heights the generator draws. As long as \<open>operator new[]\<close> does not throw, every insertion returns and reads no uninitialised
  link, walking the list from its first node ends and yields exactly the inserted keys in increasing
  order, and \<open>Contains\<close> answers whether an equal key was inserted.\<close>

theorem skiplist_refines_sorted_set:
  assumes "skiplist_order cmp valid compare" "\<forall>k\<in>set ks. valid k" "sorted_wrt (\<lambda>a b. cmp a b \<noteq> 0) ks"
    "no_bad_alloc new"
  shows "\<exists>sl sl'. SkipList_new new compare arena any_key = Some sl \<and> Inserts new ks sl = Some sl' \<and>
    (\<exists>ks'. Option.bind (SlIter_SeekToFirst sl') (SlIter_collect sl') = Some ks' \<and>
       mset ks' = mset ks \<and> sorted_wrt (\<lambda>a b. cmp a b < 0) ks') \<and>
    (\<forall>k. valid k \<longrightarrow> Contains sl' k = Some (\<exists>k'\<in>set ks. cmp k' k = 0))"
proof -
  note o = assms(1)
  obtain sl where sl: "SkipList_new new compare arena any_key = Some sl"
    using skiplist_order.SkipList_new_defined [OF o assms(4)] by blast
  note r = skiplist_order.rep_new [OF o sl]
  obtain sl' ns where I: "Inserts new ks sl = Some sl'" "skiplist_order.rep cmp valid compare sl' ns"
      "mset (skiplist_order.keys_of sl' ns) = mset ks"
    using skiplist_order.Inserts_correct [OF o assms(4) r assms(2,3)] by (auto simp: skiplist_order.keys_of_def [OF o])
  then have "set (skiplist_order.keys_of sl' ns) = set ks" by (metis set_mset_mset)
  then have "\<forall>k. valid k \<longrightarrow> Contains sl' k = Some (\<exists>k'\<in>set ks. cmp k' k = 0)"
    using skiplist_order.Contains_correct [OF o I(2)] by simp
  then show ?thesis
    using sl I(1,3) skiplist_order.collect_all [OF o I(2)] skiplist_order.keys_sorted [OF o I(2)] by blast
qed

lemma int_skiplist_order: "skiplist_order (\<lambda>a b. a - b) (\<lambda>_. True) (\<lambda>a b. Some (a - b :: int))"
  by unfold_locales auto

theorem skiplist_refines_sorted_set_witness:
  "\<exists>sl sl'. SkipList_new endless_new (\<lambda>a b. Some (a - b)) (Arena_new 8) (0 :: int) = Some sl \<and>
    Inserts endless_new [3, 1, 2] sl = Some sl' \<and> Contains sl' 2 = Some True \<and> Contains sl' 7 = Some False"
  using skiplist_refines_sorted_set [OF int_skiplist_order, of "[3, 1, 2]" endless_new "Arena_new 8" 0]
    no_bad_alloc_endless by force

end
