(* ===== verification/Ldb_Memtable.thy ===== *)
theory Ldb_Memtable
  imports Ldb_Skiplist Ldb_Dbformat Ldb_Status
begin

text \<open>
  The memtable (\<open>db/memtable.h\<close>, \<open>db/memtable.cc\<close>). Its entries are byte buffers in the arena, the
  length-prefixed internal key followed by the length-prefixed value, kept in the skip list under the order
  of their internal keys. A pointer to an entry is modelled by the bytes it points to. The arena is part of
  the skip list; entries and nodes are allocated from the same arena. As for the skip list, \<open>None\<close> means
  that the call does not return or reads memory it must not read.
\<close>

section \<open>Entries\<close>

text \<open>The static \<open>GetLengthPrefixedSlice\<close> of memtable.cc: the slice and the bytes after it. At most five
  bytes are read for the length.\<close>

definition MemGetLengthPrefixedSlice :: "bytes \<Rightarrow> (bytes \<times> bytes) option" where
  "MemGetLengthPrefixedSlice data =
     (case GetVarint32Ptr (take 5 data) of
        None \<Rightarrow> None
      | Some (len, rest) \<Rightarrow>
          let p = drop (length (take 5 data) - length rest) data
          in if unat len \<le> length p then Some (take (unat len) p, drop (unat len) p) else None)"

definition MemKeyCompare :: "comparator_ops \<Rightarrow> bytes \<Rightarrow> bytes \<Rightarrow> int option" where
  "MemKeyCompare c aptr bptr = do {
     (a, _) \<leftarrow> MemGetLengthPrefixedSlice aptr;
     (b, _) \<leftarrow> MemGetLengthPrefixedSlice bptr;
     Some (InternalKeyCompare c a b)
   }"

definition EncodeKey :: "bytes \<Rightarrow> bytes" where
  "EncodeKey target = PutVarint32 [] (word_of_nat (length target)) @ target"

section \<open>The memtable\<close>

record 'h MemTable =
  mt_comparator :: comparator_ops
  mt_refs :: int
  mt_table :: "(bytes, 'h) skiplist"

definition MemTable_new :: "'h new_array \<Rightarrow> comparator_ops \<Rightarrow> 'h arena \<Rightarrow> 'h MemTable option" where
  "MemTable_new new c arena = do {
     table \<leftarrow> SkipList_new new (MemKeyCompare c) arena [];
     Some \<lparr>mt_comparator = c, mt_refs = 0, mt_table = table\<rparr>
   }"

definition MemTable_Ref :: "'h MemTable \<Rightarrow> 'h MemTable" where
  "MemTable_Ref m = m\<lparr>mt_refs := mt_refs m + 1\<rparr>"

text \<open>\<open>None\<close>: the object has been deleted.\<close>

definition MemTable_Unref :: "'h MemTable \<Rightarrow> 'h MemTable option" where
  "MemTable_Unref m = (let m = m\<lparr>mt_refs := mt_refs m - 1\<rparr> in if mt_refs m \<le> 0 then None else Some m)"

definition ApproximateMemoryUsage :: "'h MemTable \<Rightarrow> u64" where
  "ApproximateMemoryUsage m = MemoryUsage (sl_arena (mt_table m))"

definition MemTable_Add ::
    "'h new_array \<Rightarrow> SequenceNumber \<Rightarrow> ValueType \<Rightarrow> bytes \<Rightarrow> bytes \<Rightarrow> 'h MemTable \<Rightarrow> 'h MemTable option" where
  "MemTable_Add new s type key v m =
     (let key_size = length key;
          val_size = length v;
          internal_key_size = key_size + 8;
          encoded_len = VarintLength (word_of_nat internal_key_size) + internal_key_size +
                        VarintLength (word_of_nat val_size) + val_size;
          buf = EncodeVarint32 (word_of_nat internal_key_size) @ key @
                EncodeFixed64 (push_bit 8 s OR ucast (value_type_code type)) @
                EncodeVarint32 (word_of_nat val_size) @ v
      in do {
        (_, arena) \<leftarrow> Allocate new (word_of_nat encoded_len) (sl_arena (mt_table m));
        table \<leftarrow> Insert new buf ((mt_table m)\<lparr>sl_arena := arena\<rparr>);
        Some (m\<lparr>mt_table := table\<rparr>)
      })"

text \<open>\<open>Get\<close> returns whether the key was decided, the value and the status; the last two are unchanged where the
  code does not assign them. A key shorter than its tag would make \<open>key_length - 8\<close> wrap around.\<close>

definition MemTable_Get :: "'h MemTable \<Rightarrow> LookupKey \<Rightarrow> bytes \<Rightarrow> Status \<Rightarrow> (bool \<times> bytes \<times> Status) option" where
  "MemTable_Get m key val s = do {
     n \<leftarrow> SlIter_Seek (mt_table m) (lk_memtable_key key);
     if SlIter_Valid n then do {
       entry \<leftarrow> SlIter_key (mt_table m) n;
       (ikey, rest) \<leftarrow> MemGetLengthPrefixedSlice entry;
       if length ikey < 8 then None
       else if Compare (mt_comparator m) (take (length ikey - 8) ikey) (lk_user_key key) = 0
       then let tag = DecodeFixed64 (drop (length ikey - 8) ikey);
                code = ucast tag :: byte
            in if code = value_type_code kTypeValue
               then do { (v, _) \<leftarrow> MemGetLengthPrefixedSlice rest; Some (True, v, s) }
               else if code = value_type_code kTypeDeletion then Some (True, val, Status_NotFound [] [])
               else Some (False, val, s)
       else Some (False, val, s)
     } else Some (False, val, s)
   }"

section \<open>The iterator\<close>

definition MemIter_Valid :: "node_ptr \<Rightarrow> bool" where
  "MemIter_Valid n = SlIter_Valid n"

definition MemIter_Seek :: "'h MemTable \<Rightarrow> bytes \<Rightarrow> node_ptr option" where
  "MemIter_Seek m k = SlIter_Seek (mt_table m) (EncodeKey k)"

definition MemIter_SeekToFirst :: "'h MemTable \<Rightarrow> node_ptr option" where
  "MemIter_SeekToFirst m = SlIter_SeekToFirst (mt_table m)"

definition MemIter_SeekToLast :: "'h MemTable \<Rightarrow> node_ptr option" where
  "MemIter_SeekToLast m = SlIter_SeekToLast (mt_table m)"

definition MemIter_Next :: "'h MemTable \<Rightarrow> node_ptr \<Rightarrow> node_ptr option" where
  "MemIter_Next m n = SlIter_Next (mt_table m) n"

definition MemIter_Prev :: "'h MemTable \<Rightarrow> node_ptr \<Rightarrow> node_ptr option" where
  "MemIter_Prev m n = SlIter_Prev (mt_table m) n"

definition MemIter_key :: "'h MemTable \<Rightarrow> node_ptr \<Rightarrow> bytes option" where
  "MemIter_key m n = do {
     entry \<leftarrow> SlIter_key (mt_table m) n;
     (k, _) \<leftarrow> MemGetLengthPrefixedSlice entry;
     Some k
   }"

definition MemIter_value :: "'h MemTable \<Rightarrow> node_ptr \<Rightarrow> bytes option" where
  "MemIter_value m n = do {
     entry \<leftarrow> SlIter_key (mt_table m) n;
     (_, rest) \<leftarrow> MemGetLengthPrefixedSlice entry;
     (v, _) \<leftarrow> MemGetLengthPrefixedSlice rest;
     Some v
   }"

definition MemIter_status :: "node_ptr \<Rightarrow> Status" where
  "MemIter_status n = Status_OK"

section \<open>Entries and their order\<close>

lemma MemGetLengthPrefixedSlice_enc [codec_simps]:
  assumes "length s < 2 ^ 32"
  shows "MemGetLengthPrefixedSlice (EncodeLengthPrefixed s @ rest) = Some (s, rest)"
proof -
  let ?v = "EncodeVarint32 (word_of_nat (length s))"
  have l: "length ?v \<le> 5"
    using length_EncodeVarint64_bound [of "ucast (word_of_nat (length s) :: u32)" 5]
      unsigned_less [of "word_of_nat (length s) :: u32", where 'a = nat]
    by (simp add: EncodeVarint32_eq_EncodeVarint64_aux)
  have t: "take 5 (?v @ s @ rest) = ?v @ take (5 - length ?v) (s @ rest)" using l by simp
  have "length (take 5 (?v @ s @ rest)) - length (take (5 - length ?v) (s @ rest)) = length ?v" unfolding t by simp
  moreover have "take (length s) (s @ rest) = s" by simp
  ultimately show ?thesis using assms t
    by (simp add: MemGetLengthPrefixedSlice_def EncodeLengthPrefixed_def codec_simps
        del: take_append)
qed

text \<open>An entry of the memtable.\<close>

type_synonym mem_entry = "SequenceNumber \<times> ValueType \<times> bytes \<times> bytes"

definition mem_entry :: "mem_entry \<Rightarrow> bytes" where
  "mem_entry e = (case e of (s, t, u, v) \<Rightarrow>
     EncodeLengthPrefixed (InternalKey_new u s t) @ EncodeLengthPrefixed v)"

definition entry_ok :: "mem_entry \<Rightarrow> bool" where
  "entry_ok e = (case e of (s, t, u, v) \<Rightarrow>
     s \<le> kMaxSequenceNumber \<and> length u + 8 < 2 ^ 32 \<and> length v < 2 ^ 32)"

definition mem_ikey :: "bytes \<Rightarrow> bytes" where
  "mem_ikey e = (case MemGetLengthPrefixedSlice e of Some (k, _) \<Rightarrow> k | None \<Rightarrow> [])"

definition mem_valid :: "bytes \<Rightarrow> bool" where
  "mem_valid e \<longleftrightarrow> MemGetLengthPrefixedSlice e \<noteq> None \<and> 8 \<le> length (mem_ikey e)"

definition mem_cmp :: "bytes \<Rightarrow> bytes \<Rightarrow> int" where
  "mem_cmp a b = InternalKeyCompare BytewiseComparator (mem_ikey a) (mem_ikey b)"

lemma mem_entry_slices:
  assumes "entry_ok (s, t, u, v)"
  shows "MemGetLengthPrefixedSlice (mem_entry (s, t, u, v)) = Some (InternalKey_new u s t, EncodeLengthPrefixed v)"
    "mem_ikey (mem_entry (s, t, u, v)) = InternalKey_new u s t" "mem_valid (mem_entry (s, t, u, v))"
proof -
  show g: "MemGetLengthPrefixedSlice (mem_entry (s, t, u, v)) = Some (InternalKey_new u s t, EncodeLengthPrefixed v)"
    using assms by (simp add: mem_entry_def entry_ok_def codec_simps)
  then show "mem_ikey (mem_entry (s, t, u, v)) = InternalKey_new u s t" by (simp add: mem_ikey_def)
  with g show "mem_valid (mem_entry (s, t, u, v))" by (simp add: mem_valid_def)
qed

lemma mem_valid_internal: "mem_valid e \<Longrightarrow> internal_valid (\<lambda>_. True) (mem_ikey e)"
  by (simp add: mem_valid_def internal_valid_def)

text \<open>The comparator of the memtable orders the entries by their internal keys.\<close>

interpretation mem_order: skiplist_order mem_cmp mem_valid "MemKeyCompare BytewiseComparator"
proof
  fix a b c
  show "mem_valid a \<Longrightarrow> mem_cmp a a = 0"
    unfolding mem_cmp_def by (intro internal_order.cmp_self mem_valid_internal)
  show "mem_valid a \<Longrightarrow> mem_valid b \<Longrightarrow> mem_cmp a b < 0 \<longleftrightarrow> mem_cmp b a > 0"
    unfolding mem_cmp_def by (intro internal_order.cmp_swap mem_valid_internal)
  show "mem_valid a \<Longrightarrow> mem_valid b \<Longrightarrow> mem_valid c \<Longrightarrow> mem_cmp a b \<le> 0 \<Longrightarrow> mem_cmp b c \<le> 0 \<Longrightarrow> mem_cmp a c \<le> 0"
    unfolding mem_cmp_def by (rule internal_order.cmp_trans) (auto intro: mem_valid_internal)
  show "mem_valid a \<Longrightarrow> mem_valid b \<Longrightarrow> MemKeyCompare BytewiseComparator a b = Some (mem_cmp a b)"
    by (auto simp: MemKeyCompare_def mem_cmp_def mem_valid_def mem_ikey_def)
qed

lemma mem_cmp_entry:
  assumes "entry_ok (s1, t1, u1, v1)" "entry_ok (s2, t2, u2, v2)"
  shows "mem_cmp (mem_entry (s1, t1, u1, v1)) (mem_entry (s2, t2, u2, v2)) < 0
    \<longleftrightarrow> u1 < u2 \<or> u1 = u2 \<and> (s2 < s1 \<or> s1 = s2 \<and> t1 = kTypeValue \<and> t2 = kTypeDeletion)"
  using assms unfolding mem_cmp_def mem_entry_slices(2) [OF assms(1)] mem_entry_slices(2) [OF assms(2)]
  by (intro InternalKeyCompare_new) (simp_all add: entry_ok_def)

lemma mem_cmp_entry_eq:
  assumes "entry_ok (s1, t1, u1, v1)" "entry_ok (s2, t2, u2, v2)" "(u1, s1) \<noteq> (u2, s2)"
  shows "mem_cmp (mem_entry (s1, t1, u1, v1)) (mem_entry (s2, t2, u2, v2)) \<noteq> 0"
proof -
  let ?a = "mem_entry (s1, t1, u1, v1)" and ?b = "mem_entry (s2, t2, u2, v2)"
  have "mem_cmp ?a ?b < 0 \<or> mem_cmp ?b ?a < 0"
    unfolding mem_cmp_entry [OF assms(1,2)] mem_cmp_entry [OF assms(2,1)] using assms(3) by (auto simp: neq_iff)
  then show ?thesis
    using mem_order.cmp_swap [OF mem_entry_slices(3) [OF assms(2)] mem_entry_slices(3) [OF assms(1)]] by auto
qed

section \<open>The memtable as a set of versions\<close>

definition mem_rep :: "'h MemTable \<Rightarrow> mem_entry list \<Rightarrow> bool" where
  "mem_rep m es \<longleftrightarrow> mt_comparator m = BytewiseComparator \<and>
     (\<forall>e\<in>set es. entry_ok e) \<and> distinct (map (\<lambda>(s, t, u, v). (u, s)) es) \<and>
     (\<exists>ns. mem_order.rep (mt_table m) ns \<and> mset (mem_order.keys_of (mt_table m) ns) = mset (map mem_entry es))"

lemma mem_rep_new: "no_bad_alloc new \<Longrightarrow> \<exists>m. MemTable_new new BytewiseComparator arena = Some m \<and> mem_rep m []"
proof -
  assume heap: "no_bad_alloc new"
  obtain t where t: "SkipList_new new (MemKeyCompare BytewiseComparator) arena [] = Some t"
    using mem_order.SkipList_new_defined [OF heap] by blast
  then show ?thesis using mem_order.rep_new [OF t]
    by (auto simp: MemTable_new_def mem_rep_def mem_order.keys_of_def intro!: exI [of _ "[]"])
qed

lemma MemTable_Add_entry:
  "MemTable_Add new s t u v m =
     do {
       (_, arena) \<leftarrow> Allocate new (word_of_nat (length (mem_entry (s, t, u, v)))) (sl_arena (mt_table m));
       table \<leftarrow> Insert new (mem_entry (s, t, u, v)) ((mt_table m)\<lparr>sl_arena := arena\<rparr>);
       Some (m\<lparr>mt_table := table\<rparr>)
     }" if "entry_ok (s, t, u, v)"
proof -
  have e: "mem_entry (s, t, u, v) = EncodeVarint32 (word_of_nat (length u + 8)) @ u @
      EncodeFixed64 (push_bit 8 s OR ucast (value_type_code t)) @ EncodeVarint32 (word_of_nat (length v)) @ v"
    by (simp add: mem_entry_def EncodeLengthPrefixed_def InternalKey_new_eq PackSequenceAndType_def)
  have l: "VarintLength (word_of_nat n) = length (EncodeVarint32 (word_of_nat n))" if "n < 2 ^ 32" for n
  proof -
    have "(ucast (word_of_nat n :: u32) :: u64) = word_of_nat n"
      using that by (simp add: word_unat_eq_iff unsigned_of_nat take_bit_nat_eq_self)
    then show ?thesis by (simp only: VarintLength_eq EncodeVarint32_eq_EncodeVarint64_aux)
  qed
  have "length u + 8 < 2 ^ 32" "length v < 2 ^ 32" using that by (simp_all add: entry_ok_def)
  from l [OF this(1)] l [OF this(2)] show ?thesis unfolding MemTable_Add_def e
    by (simp add: Let_def add.assoc)
qed

lemma mem_rep_Add:
  assumes heap: "no_bad_alloc new" and m: "mem_rep m es" and e: "entry_ok (s, t, u, v)" and fresh: "\<forall>(s', t', u', v')\<in>set es. (u', s') \<noteq> (u, s)"
  shows "\<exists>m'. MemTable_Add new s t u v m = Some m' \<and> mem_rep m' ((s, t, u, v) # es)"
proof -
  let ?e = "mem_entry (s, t, u, v)"
  obtain ns where r: "mem_order.rep (mt_table m) ns"
    and keys: "mset (mem_order.keys_of (mt_table m) ns) = mset (map mem_entry es)"
    and ok: "\<forall>e\<in>set es. entry_ok e" "distinct (map (\<lambda>(s, t, u, v). (u, s)) es)" and c: "mt_comparator m = BytewiseComparator"
    using m unfolding mem_rep_def by blast
  obtain p arena where arena: "Allocate new (word_of_nat (length ?e)) (sl_arena (mt_table m)) = Some (p, arena)"
    using Allocate_returns [OF heap] by blast
  let ?t = "(mt_table m)\<lparr>sl_arena := arena\<rparr>"
  have r': "mem_order.rep ?t ns" using r by (simp add: mem_order.rep_def)
  have k': "mem_order.keys_of ?t ns = mem_order.keys_of (mt_table m) ns" by (simp add: mem_order.keys_of_def)
  have set: "set (mem_order.keys_of (mt_table m) ns) = mem_entry ` set es"
    using keys by (metis list.set_map set_mset_mset)
  have "\<forall>k\<in>set (mem_order.keys_of ?t ns). mem_cmp k ?e \<noteq> 0"
    unfolding k' set using fresh ok(1) mem_cmp_entry_eq [OF _ e] by (auto; blast)
  from mem_order.Insert_keys [OF heap r' mem_entry_slices(3) [OF e] this] obtain t' ns' where
    I: "Insert new ?e ?t = Some t'" "mem_order.rep t' ns'"
      "mem_order.keys_of t' ns' = takeWhile (\<lambda>k. mem_cmp k ?e < 0) (mem_order.keys_of ?t ns) @ ?e #
        dropWhile (\<lambda>k. mem_cmp k ?e < 0) (mem_order.keys_of ?t ns)" by metis
  have "mset (mem_order.keys_of t' ns') = add_mset ?e (mset (map mem_entry es))"
    unfolding I(3) k' keys [symmetric] by simp (metis mset_append takeWhile_dropWhile_id)
  then have "mem_rep (m\<lparr>mt_table := t'\<rparr>) ((s, t, u, v) # es)"
    using ok c e fresh I(2) unfolding mem_rep_def by (auto simp: image_iff)
  then show ?thesis using I(1) arena by (simp add: MemTable_Add_entry [OF e])
qed

subsection \<open>Lookups find the newest visible version\<close>

lemma mem_target:
  assumes "s \<le> kMaxSequenceNumber" "length u + 8 < 2 ^ 32"
  shows "mem_valid (lk_memtable_key (LookupKey_new u s))"
    "entry_ok (s', t, u', v) \<Longrightarrow> mem_cmp (mem_entry (s', t, u', v)) (lk_memtable_key (LookupKey_new u s)) < 0
      \<longleftrightarrow> u' < u \<or> u' = u \<and> s < s'"
proof -
  let ?k = "lk_memtable_key (LookupKey_new u s)"
  have "MemGetLengthPrefixedSlice ?k = Some (InternalKey_new u s kTypeValue, [])"
    using MemGetLengthPrefixedSlice_enc [of "InternalKey_new u s kTypeValue" "[]"] assms(2)
    by (simp add: lk_memtable_key_new)
  then have k: "mem_ikey ?k = InternalKey_new u s kTypeValue" "mem_valid ?k"
    by (simp_all add: mem_ikey_def mem_valid_def)
  show "mem_valid ?k" by (rule k(2))
  show "mem_cmp (mem_entry (s', t, u', v)) ?k < 0 \<longleftrightarrow> u' < u \<or> u' = u \<and> s < s'" if e: "entry_ok (s', t, u', v)"
    using InternalKeyCompare_new [of s' s u' t u kTypeValue] e assms(1)
    unfolding mem_cmp_def mem_entry_slices(2) [OF e] k(1) by (simp add: entry_ok_def)
qed

text \<open>What \<open>Get\<close> returns when the search stops at the given entry.\<close>

definition get_result :: "mem_entry \<Rightarrow> bytes \<Rightarrow> bytes \<Rightarrow> Status \<Rightarrow> bool \<times> bytes \<times> Status" where
  "get_result e u val st = (case e of (s, t, u', v) \<Rightarrow>
     if u' = u then (case t of kTypeValue \<Rightarrow> (True, v, st) | kTypeDeletion \<Rightarrow> (True, val, Status_NotFound [] []))
     else (False, val, st))"

lemma MemTable_Get_at:
  assumes m: "mem_rep m es" and r: "mem_order.rep (mt_table m) ns"
    and seek: "SlIter_Seek (mt_table m) (lk_memtable_key (LookupKey_new u s)) = Some (mem_order.nth_ptr ns i)"
    and i: "i < length ns" "mem_order.keys_of (mt_table m) ns ! i = mem_entry e" and e: "entry_ok e"
  shows "MemTable_Get m (LookupKey_new u s) val st = Some (get_result e u val st)"
proof -
  obtain s' t u' v where e': "e = (s', t, u', v)" by (cases e) auto
  have v: "MemGetLengthPrefixedSlice (EncodeLengthPrefixed v) = Some (v, [])"
    using MemGetLengthPrefixedSlice_enc [of v "[]"] e e' by (simp add: entry_ok_def)
  have c: "Compare (mt_comparator m) x u = 0 \<longleftrightarrow> x = u" for x
    using m by (simp add: mem_rep_def BytewiseComparator_def BytewiseCompare_def slice_compare_eq)
  have tag: "DecodeFixed64 (drop (length x) (InternalKey_new x s' t)) = PackSequenceAndType s' t" for x t
    using DecodeFixed64_enc [of "PackSequenceAndType s' t" "[]"] by (simp add: InternalKey_new_eq)
  have uk: "take (length x) (InternalKey_new x s' t) = x" for x t by (simp add: InternalKey_new_eq)
  have code: "value_type_code kTypeDeletion \<noteq> value_type_code kTypeValue" by (simp add: value_type_code_def)
  show ?thesis
    using seek i mem_order.iter_key [OF r i(1)] mem_entry_slices(1) [OF e [unfolded e']] v c code
    by (cases t; cases "u' = u") (simp_all add: MemTable_Get_def mem_order.iter_Valid e' get_result_def lk_internal_key_new(2)
        tag uk PackSequenceAndType_type Let_def)
qed

lemma MemTable_Get_correct:
  assumes m: "mem_rep m es" and s: "s \<le> kMaxSequenceNumber" and u: "length u + 8 < 2 ^ 32"
  shows "(\<forall>(s', t, u', v)\<in>set es. u' = u \<longrightarrow> s < s') \<Longrightarrow>
      MemTable_Get m (LookupKey_new u s) val st = Some (False, val, st)"
    and "(s0, t0, u, v0) \<in> set es \<Longrightarrow> s0 \<le> s \<Longrightarrow> (\<forall>(s', t, u', v)\<in>set es. u' = u \<longrightarrow> s' \<le> s0 \<or> s < s') \<Longrightarrow>
      MemTable_Get m (LookupKey_new u s) val st = Some (get_result (s0, t0, u, v0) u val st)"
proof -
  let ?k = "lk_memtable_key (LookupKey_new u s)"
  obtain ns where r: "mem_order.rep (mt_table m) ns"
    and keys: "mset (mem_order.keys_of (mt_table m) ns) = mset (map mem_entry es)"
    and ok: "\<And>e. e \<in> set es \<Longrightarrow> entry_ok e" and dist: "distinct (map (\<lambda>(s, t, u, v). (u, s)) es)"
    using m unfolding mem_rep_def by blast
  let ?K = "mem_order.keys_of (mt_table m) ns"
  let ?i = "length (takeWhile (\<lambda>k. mem_cmp k ?k < 0) ?K)"
  have len: "length ?K = length ns" by (simp add: mem_order.keys_of_def)
  have set: "set ?K = mem_entry ` set es" using keys by (metis list.set_map set_mset_mset)
  have seek: "SlIter_Seek (mt_table m) ?k = Some (mem_order.nth_ptr ns ?i)"
    by (rule mem_order.iter_Seek [OF r mem_target(1) [OF s u]])
  have at: "\<exists>e\<in>set es. ?K ! ?i = mem_entry e \<and> \<not> (case e of (s', t, u', v) \<Rightarrow> u' < u \<or> u' = u \<and> s < s')" if "?i < length ns"
  proof -
    have "?K ! ?i \<in> set ?K" using that len by simp
    then obtain e where e: "e \<in> set es" "?K ! ?i = mem_entry e" using set by auto
    have "\<not> mem_cmp (?K ! ?i) ?k < 0" using nth_length_takeWhile [of "\<lambda>k. mem_cmp k ?k < 0" ?K] that len by simp
    then show ?thesis using e mem_target(2) [OF s u] ok by (auto intro!: bexI [of _ e] split: prod.splits)
  qed
  show "MemTable_Get m (LookupKey_new u s) val st = Some (False, val, st)"
    if none: "\<forall>(s', t, u', v)\<in>set es. u' = u \<longrightarrow> s < s'"
  proof (cases "?i < length ns")
    case True
    then obtain e where e: "e \<in> set es" "?K ! ?i = mem_entry e" "\<not> (case e of (s', t, u', v) \<Rightarrow> u' < u \<or> u' = u \<and> s < s')"
      using at by blast
    then have "fst (snd (snd e)) \<noteq> u" using none by (cases e) auto
    then have "get_result e u val st = (False, val, st)" by (cases e) (simp add: get_result_def)
    then show ?thesis using MemTable_Get_at [OF m r seek True e(2) ok [OF e(1)]] by simp
  next
    case False
    then show ?thesis using seek by (simp add: MemTable_Get_def mem_order.iter_Valid)
  qed
  show "MemTable_Get m (LookupKey_new u s) val st = Some (get_result (s0, t0, u, v0) u val st)"
    if e0: "(s0, t0, u, v0) \<in> set es" "s0 \<le> s" and newest: "\<forall>(s', t, u', v)\<in>set es. u' = u \<longrightarrow> s' \<le> s0 \<or> s < s'"
  proof -
    have "mem_entry (s0, t0, u, v0) \<in> set ?K" using e0 set by auto
    then obtain j where j: "j < length ns" "?K ! j = mem_entry (s0, t0, u, v0)" by (metis in_set_conv_nth len)
    have ge: "\<not> mem_cmp (?K ! j) ?k < 0" using mem_target(2) [OF s u ok [OF e0(1)]] j e0(2) by auto
    have ij: "?i \<le> j"
    proof (rule ccontr)
      assume "\<not> ?i \<le> j"
      then have "?K ! j \<in> set (takeWhile (\<lambda>k. mem_cmp k ?k < 0) ?K)" by (metis not_le nth_mem takeWhile_nth)
      then show False using ge by (auto dest: set_takeWhileD)
    qed
    then have i: "?i < length ns" using j by simp
    then obtain e where e: "e \<in> set es" "?K ! ?i = mem_entry e" "\<not> (case e of (s', t, u', v) \<Rightarrow> u' < u \<or> u' = u \<and> s < s')"
      using at by blast
    have "?i = j"
    proof (rule ccontr)
      assume "?i \<noteq> j"
      then have "mem_cmp (?K ! ?i) (?K ! j) < 0"
        using sorted_wrt_nth_less [OF mem_order.keys_sorted [OF r], of ?i j] ij j(1) len by linarith
      then have lt: "mem_cmp (mem_entry e) (mem_entry (s0, t0, u, v0)) < 0" using j(2) e(2) by simp
      obtain s' t' u' v' where e': "e = (s', t', u', v')" by (cases e) auto
      have c: "u' < u \<or> u' = u \<and> (s0 < s' \<or> s' = s0 \<and> t' = kTypeValue \<and> t0 = kTypeDeletion)"
        using lt mem_cmp_entry [OF ok [OF e(1), unfolded e'] ok [OF e0(1)]] e' by simp
      then have "u' = u" "s' = s0" using e(1,3) newest e' by auto
      then have "e = (s0, t0, u, v0)" using dist e(1) e0(1) e' by (auto simp: distinct_map inj_on_def dest: bspec)
      then show False using c e' by auto
    qed
    then have "mem_entry e = mem_entry (s0, t0, u, v0)" using e j by simp
    then show ?thesis using MemTable_Get_at [OF m r seek i _ ok [OF e0(1)]] e(2) by simp
  qed
qed

text \<open>A sequence of additions.\<close>

fun MemTable_Adds :: "'h new_array \<Rightarrow> mem_entry list \<Rightarrow> 'h MemTable \<Rightarrow> 'h MemTable option" where
  "MemTable_Adds new [] m = Some m"
| "MemTable_Adds new ((s, t, u, v) # es) m = do { m \<leftarrow> MemTable_Add new s t u v m; MemTable_Adds new es m }"

lemma mem_rep_Adds:
  assumes heap: "no_bad_alloc new"
    and "mem_rep m es" "\<forall>e\<in>set fs. entry_ok e" "distinct (map (\<lambda>(s, t, u, v). (u, s)) (fs @ es))"
  shows "\<exists>m'. MemTable_Adds new fs m = Some m' \<and> mem_rep m' (rev fs @ es)"
  using assms(2-)
proof (induction fs arbitrary: m es)
  case (Cons f fs)
  obtain s t u v where f: "f = (s, t, u, v)" by (cases f) auto
  have "\<forall>(s', t', u', v')\<in>set es. (u', s') \<noteq> (u, s)" using Cons.prems(3) f by (auto simp: image_iff)
  then obtain m' where m': "MemTable_Add new s t u v m = Some m'" "mem_rep m' (f # es)"
    using mem_rep_Add [OF heap Cons.prems(1), of s t u v] Cons.prems(2) f by auto
  from Cons.IH [OF m'(2)] Cons.prems(2,3) obtain m'' where
    "MemTable_Adds new fs m' = Some m''" "mem_rep m'' (rev fs @ f # es)" by auto
  then show ?case using m' f by simp
qed auto

text \<open>C31: a lookup in the memtable returns the newest version it may see. Versions of keys with distinct
  sequence numbers per key are added in any order, and \<open>operator new[]\<close> does not throw. Then \<open>Get\<close> for a user key and a sequence number
  returns: nothing if no version of the key is that old, the value if the newest visible version is a
  value, and a \<open>NotFound\<close> status if it is a deletion.\<close>

theorem memtable_get_newest:
  assumes "\<forall>e\<in>set es. entry_ok e" "distinct (map (\<lambda>(s, t, u, v). (u, s)) es)"
    "s \<le> kMaxSequenceNumber" "length u + 8 < 2 ^ 32" "no_bad_alloc new"
  shows "\<exists>m m'. MemTable_new new BytewiseComparator arena = Some m \<and> MemTable_Adds new es m = Some m' \<and>
    ((\<forall>(s', t, u', v)\<in>set es. u' = u \<longrightarrow> s < s') \<longrightarrow>
      MemTable_Get m' (LookupKey_new u s) val st = Some (False, val, st)) \<and>
    (\<forall>s0 t0 v0. (s0, t0, u, v0) \<in> set es \<and> s0 \<le> s \<and> (\<forall>(s', t, u', v)\<in>set es. u' = u \<longrightarrow> s' \<le> s0 \<or> s < s') \<longrightarrow>
      MemTable_Get m' (LookupKey_new u s) val st =
        Some (case t0 of kTypeValue \<Rightarrow> (True, v0, st) | kTypeDeletion \<Rightarrow> (True, val, Status_NotFound [] [])))"
proof -
  obtain m where m: "MemTable_new new BytewiseComparator arena = Some m" "mem_rep m []"
    using mem_rep_new [OF assms(5)] by blast
  obtain m' where m': "MemTable_Adds new es m = Some m'" "mem_rep m' (rev es)"
    using mem_rep_Adds [OF assms(5) m(2) assms(1)] assms(2) by auto
  note get = MemTable_Get_correct [OF m'(2) assms(3,4), where val = val and st = st]
  show ?thesis
    using m(1) m'(1) get by (intro exI conjI impI allI) (auto simp: get_result_def)
qed

theorem memtable_get_newest_witness:
  "\<exists>m m'. MemTable_new endless_new BytewiseComparator (Arena_new 8) = Some m \<and>
     MemTable_Adds endless_new [(1, kTypeValue, [7], [10]), (2, kTypeValue, [7], [20]), (3, kTypeDeletion, [7], [])] m = Some m' \<and>
     MemTable_Get m' (LookupKey_new [7] 2) [] None = Some (True, [20], None) \<and>
     MemTable_Get m' (LookupKey_new [7] 9) [] None = Some (True, [], Status_NotFound [] [])"
proof -
  let ?es = "[(1, kTypeValue, [7], [10]), (2, kTypeValue, [7], [20]), (3, kTypeDeletion, [7], [])] :: mem_entry list"
  have ok: "\<forall>e\<in>set ?es. entry_ok e" by (simp add: entry_ok_def kMaxSequenceNumber_def)
  have d: "distinct (map (\<lambda>(s, t, u, v). (u, s)) ?es)" by simp
  have s: "(2 :: u64) \<le> kMaxSequenceNumber" "(9 :: u64) \<le> kMaxSequenceNumber" by (simp_all add: kMaxSequenceNumber_def)
  note A = memtable_get_newest [OF ok d s(1), of "[7]" endless_new "Arena_new 8" "[]" None, OF _ no_bad_alloc_endless]
  note B = memtable_get_newest [OF ok d s(2), of "[7]" endless_new "Arena_new 8" "[]" None, OF _ no_bad_alloc_endless]
  from A obtain m m' where m: "MemTable_new endless_new BytewiseComparator (Arena_new 8) = Some m"
      "MemTable_Adds endless_new ?es m = Some m'" "MemTable_Get m' (LookupKey_new [7] 2) [] None = Some (True, [20], None)"
    by (auto dest!: spec [of _ "2 :: u64"] spec [of _ kTypeValue] spec [of _ "[20 :: byte]"] simp del: MemTable_Adds.simps)
  from B have "MemTable_Get m' (LookupKey_new [7] 9) [] None = Some (True, [], Status_NotFound [] [])"
    using m(1,2) by (auto dest!: spec [of _ "3 :: u64"] spec [of _ kTypeDeletion] spec [of _ "[] :: byte list"] simp del: MemTable_Adds.simps)
  with m show ?thesis by blast
qed

end
