(* ===== verification/Ldb_Write_Batch.thy ===== *)
theory Ldb_Write_Batch
  imports Ldb_Memtable
begin

text \<open>
  Write batches (\<open>db/write_batch.cc\<close>, \<open>db/write_batch_internal.h\<close>). A batch is the string \<open>rep_\<close>: a sequence
  number of 8 bytes, a count of 4 bytes and the records. The handler that \<open>Iterate\<close> calls is a record of its
  two operations on a state; its calls may fail to return, like the insertion into a memtable.
\<close>

type_synonym write_batch = bytes

text \<open>\<open>kHeader\<close> of write_batch.cc.\<close>

definition kBatchHeader :: nat where
  "kBatchHeader = 12"

definition WriteBatch_Clear :: write_batch where
  "WriteBatch_Clear = replicate kBatchHeader 0"

definition WriteBatch_new :: write_batch where
  "WriteBatch_new = WriteBatch_Clear"

definition ApproximateSize :: "write_batch \<Rightarrow> nat" where
  "ApproximateSize b = length b"

text \<open>\<open>int\<close> has 32 bits: the count is read as a signed number and stored modulo \<open>2^32\<close>.\<close>

definition Batch_Count :: "write_batch \<Rightarrow> int" where
  "Batch_Count b = sint (DecodeFixed32 (drop 8 b))"

definition Batch_SetCount :: "write_batch \<Rightarrow> int \<Rightarrow> write_batch" where
  "Batch_SetCount b n = take 8 b @ EncodeFixed32 (word_of_int n) @ drop 12 b"

definition Batch_Sequence :: "write_batch \<Rightarrow> SequenceNumber" where
  "Batch_Sequence b = DecodeFixed64 b"

definition Batch_SetSequence :: "write_batch \<Rightarrow> SequenceNumber \<Rightarrow> write_batch" where
  "Batch_SetSequence b s = EncodeFixed64 s @ drop 8 b"

definition Batch_Contents :: "write_batch \<Rightarrow> bytes" where
  "Batch_Contents b = b"

definition Batch_ByteSize :: "write_batch \<Rightarrow> nat" where
  "Batch_ByteSize b = length b"

definition Batch_SetContents :: "bytes \<Rightarrow> write_batch" where
  "Batch_SetContents contents = contents"

definition WriteBatch_Put :: "write_batch \<Rightarrow> bytes \<Rightarrow> bytes \<Rightarrow> write_batch" where
  "WriteBatch_Put b key v =
     (let b = Batch_SetCount b (Batch_Count b + 1);
          b = b @ [value_type_code kTypeValue];
          b = PutLengthPrefixedSlice b key
      in PutLengthPrefixedSlice b v)"

definition WriteBatch_Delete :: "write_batch \<Rightarrow> bytes \<Rightarrow> write_batch" where
  "WriteBatch_Delete b key =
     (let b = Batch_SetCount b (Batch_Count b + 1);
          b = b @ [value_type_code kTypeDeletion]
      in PutLengthPrefixedSlice b key)"

definition Batch_Append :: "write_batch \<Rightarrow> write_batch \<Rightarrow> write_batch" where
  "Batch_Append dst src = Batch_SetCount dst (Batch_Count dst + Batch_Count src) @ drop kBatchHeader src"

definition WriteBatch_Append :: "write_batch \<Rightarrow> write_batch \<Rightarrow> write_batch" where
  "WriteBatch_Append b source = Batch_Append b source"

section \<open>Reading a batch\<close>

record 's batch_handler =
  bh_Put :: "bytes \<Rightarrow> bytes \<Rightarrow> 's \<Rightarrow> 's option"
  bh_Delete :: "bytes \<Rightarrow> 's \<Rightarrow> 's option"

lemma GetLengthPrefixedSlice_rest_le: "(r, rest) = GetLengthPrefixedSlice p \<Longrightarrow> length rest \<le> length p"
  by (metis GetLengthPrefixedSlice_not_longer snd_conv)

text \<open>The loop of \<open>Iterate\<close>: \<open>Inl\<close> returns the error status, \<open>Inr\<close> is the number of records found.\<close>

function Iterate_loop :: "'s batch_handler \<Rightarrow> int \<Rightarrow> bytes \<Rightarrow> 's \<Rightarrow> ((Status + int) \<times> 's) option" where
  "Iterate_loop handler found [] s = Some (Inr found, s)"
| "Iterate_loop handler found (tag # input) s =
     (let found = found + 1 in
      if tag = value_type_code kTypeValue then
        (case GetLengthPrefixedSlice input of
           (Some key, input1) \<Rightarrow>
             (case GetLengthPrefixedSlice input1 of
                (Some v, input2) \<Rightarrow> do { s \<leftarrow> bh_Put handler key v s; Iterate_loop handler found input2 s }
              | (None, _) \<Rightarrow> Some (Inl (Status_Corruption (cstr ''bad WriteBatch Put'') []), s))
         | (None, _) \<Rightarrow> Some (Inl (Status_Corruption (cstr ''bad WriteBatch Put'') []), s))
      else if tag = value_type_code kTypeDeletion then
        (case GetLengthPrefixedSlice input of
           (Some key, input1) \<Rightarrow> do { s \<leftarrow> bh_Delete handler key s; Iterate_loop handler found input1 s }
         | (None, _) \<Rightarrow> Some (Inl (Status_Corruption (cstr ''bad WriteBatch Delete'') []), s))
      else Some (Inl (Status_Corruption (cstr ''unknown WriteBatch tag'') []), s))"
  by pat_completeness auto
termination
  by (relation "measure (\<lambda>(handler, found, input, s). length input)")
    (auto dest!: GetLengthPrefixedSlice_rest_le)

declare Iterate_loop.simps(2) [simp del]

definition WriteBatch_Iterate :: "'s batch_handler \<Rightarrow> write_batch \<Rightarrow> 's \<Rightarrow> (Status \<times> 's) option" where
  "WriteBatch_Iterate handler b s =
     (if length b < kBatchHeader
      then Some (Status_Corruption (cstr ''malformed WriteBatch (too small)'') [], s)
      else do {
        (r, s) \<leftarrow> Iterate_loop handler 0 (drop kBatchHeader b) s;
        Some (case r of
                Inl e \<Rightarrow> e
              | Inr found \<Rightarrow> if found \<noteq> Batch_Count b
                               then Status_Corruption (cstr ''WriteBatch has wrong count'') [] else Status_OK, s)
      })"

section \<open>Insertion into a memtable\<close>

record 'h MemTableInserter =
  mi_sequence :: SequenceNumber
  mi_mem :: "'h MemTable"

definition MemTableInserter_Put ::
    "'h new_array \<Rightarrow> bytes \<Rightarrow> bytes \<Rightarrow> 'h MemTableInserter \<Rightarrow> 'h MemTableInserter option" where
  "MemTableInserter_Put new key v i = do {
     m \<leftarrow> MemTable_Add new (mi_sequence i) kTypeValue key v (mi_mem i);
     Some \<lparr>mi_sequence = mi_sequence i + 1, mi_mem = m\<rparr>
   }"

definition MemTableInserter_Delete ::
    "'h new_array \<Rightarrow> bytes \<Rightarrow> 'h MemTableInserter \<Rightarrow> 'h MemTableInserter option" where
  "MemTableInserter_Delete new key i = do {
     m \<leftarrow> MemTable_Add new (mi_sequence i) kTypeDeletion key [] (mi_mem i);
     Some \<lparr>mi_sequence = mi_sequence i + 1, mi_mem = m\<rparr>
   }"

definition InsertInto :: "'h new_array \<Rightarrow> write_batch \<Rightarrow> 'h MemTable \<Rightarrow> (Status \<times> 'h MemTable) option" where
  "InsertInto new b memtable = do {
     (st, i) \<leftarrow> WriteBatch_Iterate
       \<lparr>bh_Put = MemTableInserter_Put new, bh_Delete = MemTableInserter_Delete new\<rparr> b
       \<lparr>mi_sequence = Batch_Sequence b, mi_mem = memtable\<rparr>;
     Some (st, mi_mem i)
   }"

section \<open>The contents of a batch\<close>

datatype batch_op = Batch_Put bytes bytes | Batch_Del bytes

fun batch_key :: "batch_op \<Rightarrow> bytes" where
  "batch_key (Batch_Put k v) = k"
| "batch_key (Batch_Del k) = k"

fun op_bytes :: "batch_op \<Rightarrow> bytes" where
  "op_bytes (Batch_Put k v) = value_type_code kTypeValue # EncodeLengthPrefixed k @ EncodeLengthPrefixed v"
| "op_bytes (Batch_Del k) = value_type_code kTypeDeletion # EncodeLengthPrefixed k"

fun op_ok :: "batch_op \<Rightarrow> bool" where
  "op_ok (Batch_Put k v) \<longleftrightarrow> length k < 2 ^ 32 \<and> length v < 2 ^ 32"
| "op_ok (Batch_Del k) \<longleftrightarrow> length k < 2 ^ 32"

fun batch_add :: "write_batch \<Rightarrow> batch_op \<Rightarrow> write_batch" where
  "batch_add b (Batch_Put k v) = WriteBatch_Put b k v"
| "batch_add b (Batch_Del k) = WriteBatch_Delete b k"

definition batch_build :: "batch_op list \<Rightarrow> write_batch" where
  "batch_build ops = foldl batch_add WriteBatch_new ops"

fun batch_run :: "'s batch_handler \<Rightarrow> batch_op list \<Rightarrow> 's \<Rightarrow> 's option" where
  "batch_run h [] s = Some s"
| "batch_run h (Batch_Put k v # ops) s = do { s \<leftarrow> bh_Put h k v s; batch_run h ops s }"
| "batch_run h (Batch_Del k # ops) s = do { s \<leftarrow> bh_Delete h k s; batch_run h ops s }"

definition batch_bytes :: "SequenceNumber \<Rightarrow> batch_op list \<Rightarrow> bytes" where
  "batch_bytes seq ops = EncodeFixed64 seq @ EncodeFixed32 (word_of_nat (length ops)) @ concat (map op_bytes ops)"

lemma batch_fields:
  "DecodeFixed64 (batch_bytes seq ops) = seq"
  "DecodeFixed32 (drop 8 (batch_bytes seq ops)) = word_of_nat (length ops)"
  "drop 12 (batch_bytes seq ops) = concat (map op_bytes ops)"
  "take 8 (batch_bytes seq ops) = EncodeFixed64 seq"
  "drop 8 (batch_bytes seq ops) = EncodeFixed32 (word_of_nat (length ops)) @ concat (map op_bytes ops)"
  "12 \<le> length (batch_bytes seq ops)"
  by (simp_all add: batch_bytes_def codec_simps)

lemma batch_new_bytes: "WriteBatch_new = batch_bytes 0 []"
  by (simp add: WriteBatch_new_def WriteBatch_Clear_def kBatchHeader_def batch_bytes_def EncodeFixed64_def EncodeFixed32_def numeral_eq_Suc)

lemma batch_SetCount_add:
  "Batch_SetCount (batch_bytes seq ops) (Batch_Count (batch_bytes seq ops) + int n) =
   EncodeFixed64 seq @ EncodeFixed32 (word_of_nat (length ops + n)) @ concat (map op_bytes ops)"
  by (simp add: Batch_SetCount_def Batch_Count_def batch_fields(2,3,4))

lemma batch_add_bytes: "batch_add (batch_bytes seq ops) op = batch_bytes seq (ops @ [op])"
  using batch_SetCount_add [of seq ops 1]
  by (cases op) (simp_all add: WriteBatch_Put_def WriteBatch_Delete_def Put_append batch_bytes_def Let_def)

lemma batch_build_bytes: "batch_build ops = batch_bytes 0 ops"
proof -
  have "foldl batch_add (batch_bytes seq xs) ops = batch_bytes seq (xs @ ops)" for seq xs
    by (induction ops arbitrary: xs) (simp_all add: batch_add_bytes)
  from this [of 0 "[]"] show ?thesis by (simp add: batch_build_def batch_new_bytes)
qed

lemma batch_append_bytes: "WriteBatch_Append (batch_bytes seq xs) (batch_bytes seq' ys) = batch_bytes seq (xs @ ys)"
proof -
  have "Batch_SetCount (batch_bytes seq xs) (Batch_Count (batch_bytes seq xs) + Batch_Count (batch_bytes seq' ys)) =
     EncodeFixed64 seq @ EncodeFixed32 (word_of_nat (length xs + length ys)) @ concat (map op_bytes xs)"
    by (simp add: Batch_SetCount_def Batch_Count_def batch_fields(2,3,4))
  then show ?thesis
    by (simp add: WriteBatch_Append_def Batch_Append_def kBatchHeader_def batch_fields batch_bytes_def)
qed

lemma batch_sequence_bytes:
  "Batch_SetSequence (batch_bytes seq ops) seq' = batch_bytes seq' ops"
  "Batch_Sequence (batch_bytes seq ops) = seq"
  by (simp_all add: Batch_SetSequence_def Batch_Sequence_def batch_fields) (simp add: batch_bytes_def)

lemma Iterate_loop_ops:
  assumes "\<forall>op\<in>set ops. op_ok op"
  shows "Iterate_loop h found (concat (map op_bytes ops) @ rest) s =
    do { s \<leftarrow> batch_run h ops s; Iterate_loop h (found + int (length ops)) rest s }"
  using assms
proof (induction ops arbitrary: found s)
  case (Cons op ops)
  have n: "value_type_code kTypeDeletion \<noteq> value_type_code kTypeValue" by (simp add: value_type_code_def)
  show ?case
  proof (cases op)
    case (Batch_Put k v)
    then show ?thesis using Cons n
      by (cases "bh_Put h k v s") (simp_all add: Iterate_loop.simps(2) Let_def codec_simps algebra_simps)
  next
    case (Batch_Del k)
    then show ?thesis using Cons n
      by (cases "bh_Delete h k s") (simp_all add: Iterate_loop.simps(2) Let_def codec_simps algebra_simps)
  qed
qed simp

lemma Iterate_batch:
  assumes "\<forall>op\<in>set ops. op_ok op" "length ops < 2 ^ 31"
  shows "WriteBatch_Iterate h (batch_bytes seq ops) s = do { s \<leftarrow> batch_run h ops s; Some (Status_OK, s) }"
proof -
  have "Batch_Count (batch_bytes seq ops) = int (length ops)"
    using assms(2) by (simp add: Batch_Count_def batch_fields(2) signed_of_nat signed_take_bit_int_eq_self)
  moreover have "Iterate_loop h 0 (concat (map op_bytes ops)) s = do { s \<leftarrow> batch_run h ops s; Some (Inr (int (length ops)), s) }"
    using Iterate_loop_ops [OF assms(1), of h 0 "[]" s] by (cases "batch_run h ops s") simp_all
  ultimately show ?thesis using batch_fields(6) [of seq ops]
    by (cases "batch_run h ops s") (simp_all add: WriteBatch_Iterate_def kBatchHeader_def batch_fields(3))
qed

text \<open>C33: a batch is read back as it was built. Whatever puts and deletes build two batches, iterating over
  the second appended to the first calls the handler for exactly these operations, in order, and
  returns OK, as long as the count fits an \<open>int\<close>.\<close>

theorem write_batch_round_trip:
  assumes "\<forall>op\<in>set (xs @ ys). op_ok op" "length xs + length ys < 2 ^ 31"
  shows "WriteBatch_Iterate h (WriteBatch_Append (batch_build xs) (batch_build ys)) s =
    do { s \<leftarrow> batch_run h (xs @ ys) s; Some (Status_OK, s) }"
  unfolding batch_build_bytes batch_append_bytes using assms by (intro Iterate_batch) simp_all

theorem write_batch_round_trip_witness:
  "WriteBatch_Iterate \<lparr>bh_Put = \<lambda>k v s. Some (s @ [(k, v)]), bh_Delete = \<lambda>k s. Some s\<rparr>
     (WriteBatch_Append (batch_build [Batch_Put [1] [2], Batch_Del [3]]) (batch_build [Batch_Put [4] [5]])) [] =
   Some (Status_OK, [([1], [2]), ([4], [5])])"
  by (subst write_batch_round_trip) simp_all

section \<open>Damaged batches\<close>

lemma GetLengthPrefixedSlice_cut:
  assumes "length k < 2 ^ 32" "n < length (EncodeLengthPrefixed k)"
  shows "\<exists>q. GetLengthPrefixedSlice (take n (EncodeLengthPrefixed k)) = (None, q)"
  using GetLengthPrefixedSlice_truncated [OF assms] by (metis prod.collapse)

lemma Iterate_loop_cut_op:
  assumes "op_ok op" "0 < n" "n < length (op_bytes op)"
  shows "\<exists>e. Iterate_loop h found (take n (op_bytes op)) s = Some (Inl e, s) \<and> IsCorruption e"
proof -
  have cor: "IsCorruption (Status_Corruption m [])" for m by (simp add: IsCorruption_def Status_Corruption_def)
  have ne: "value_type_code kTypeDeletion \<noteq> value_type_code kTypeValue" by (simp add: value_type_code_def)
  obtain n' where n: "n = Suc n'" using assms(2) by (cases n) auto
  show ?thesis
  proof (cases op)
    case (Batch_Del k)
    then obtain q where "GetLengthPrefixedSlice (take n' (EncodeLengthPrefixed k)) = (None, q)"
      using GetLengthPrefixedSlice_cut [of k n'] assms n by auto
    then show ?thesis using Batch_Del n cor ne by (simp add: Iterate_loop.simps(2) Let_def)
  next
    case (Batch_Put k v)
    show ?thesis
    proof (cases "n' < length (EncodeLengthPrefixed k)")
      case True
      then obtain q where "GetLengthPrefixedSlice (take n' (EncodeLengthPrefixed k)) = (None, q)"
        using GetLengthPrefixedSlice_cut [of k n'] assms(1) Batch_Put by auto
      then show ?thesis using Batch_Put n True cor by (simp add: Iterate_loop.simps(2) Let_def)
    next
      case False
      let ?m = "n' - length (EncodeLengthPrefixed k)"
      have t: "take n (op_bytes op) = value_type_code kTypeValue # EncodeLengthPrefixed k @ take ?m (EncodeLengthPrefixed v)"
        using Batch_Put n False by simp
      have "?m < length (EncodeLengthPrefixed v)" using assms(3) Batch_Put n False by simp
      then obtain q where "GetLengthPrefixedSlice (take ?m (EncodeLengthPrefixed v)) = (None, q)"
        using GetLengthPrefixedSlice_cut [of v ?m] assms(1) Batch_Put by auto
      moreover have "GetLengthPrefixedSlice (EncodeLengthPrefixed k @ take ?m (EncodeLengthPrefixed v)) =
          (Some k, take ?m (EncodeLengthPrefixed v))"
        using assms(1) Batch_Put by (simp add: codec_simps)
      ultimately show ?thesis unfolding t using cor by (simp add: Iterate_loop.simps(2) Let_def)
    qed
  qed
qed

lemma batch_run_total:
  assumes "\<And>k v s. bh_Put h k v s \<noteq> None" "\<And>k s. bh_Delete h k s \<noteq> None"
  shows "\<exists>s'. batch_run h ops s = Some s'"
proof (induction ops arbitrary: s)
  case (Cons op ops)
  then show ?case using assms by (cases op) (auto simp: bind_eq_Some_conv, (metis not_None_eq)+)
qed simp

lemma Iterate_loop_truncated:
  assumes "\<forall>op\<in>set ops. op_ok op" "n < length (concat (map op_bytes ops))"
    and total: "\<And>k v s. bh_Put h k v s \<noteq> None" "\<And>k s. bh_Delete h k s \<noteq> None"
  shows "\<exists>r s'. Iterate_loop h found (take n (concat (map op_bytes ops))) s = Some (r, s') \<and>
    (case r of Inl e \<Rightarrow> IsCorruption e | Inr m \<Rightarrow> m < found + int (length ops))"
  using assms(1,2)
proof (induction ops arbitrary: found n s)
  case (Cons op ops)
  let ?rest = "concat (map op_bytes ops)"
  show ?case
  proof (cases "n < length (op_bytes op)")
    case True
    then have t: "take n (concat (map op_bytes (op # ops))) = take n (op_bytes op)" by simp
    show ?thesis
    proof (cases "n = 0")
      case False
      then obtain e where "Iterate_loop h found (take n (op_bytes op)) s = Some (Inl e, s)" "IsCorruption e"
        using Iterate_loop_cut_op [of op n h found s] True Cons.prems(1) by auto
      then show ?thesis unfolding t by (intro exI [of _ "Inl e"]) simp
    qed simp
  next
    case False
    let ?n = "n - length (op_bytes op)"
    have t: "take n (concat (map op_bytes (op # ops))) = concat (map op_bytes [op]) @ take ?n ?rest" using False by simp
    obtain s1 where s1: "batch_run h [op] s = Some s1" using batch_run_total [OF total] by metis
    have "?n < length ?rest" using Cons.prems(2) False by simp
    then obtain r s' where r: "Iterate_loop h (found + 1) (take ?n ?rest) s1 = Some (r, s')"
        "case r of Inl e \<Rightarrow> IsCorruption e | Inr m \<Rightarrow> m < found + 1 + int (length ops)"
      using Cons.IH [of ?n "found + 1" s1] Cons.prems(1) by auto
    have "Iterate_loop h found (take n (concat (map op_bytes (op # ops)))) s = Some (r, s')"
      unfolding t using Iterate_loop_ops [of "[op]" h found "take ?n ?rest" s] Cons.prems(1) s1 r(1) by simp
    then show ?thesis using r(2) by (intro exI conjI) (auto split: sum.splits)
  qed
qed simp

text \<open>C34: damage by truncation is always noticed. A batch of fewer than \<open>2^31\<close> operations that has lost any
  number of bytes at its end, down to the empty string, is reported as corrupt by \<open>Iterate\<close>.\<close>

theorem write_batch_truncation_detected:
  assumes "\<forall>op\<in>set ops. op_ok op" "length ops < 2 ^ 31" "n < length (batch_build ops)"
    "\<And>k v s. bh_Put h k v s \<noteq> None" "\<And>k s. bh_Delete h k s \<noteq> None"
  shows "\<exists>st s'. WriteBatch_Iterate h (take n (batch_build ops)) s = Some (st, s') \<and> IsCorruption st"
proof -
  have cor: "IsCorruption (Status_Corruption m [])" for m by (simp add: IsCorruption_def Status_Corruption_def)
  have b: "batch_build ops = EncodeFixed64 0 @ EncodeFixed32 (word_of_nat (length ops)) @ concat (map op_bytes ops)"
    by (simp add: batch_build_bytes batch_bytes_def)
  show ?thesis
  proof (cases "n < 12")
    case True
    then have "length (take n (batch_build ops)) < 12" by simp
    then show ?thesis using cor by (simp only: WriteBatch_Iterate_def kBatchHeader_def if_True) blast
  next
    case False
    have len: "length (take n (batch_build ops)) = n" using assms(3) by simp
    have d: "drop 12 (take n (batch_build ops)) = take (n - 12) (concat (map op_bytes ops))"
      using False by (simp add: b)
    have "Batch_Count (take n (batch_build ops)) = int (length ops)"
      using False assms(2)
      by (simp add: Batch_Count_def b codec_simps signed_of_nat signed_take_bit_int_eq_self)
    moreover have "n - 12 < length (concat (map op_bytes ops))" using assms(3) False unfolding b by simp
    then obtain r s' where "Iterate_loop h 0 (take (n - 12) (concat (map op_bytes ops))) s = Some (r, s')"
        "case r of Inl e \<Rightarrow> IsCorruption e | Inr m \<Rightarrow> m < 0 + int (length ops)"
      using Iterate_loop_truncated [OF assms(1) _ assms(4,5), of "n - 12" 0 s] by blast
    ultimately show ?thesis using False cor len d
      by (cases r) (auto simp: WriteBatch_Iterate_def kBatchHeader_def)
  qed
qed

theorem write_batch_truncation_detected_witness:
  "\<exists>st s'. WriteBatch_Iterate \<lparr>bh_Put = \<lambda>k v s. Some (s @ [(k, v)]), bh_Delete = \<lambda>k s. Some s\<rparr>
     (take 15 (batch_build [Batch_Put [1] [2], Batch_Del [3]])) [] = Some (st, s') \<and> IsCorruption st"
  by (rule write_batch_truncation_detected)
    (simp_all add: batch_build_bytes batch_bytes_def EncodeLengthPrefixed_def)

section \<open>Batches in the memtable\<close>

text \<open>The entries that a batch adds: its operations under consecutive sequence numbers.\<close>

fun op_entry :: "SequenceNumber \<Rightarrow> batch_op \<Rightarrow> mem_entry" where
  "op_entry seq (Batch_Put k v) = (seq, kTypeValue, k, v)"
| "op_entry seq (Batch_Del k) = (seq, kTypeDeletion, k, [])"

fun batch_entries :: "SequenceNumber \<Rightarrow> batch_op list \<Rightarrow> mem_entry list" where
  "batch_entries seq [] = []"
| "batch_entries seq (op # ops) = op_entry seq op # batch_entries (seq + 1) ops"

lemma batch_run_insert:
  "batch_run \<lparr>bh_Put = MemTableInserter_Put new, bh_Delete = MemTableInserter_Delete new\<rparr> ops
     \<lparr>mi_sequence = seq, mi_mem = m\<rparr> =
   map_option (\<lambda>m. \<lparr>mi_sequence = seq + word_of_nat (length ops), mi_mem = m\<rparr>) (MemTable_Adds new (batch_entries seq ops) m)"
proof (induction ops arbitrary: seq m)
  case (Cons op ops)
  show ?case
  proof (cases op)
    case (Batch_Put k v)
    then show ?thesis using Cons
      by (cases "MemTable_Add new seq kTypeValue k v m") (simp_all add: MemTableInserter_Put_def add.assoc)
  next
    case (Batch_Del k)
    then show ?thesis using Cons
      by (cases "MemTable_Add new seq kTypeDeletion k [] m") (simp_all add: MemTableInserter_Delete_def add.assoc)
  qed
qed simp

lemma InsertInto_batch:
  assumes "\<forall>op\<in>set ops. op_ok op" "length ops < 2 ^ 31"
  shows "InsertInto new (batch_bytes seq ops) m =
    map_option (\<lambda>m. (Status_OK, m)) (MemTable_Adds new (batch_entries seq ops) m)"
  using batch_run_insert [of new ops seq m]
  by (cases "MemTable_Adds new (batch_entries seq ops) m")
    (simp_all add: InsertInto_def Iterate_batch [OF assms] batch_sequence_bytes)

fun batch_op_ok :: "batch_op \<Rightarrow> bool" where
  "batch_op_ok (Batch_Put k v) \<longleftrightarrow> length k + 8 < 2 ^ 32 \<and> length v < 2 ^ 32"
| "batch_op_ok (Batch_Del k) \<longleftrightarrow> length k + 8 < 2 ^ 32"

lemma batch_op_ok_imp: "batch_op_ok op \<Longrightarrow> op_ok op"
  by (cases op) simp_all

lemma seq_Suc:
  assumes "unat (seq :: u64) + length (x # xs) \<le> 2 ^ 56"
  shows "unat (seq + 1) = Suc (unat seq)" "unat (seq + 1) + length xs \<le> 2 ^ 56"
proof -
  show "unat (seq + 1) = Suc (unat seq)" using assms unat_add_lem [of seq 1] by simp
  with assms show "unat (seq + 1) + length xs \<le> 2 ^ 56" by simp
qed

lemma fst_op_entry [simp]: "fst (op_entry seq op) = seq"
  by (cases op) simp_all

lemma batch_entries_bounds:
  assumes "unat seq + length ops \<le> 2 ^ 56" "e \<in> set (batch_entries seq ops)"
  shows "unat seq \<le> unat (fst e) \<and> unat (fst e) < unat seq + length ops"
  using assms
proof (induction ops arbitrary: seq)
  case (Cons op ops)
  note S = seq_Suc [OF Cons.prems(1)]
  show ?case
  proof (cases "e = op_entry seq op")
    case False
    then have "e \<in> set (batch_entries (seq + 1) ops)" using Cons.prems(2) by simp
    then show ?thesis using Cons.IH [OF S(2)] S(1) by simp
  qed simp
qed simp

lemma batch_entries_ok:
  assumes "\<forall>op\<in>set ops. batch_op_ok op" "unat seq + length ops \<le> 2 ^ 56"
  shows "\<forall>e\<in>set (batch_entries seq ops). entry_ok e" "distinct (map fst (batch_entries seq ops))"
  using assms
proof (induction ops arbitrary: seq)
  case (Cons op ops)
  {
    case 1
    then have "\<forall>e\<in>set (batch_entries (seq + 1) ops). entry_ok e" "unat seq < 2 ^ 56"
      using Cons.IH(1) [OF _ seq_Suc(2) [OF 1(2)]] by simp_all
    then show ?case using 1(1) by (cases op) (simp_all add: entry_ok_def seq_bound_unat)
  next
    case 2
    then have "seq \<notin> fst ` set (batch_entries (seq + 1) ops)"
      using batch_entries_bounds [OF seq_Suc(2) [OF 2(2)]] seq_Suc(1) [OF 2(2)] by fastforce
    then show ?case using Cons.IH(2) [OF _ seq_Suc(2) [OF 2(2)]] 2(1) by simp
  }
qed simp_all

text \<open>The last operation of a batch on a key.\<close>

fun last_op :: "bytes \<Rightarrow> batch_op list \<Rightarrow> batch_op option" where
  "last_op u [] = None"
| "last_op u (op # ops) = (case last_op u ops of Some x \<Rightarrow> Some x | None \<Rightarrow> if batch_key op = u then Some op else None)"

lemma batch_entries_last:
  assumes "unat seq + length ops \<le> 2 ^ 56"
  shows "last_op u ops = None \<Longrightarrow> \<forall>(s, t, u', v)\<in>set (batch_entries seq ops). u' \<noteq> u"
    and "last_op u ops = Some op \<Longrightarrow> batch_key op = u \<and> (\<exists>s0. op_entry s0 op \<in> set (batch_entries seq ops) \<and>
        (\<forall>(s, t, u', v)\<in>set (batch_entries seq ops). u' = u \<longrightarrow> s \<le> s0))"
  using assms
proof (induction ops arbitrary: seq)
  case (Cons x ops)
  {
    case 1
    then have "last_op u ops = None" "batch_key x \<noteq> u" by (auto split: option.splits if_splits)
    moreover have "\<forall>(s, t, u', v)\<in>set (batch_entries (seq + 1) ops). u' \<noteq> u"
      by (rule Cons.IH(1) [OF calculation(1) seq_Suc(2) [OF 1(2)]])
    ultimately show ?case by (cases x) auto
  next
    case 2
    show ?case
    proof (cases "last_op u ops")
      case None
      then have "op = x" "batch_key x = u" using 2(1) by (auto split: if_splits)
      moreover have "\<forall>(s, t, u', v)\<in>set (batch_entries (seq + 1) ops). u' \<noteq> u" by (rule Cons.IH(1) [OF None seq_Suc(2) [OF 2(2)]])
      ultimately show ?thesis by (cases x) (auto intro!: exI [of _ seq])
    next
      case (Some y)
      then have "op = y" using 2(1) by simp
      then obtain s0 where s0: "batch_key op = u" "op_entry s0 op \<in> set (batch_entries (seq + 1) ops)"
          "\<forall>(s, t, u', v)\<in>set (batch_entries (seq + 1) ops). u' = u \<longrightarrow> s \<le> s0"
        using Cons.IH(2) [OF _ seq_Suc(2) [OF 2(2)]] Some by blast
      have "seq \<le> s0" using batch_entries_bounds [OF seq_Suc(2) [OF 2(2)] s0(2)] seq_Suc(1) [OF 2(2)] by (simp add: word_le_nat_alt)
      then show ?thesis using s0 by (cases x) auto
    qed
  }
qed simp_all

lemma newest_exists:
  fixes es :: "mem_entry list"
  shows "(\<forall>(s', t, u', v)\<in>set es. u' = u \<longrightarrow> s < s') \<or>
    (\<exists>s0 t0 v0. (s0, t0, u, v0) \<in> set es \<and> s0 \<le> s \<and> (\<forall>(s', t, u', v)\<in>set es. u' = u \<longrightarrow> s' \<le> s0 \<or> s < s'))"
proof -
  let ?S = "{s'. \<exists>t v. (s', t, u, v) \<in> set es \<and> s' \<le> s}"
  have fin: "finite ?S" by (rule finite_subset [of _ "fst ` set es"]) force+
  show ?thesis
  proof (cases "?S = {}")
    case False
    then have "Max ?S \<in> ?S" using fin by (rule Max_in [rotated])
    then obtain s0 t0 v0 where s0: "s0 = Max ?S" "(s0, t0, u, v0) \<in> set es" "s0 \<le> s" by blast
    have "s' \<le> s0 \<or> s < s'" if "(s', t, u, v) \<in> set es" for s' t v
    proof (cases "s' \<le> s")
      case True
      then have "s' \<in> ?S" using that by blast
      then show ?thesis using fin s0(1) by simp
    qed (simp add: not_le)
    then show ?thesis using s0(2,3) by (intro disjI2 exI conjI) auto
  qed (force simp: not_le)
qed

text \<open>C32: a batch takes effect as a whole and in order. It is inserted into a memtable whose versions are all
  older than the sequence number of the batch, and \<open>operator new[]\<close> does not throw. The insertion returns OK, and a lookup at the last
  sequence number of the batch (or later) then sees the last operation of the batch on the key, or, if the
  batch does not touch the key, exactly what the memtable returned before.\<close>

theorem batch_insert_then_get:
  assumes m: "mem_rep m es" and old: "\<forall>e\<in>set es. fst e < seq"
    and ops: "\<forall>op\<in>set ops. batch_op_ok op" "length ops < 2 ^ 31" "unat seq + length ops \<le> 2 ^ 56"
    and s: "s \<le> kMaxSequenceNumber" "unat seq + length ops \<le> unat s + 1" and u: "length u + 8 < 2 ^ 32"
    and heap: "no_bad_alloc new"
  shows "\<exists>m'. InsertInto new (Batch_SetSequence (batch_build ops) seq) m = Some (Status_OK, m') \<and>
    MemTable_Get m' (LookupKey_new u s) val st =
      (case last_op u ops of
         Some (Batch_Put k v) \<Rightarrow> Some (True, v, st)
       | Some (Batch_Del k) \<Rightarrow> Some (True, val, Status_NotFound [] [])
       | None \<Rightarrow> MemTable_Get m (LookupKey_new u s) val st)"
proof -
  let ?fs = "batch_entries seq ops"
  have le: "fst e \<le> s" if "e \<in> set ?fs" for e
    using batch_entries_bounds [OF ops(3) that] s(2) by (simp add: word_le_nat_alt)
  have lt: "fst e' < fst e" if "e \<in> set ?fs" "e' \<in> set es" for e e'
    using batch_entries_bounds [OF ops(3) that(1)] old that(2) by (auto simp: word_less_nat_alt)
  have dist: "distinct (map (\<lambda>(s, t, u, v). (u, s)) (?fs @ es))"
  proof -
    have "distinct (map (\<lambda>(s, t, u, v). (u, s)) ?fs)"
    proof -
      have "map fst ?fs = map snd (map (\<lambda>(s, t, u, v). (u, s)) ?fs)" by auto
      then show ?thesis using batch_entries_ok(2) [OF ops(1,3)] by (metis distinct_map)
    qed
    moreover have "distinct (map (\<lambda>(s, t, u, v). (u, s)) es)" using m by (simp add: mem_rep_def)
    ultimately show ?thesis using lt by fastforce
  qed
  obtain m' where m': "MemTable_Adds new ?fs m = Some m'" "mem_rep m' (rev ?fs @ es)"
    using mem_rep_Adds [OF heap m batch_entries_ok(1) [OF ops(1,3)] dist] by blast
  have run: "InsertInto new (Batch_SetSequence (batch_build ops) seq) m = Some (Status_OK, m')"
    using InsertInto_batch [of ops new seq m] ops(1,2) batch_op_ok_imp m'(1)
    by (simp add: batch_build_bytes batch_sequence_bytes)
  note get = MemTable_Get_correct [OF m'(2) s(1) u, where val = val and st = st]
  note get0 = MemTable_Get_correct [OF m s(1) u, where val = val and st = st]
  have "MemTable_Get m' (LookupKey_new u s) val st = (case last_op u ops of
         Some (Batch_Put k v) \<Rightarrow> Some (True, v, st) | Some (Batch_Del k) \<Rightarrow> Some (True, val, Status_NotFound [] [])
       | None \<Rightarrow> MemTable_Get m (LookupKey_new u s) val st)"
  proof (cases "last_op u ops")
    case None
    then have no: "\<forall>(s', t, u', v)\<in>set ?fs. u' \<noteq> u" using batch_entries_last(1) [OF ops(3)] by blast
    from newest_exists [of es u s] show ?thesis
    proof (elim disjE exE conjE)
      assume "\<forall>(s', t, u', v)\<in>set es. u' = u \<longrightarrow> s < s'"
      with no have "\<forall>(s', t, u', v)\<in>set (rev ?fs @ es). u' = u \<longrightarrow> s < s'" by auto
      with \<open>\<forall>(s', t, u', v)\<in>set es. u' = u \<longrightarrow> s < s'\<close> show ?thesis using get(1) get0(1) None by simp
    next
      fix s0 t0 v0
      assume e: "(s0, t0, u, v0) \<in> set es" "s0 \<le> s" "\<forall>(s', t, u', v)\<in>set es. u' = u \<longrightarrow> s' \<le> s0 \<or> s < s'"
      with no have "\<forall>(s', t, u', v)\<in>set (rev ?fs @ es). u' = u \<longrightarrow> s' \<le> s0 \<or> s < s'" by auto
      then show ?thesis using get(2) [of s0 t0 v0] get0(2) [OF e] e None by simp
    qed
  next
    case (Some op)
    then obtain s0 where s0: "batch_key op = u" "op_entry s0 op \<in> set ?fs"
        "\<forall>(s', t, u', v)\<in>set ?fs. u' = u \<longrightarrow> s' \<le> s0" using batch_entries_last(2) [OF ops(3)] by blast
    have "\<forall>(s', t, u', v)\<in>set (rev ?fs @ es). u' = u \<longrightarrow> s' \<le> s0 \<or> s < s'"
      using s0(3) lt [OF s0(2)] by (fastforce intro: less_imp_le)
    moreover have "s0 \<le> s" using le [OF s0(2)] by simp
    ultimately have g: "(s0, t0, u, v0) \<in> set ?fs \<Longrightarrow>
        MemTable_Get m' (LookupKey_new u s) val st = Some (get_result (s0, t0, u, v0) u val st)" for t0 v0
      using get(2) [of s0 t0 v0] by simp
    show ?thesis using s0(1,2) Some g by (cases op) (auto simp: get_result_def)
  qed
  with run show ?thesis by blast
qed

theorem batch_insert_then_get_witness:
  "\<exists>m m'. MemTable_new endless_new BytewiseComparator (Arena_new 8) = Some m \<and>
     InsertInto endless_new (Batch_SetSequence (batch_build [Batch_Put [1] [5], Batch_Del [2], Batch_Put [1] [6]]) 10) m =
       Some (Status_OK, m') \<and>
     MemTable_Get m' (LookupKey_new [1] 12) [] None = Some (True, [6], None)"
proof -
  obtain m where m: "MemTable_new endless_new BytewiseComparator (Arena_new 8) = Some m" "mem_rep m []"
    using mem_rep_new [OF no_bad_alloc_endless] by blast
  have "\<exists>m'. InsertInto endless_new (Batch_SetSequence (batch_build [Batch_Put [1] [5], Batch_Del [2], Batch_Put [1] [6]]) 10) m =
       Some (Status_OK, m') \<and> MemTable_Get m' (LookupKey_new [1] 12) [] None =
      (case last_op [1] [Batch_Put [1] [5], Batch_Del [2], Batch_Put [1] [6]] of
         Some (Batch_Put k v) \<Rightarrow> Some (True, v, None)
       | Some (Batch_Del k) \<Rightarrow> Some (True, [], Status_NotFound [] [])
       | None \<Rightarrow> MemTable_Get m (LookupKey_new [1] 12) [] None)"
    by (rule batch_insert_then_get [OF m(2)]) (simp_all add: kMaxSequenceNumber_def no_bad_alloc_endless)
  with m(1) show ?thesis by auto
qed

end
