(* ===== verification/App_Database.thy ===== *)
theory App_Database
  imports Main "HOL-Library.Word"
begin

text \<open>
  The local database of the application: the five tables of \<open>src/shared/src/commonMain/sqldelight\<close>, the query
  classes of \<open>databases/sqldelight/queries\<close> and the repositories of \<open>databases/sqldelight\<close>.

  A table is the list of its rows with the counter of its AUTOINCREMENT key; the state also holds the
  value of \<open>last_insert_rowid()\<close>. The tables declare foreign keys but no driver of the application switches
  their enforcement on, so they are not checked. A Kotlin \<open>Long\<close> is a 64-bit word, compared
  signed; a \<open>Double\<close> is carried as its 64 bits, a \<open>String\<close> is its list of UTF-16 units. A column with a JSON text is kept as the value that the text encodes.

  A Kotlin \<open>Flow\<close> is the function that runs it with a given collector, as \<open>Flow.collect\<close> does: a value is
  emitted by calling the collector, so a collector runs inside whatever transaction the emitting
  code has open. An exception is a value of \<open>app_error\<close>. The time of day is an argument of the
  operations that read the clock.
\<close>

section \<open>Entities and rows\<close>

type_synonym long = "64 word"
type_synonym double = "64 word"
type_synonym kstring = "16 word list"

datatype CigarStrength = Mild | MildToMedium | Medium | MediumToFull | Full | Unknown

definition CigarStrength_fromLong :: "long \<Rightarrow> CigarStrength" where
  "CigarStrength_fromLong v =
     (if v = 0 then Mild else if v = 1 then MildToMedium else if v = 2 then Medium
      else if v = 3 then MediumToFull else if v = 4 then Full else Unknown)"

fun CigarStrength_toLong :: "CigarStrength \<Rightarrow> long" where
  "CigarStrength_toLong Mild = 0"
| "CigarStrength_toLong MildToMedium = 1"
| "CigarStrength_toLong Medium = 2"
| "CigarStrength_toLong MediumToFull = 3"
| "CigarStrength_toLong Full = 4"
| "CigarStrength_toLong Unknown = 5"

datatype HistoryType = Addition | Deletion | Move

fun HistoryType_type :: "HistoryType \<Rightarrow> long" where
  "HistoryType_type Addition = 0"
| "HistoryType_type Deletion = 1"
| "HistoryType_type Move = 2"

definition HistoryType_fromLong :: "long \<Rightarrow> HistoryType" where
  "HistoryType_fromLong v = (if v = 0 then Addition else if v = 1 then Deletion else if v = 2 then Move else Addition)"

record Relations =
  rel_source :: kstring
  rel_id :: long

record Cigar =
  cig_rowid :: long
  cig_name :: kstring
  cig_brand :: "kstring option"
  cig_country :: "kstring option"
  cig_date :: "long option"
  cig_cigar :: kstring
  cig_wrapper :: kstring
  cig_binder :: kstring
  cig_gauge :: long
  cig_length :: kstring
  cig_strength :: CigarStrength
  cig_rating :: "long option"
  cig_myrating :: "long option"
  cig_notes :: "kstring option"
  cig_filler :: kstring
  cig_link :: "kstring option"
  cig_count :: long
  cig_shopping :: bool
  cig_favorites :: bool
  cig_price :: "double option"
  cig_other :: "long option"
  cig_relations :: "Relations list option"

record CigarsTable =
  ct_rowid :: long
  ct_name :: kstring
  ct_brand :: "kstring option"
  ct_country :: "kstring option"
  ct_date :: "long option"
  ct_cigar :: kstring
  ct_wrapper :: kstring
  ct_binder :: kstring
  ct_gauge :: long
  ct_length :: kstring
  ct_strength :: long
  ct_rating :: "long option"
  ct_myrating :: "long option"
  ct_notes :: "kstring option"
  ct_filler :: kstring
  ct_link :: "kstring option"
  ct_count :: long
  ct_shopping :: bool
  ct_favorites :: bool
  ct_price :: "double option"
  ct_other :: "long option"
  ct_relations :: "Relations list option"

record Humidor =
  hum_rowid :: long
  hum_name :: kstring
  hum_brand :: kstring
  hum_holds :: long
  hum_count :: long
  hum_temperature :: "long option"
  hum_humidity :: "double option"
  hum_notes :: "kstring option"
  hum_link :: "kstring option"
  hum_price :: "double option"
  hum_autoOpen :: bool
  hum_sorting :: "long option"
  hum_type :: long
  hum_other :: "long option"

record HumidorsTable =
  ht_rowid :: long
  ht_name :: kstring
  ht_brand :: kstring
  ht_holds :: long
  ht_count :: long
  ht_temperature :: "long option"
  ht_humidity :: "double option"
  ht_notes :: "kstring option"
  ht_link :: "kstring option"
  ht_price :: "double option"
  ht_autoOpen :: "bool option"
  ht_sorting :: "long option"
  ht_type :: long
  ht_other :: "long option"

text \<open>A \<open>HumidorCigar\<close> gets the row number -1 when it is constructed or copied.\<close>

record HumidorCigar =
  hc_count :: long
  hc_humidor :: Humidor
  hc_cigar :: Cigar
  hc_rowid :: long

text \<open>\<open>cht_rowid\<close> is the implicit key of a table without an INTEGER PRIMARY KEY.\<close>

record CigarHumidorTable =
  cht_rowid :: long
  cht_count :: long
  cht_humidorId :: long
  cht_cigarId :: long

record History =
  his_rowid :: long
  his_count :: long
  his_date :: long
  his_left :: long
  his_price :: "double option"
  his_type :: HistoryType
  his_cigar :: "Cigar option"
  his_humidorFrom :: Humidor
  his_humidorTo :: Humidor

record HistoryTable =
  hist_rowid :: long
  hist_count :: long
  hist_date :: long
  hist_left :: long
  hist_price :: "double option"
  hist_type :: long
  hist_cigarId :: "long option"
  hist_humidorTo :: long
  hist_humidorFrom :: long

record CigarImage =
  img_rowid :: long
  img_image :: "kstring option"
  img_bytes :: "8 word list"
  img_notes :: "kstring option"
  img_type :: "long option"
  img_cigarId :: "long option"
  img_humidorId :: "long option"

record db =
  db_cigars :: "CigarsTable list"
  db_cigars_seq :: nat
  db_humidors :: "HumidorsTable list"
  db_humidors_seq :: nat
  db_cigar_humidors :: "CigarHumidorTable list"
  db_history :: "HistoryTable list"
  db_history_seq :: nat
  db_images :: "CigarImage list"
  db_images_seq :: nat
  db_last_insert_rowid :: long

definition db_empty :: db where
  "db_empty = \<lparr>db_cigars = [], db_cigars_seq = 0, db_humidors = [], db_humidors_seq = 0, db_cigar_humidors = [],
     db_history = [], db_history_seq = 0, db_images = [], db_images_seq = 0, db_last_insert_rowid = 0\<rparr>"

section \<open>Effects\<close>

datatype app_error =
  NoResult
| TooManyResults
| NullPointer
| SqlFull
| ConstraintViolation
| EntityExists
| EntityMissing
| StringIndexOutOfBounds
| Downstream app_error

text \<open>A suspending block: the exception it throws, if any, and the new state.\<close>

type_synonym action = "db \<Rightarrow> app_error option \<times> db"

type_synonym 'a query = "db \<Rightarrow> app_error + 'a list"

definition executeAsList :: "'a query \<Rightarrow> db \<Rightarrow> app_error + 'a list" where
  "executeAsList q db = q db"

definition executeAsOne :: "'a query \<Rightarrow> db \<Rightarrow> app_error + 'a" where
  "executeAsOne q db =
     (case q db of
        Inl e \<Rightarrow> Inl e
      | Inr [] \<Rightarrow> Inl NoResult
      | Inr [x] \<Rightarrow> Inr x
      | Inr (_ # _ # _) \<Rightarrow> Inl TooManyResults)"

definition executeAsOneOrNull :: "'a query \<Rightarrow> db \<Rightarrow> app_error + 'a option" where
  "executeAsOneOrNull q db =
     (case q db of
        Inl e \<Rightarrow> Inl e
      | Inr [] \<Rightarrow> Inr None
      | Inr [x] \<Rightarrow> Inr (Some x)
      | Inr (_ # _ # _) \<Rightarrow> Inl TooManyResults)"

definition return_unit :: action where
  "return_unit db = (None, db)"

definition throw :: "app_error \<Rightarrow> action" where
  "throw e db = (Some e, db)"

definition modify :: "(db \<Rightarrow> db) \<Rightarrow> action" where
  "modify f db = (None, f db)"

definition and_then :: "action \<Rightarrow> action \<Rightarrow> action" where
  "and_then a b db = (case a db of (Some e, db) \<Rightarrow> (Some e, db) | (None, db) \<Rightarrow> b db)"

definition reading :: "(db \<Rightarrow> app_error + 'a) \<Rightarrow> ('a \<Rightarrow> action) \<Rightarrow> action" where
  "reading r k db = (case r db of Inl e \<Rightarrow> (Some e, db) | Inr x \<Rightarrow> k x db)"

text \<open>An exception rolls the tables back; \<open>last_insert_rowid()\<close> keeps its value.\<close>

definition transactionWithResult :: "action \<Rightarrow> action" where
  "transactionWithResult body db =
     (case body db of
        (Some e, db') \<Rightarrow> (Some e, db\<lparr>db_last_insert_rowid := db_last_insert_rowid db'\<rparr>)
      | (None, db') \<Rightarrow> (None, db'))"

subsection \<open>Flows\<close>

type_synonym 'a flow = "('a \<Rightarrow> action) \<Rightarrow> action"

definition flowOf :: "'a \<Rightarrow> 'a flow" where
  "flowOf v emit = emit v"

definition flatMapConcat :: "'a flow \<Rightarrow> ('a \<Rightarrow> 'b flow) \<Rightarrow> 'b flow" where
  "flatMapConcat m f emit = m (\<lambda>v. f v emit)"

text \<open>\<open>catch\<close> handles the exceptions of the flow above it; those of the collector pass through.\<close>

definition catch :: "'a flow \<Rightarrow> 'a flow" where
  "catch m emit db =
     (case m (\<lambda>v db. case emit v db of (Some e, db) \<Rightarrow> (Some (Downstream e), db) | (None, db) \<Rightarrow> (None, db)) db of
        (None, db) \<Rightarrow> (None, db)
      | (Some (Downstream e), db) \<Rightarrow> (Some e, db)
      | (Some _, db) \<Rightarrow> (None, db))"

definition collect :: "'a flow \<Rightarrow> action" where
  "collect m = m (\<lambda>_. return_unit)"

subsection \<open>Printing an entity\<close>

text \<open>
  The repositories print entities into their log messages and into the texts of their exceptions. Of \<open>toString\<close> only
  the exception matters here: \<open>Humidor.toString\<close> takes the first ten characters of the notes and of the
  link, whatever their length. The \<open>toString\<close> of \<open>HumidorCigar\<close> is the generated one and prints the humidor.
\<close>

definition substring :: "kstring \<Rightarrow> nat \<Rightarrow> nat \<Rightarrow> app_error + kstring" where
  "substring s i j = (if i \<le> j \<and> j \<le> length s then Inr (take (j - i) (drop i s)) else Inl StringIndexOutOfBounds)"

definition prefix_error :: "kstring option \<Rightarrow> app_error option" where
  "prefix_error s =
     (case s of None \<Rightarrow> None | Some it \<Rightarrow> (case substring it 0 10 of Inl e \<Rightarrow> Some e | Inr _ \<Rightarrow> None))"

definition Humidor_toString_error :: "Humidor \<Rightarrow> app_error option" where
  "Humidor_toString_error h = (case prefix_error (hum_notes h) of Some e \<Rightarrow> Some e | None \<Rightarrow> prefix_error (hum_link h))"

definition HumidorCigar_toString_error :: "HumidorCigar \<Rightarrow> app_error option" where
  "HumidorCigar_toString_error hc = Humidor_toString_error (hc_humidor hc)"

definition log_message :: "app_error option \<Rightarrow> action" where
  "log_message printed db = (printed, db)"

section \<open>The queries\<close>

text \<open>The next key of an AUTOINCREMENT table, \<open>None\<close> when the largest one has been used.\<close>

definition next_rowid :: "nat \<Rightarrow> long option" where
  "next_rowid seq = (if Suc seq < 2 ^ 63 then Some (word_of_nat (Suc seq)) else None)"

subsection \<open>CigarsTable\<close>

definition cigarFactory :: "CigarsTable \<Rightarrow> Cigar" where
  "cigarFactory r =
     \<lparr>cig_rowid = ct_rowid r, cig_name = ct_name r, cig_brand = ct_brand r, cig_country = ct_country r,
      cig_date = ct_date r, cig_cigar = ct_cigar r, cig_wrapper = ct_wrapper r, cig_binder = ct_binder r,
      cig_gauge = ct_gauge r, cig_length = ct_length r, cig_strength = CigarStrength_fromLong (ct_strength r),
      cig_rating = ct_rating r, cig_myrating = ct_myrating r, cig_notes = ct_notes r, cig_filler = ct_filler r,
      cig_link = ct_link r, cig_count = ct_count r, cig_shopping = ct_shopping r, cig_favorites = ct_favorites r,
      cig_price = ct_price r, cig_other = ct_other r, cig_relations = ct_relations r\<rparr>"

definition cigar_row :: "long \<Rightarrow> Cigar \<Rightarrow> CigarsTable" where
  "cigar_row rowid c =
     \<lparr>ct_rowid = rowid, ct_name = cig_name c, ct_brand = cig_brand c, ct_country = cig_country c,
      ct_date = cig_date c, ct_cigar = cig_cigar c, ct_wrapper = cig_wrapper c, ct_binder = cig_binder c,
      ct_gauge = cig_gauge c, ct_length = cig_length c, ct_strength = CigarStrength_toLong (cig_strength c),
      ct_rating = cig_rating c, ct_myrating = cig_myrating c, ct_notes = cig_notes c, ct_filler = cig_filler c,
      ct_link = cig_link c, ct_count = cig_count c, ct_shopping = cig_shopping c, ct_favorites = cig_favorites c,
      ct_price = cig_price c, ct_other = cig_other c, ct_relations = cig_relations c\<rparr>"

definition cigars_get :: "long \<Rightarrow> Cigar query" where
  "cigars_get rid db = Inr (map cigarFactory (filter (\<lambda>r. ct_rowid r = rid) (db_cigars db)))"

definition cigars_contains :: "long \<Rightarrow> db \<Rightarrow> bool" where
  "cigars_contains rid db \<longleftrightarrow> length (filter (\<lambda>r. ct_rowid r = rid) (db_cigars db)) \<noteq> 0"

definition cigars_count :: "bool \<Rightarrow> db \<Rightarrow> nat" where
  "cigars_count favorites db = length (filter (\<lambda>r. ct_favorites r = favorites) (db_cigars db))"

definition cigars_add :: "Cigar \<Rightarrow> action" where
  "cigars_add c db =
     (case next_rowid (db_cigars_seq db) of
        None \<Rightarrow> (Some SqlFull, db)
      | Some key \<Rightarrow> (None, db\<lparr>db_cigars := db_cigars db @ [cigar_row key c], db_cigars_seq := Suc (db_cigars_seq db),
                        db_last_insert_rowid := key\<rparr>))"

definition cigars_update :: "Cigar \<Rightarrow> action" where
  "cigars_update c =
     modify (\<lambda>db. db\<lparr>db_cigars := map (\<lambda>r. if ct_rowid r = cig_rowid c then cigar_row (ct_rowid r) c else r) (db_cigars db)\<rparr>)"

definition cigars_remove :: "long \<Rightarrow> action" where
  "cigars_remove rid = modify (\<lambda>db. db\<lparr>db_cigars := filter (\<lambda>r. ct_rowid r \<noteq> rid) (db_cigars db)\<rparr>)"

definition cigars_setFavorite :: "bool \<Rightarrow> long \<Rightarrow> action" where
  "cigars_setFavorite v rid =
     modify (\<lambda>db. db\<lparr>db_cigars := map (\<lambda>r. if ct_rowid r = rid then r\<lparr>ct_favorites := v\<rparr> else r) (db_cigars db)\<rparr>)"

definition cigars_setRating :: "long \<Rightarrow> long \<Rightarrow> action" where
  "cigars_setRating v rid =
     modify (\<lambda>db. db\<lparr>db_cigars := map (\<lambda>r. if ct_rowid r = rid then r\<lparr>ct_myrating := Some v\<rparr> else r) (db_cigars db)\<rparr>)"

subsection \<open>HumidorsTable\<close>

definition humidorFactory :: "HumidorsTable \<Rightarrow> Humidor" where
  "humidorFactory r =
     \<lparr>hum_rowid = ht_rowid r, hum_name = ht_name r, hum_brand = ht_brand r, hum_holds = ht_holds r,
      hum_count = ht_count r, hum_temperature = ht_temperature r, hum_humidity = ht_humidity r, hum_notes = ht_notes r,
      hum_link = ht_link r, hum_price = ht_price r, hum_autoOpen = (ht_autoOpen r = Some True),
      hum_sorting = ht_sorting r, hum_type = ht_type r, hum_other = ht_other r\<rparr>"

definition humidors_get :: "long \<Rightarrow> Humidor query" where
  "humidors_get rid db = Inr (map humidorFactory (filter (\<lambda>r. ht_rowid r = rid) (db_humidors db)))"

definition humidors_contains :: "long \<Rightarrow> db \<Rightarrow> bool" where
  "humidors_contains rid db \<longleftrightarrow> length (filter (\<lambda>r. ht_rowid r = rid) (db_humidors db)) \<noteq> 0"

text \<open>The INSERT and the UPDATE name neither \<open>price\<close> nor \<open>other\<close>.\<close>

definition humidors_add :: "Humidor \<Rightarrow> action" where
  "humidors_add h db =
     (case next_rowid (db_humidors_seq db) of
        None \<Rightarrow> (Some SqlFull, db)
      | Some key \<Rightarrow>
          (None, db\<lparr>db_humidors := db_humidors db @
              [\<lparr>ht_rowid = key, ht_name = hum_name h, ht_brand = hum_brand h, ht_holds = hum_holds h, ht_count = hum_count h,
                ht_temperature = hum_temperature h, ht_humidity = hum_humidity h, ht_notes = hum_notes h,
                ht_link = hum_link h, ht_price = None, ht_autoOpen = Some (hum_autoOpen h), ht_sorting = hum_sorting h,
                ht_type = hum_type h, ht_other = None\<rparr>],
              db_humidors_seq := Suc (db_humidors_seq db), db_last_insert_rowid := key\<rparr>))"

definition humidors_update :: "Humidor \<Rightarrow> action" where
  "humidors_update h =
     modify (\<lambda>db. db\<lparr>db_humidors := map (\<lambda>r. if ht_rowid r = hum_rowid h
         then r\<lparr>ht_name := hum_name h, ht_brand := hum_brand h, ht_holds := hum_holds h, ht_count := hum_count h,
                ht_temperature := hum_temperature h, ht_humidity := hum_humidity h, ht_notes := hum_notes h,
                ht_link := hum_link h, ht_autoOpen := Some (hum_autoOpen h), ht_sorting := hum_sorting h,
                ht_type := hum_type h\<rparr>
         else r) (db_humidors db)\<rparr>)"

definition humidors_updateCigarsCount :: "long \<Rightarrow> long \<Rightarrow> action" where
  "humidors_updateCigarsCount count rid =
     modify (\<lambda>db. db\<lparr>db_humidors := map (\<lambda>r. if ht_rowid r = rid then r\<lparr>ht_count := count\<rparr> else r) (db_humidors db)\<rparr>)"

definition humidors_remove :: "long \<Rightarrow> action" where
  "humidors_remove rid = modify (\<lambda>db. db\<lparr>db_humidors := filter (\<lambda>r. ht_rowid r \<noteq> rid) (db_humidors db)\<rparr>)"

subsection \<open>CigarHumidorTable\<close>

fun map_results :: "('a \<Rightarrow> app_error + 'b) \<Rightarrow> 'a list \<Rightarrow> app_error + 'b list" where
  "map_results f [] = Inr []"
| "map_results f (x # xs) =
     (case f x of
        Inl e \<Rightarrow> Inl e
      | Inr y \<Rightarrow> (case map_results f xs of Inl e \<Rightarrow> Inl e | Inr ys \<Rightarrow> Inr (y # ys)))"

definition humidorCigarFactory :: "db \<Rightarrow> CigarHumidorTable \<Rightarrow> app_error + HumidorCigar" where
  "humidorCigarFactory db r =
     (case executeAsOne (humidors_get (cht_humidorId r)) db of
        Inl e \<Rightarrow> Inl e
      | Inr humidor \<Rightarrow>
          (case executeAsOne (cigars_get (cht_cigarId r)) db of
             Inl e \<Rightarrow> Inl e
           | Inr cigar \<Rightarrow> Inr \<lparr>hc_count = cht_count r, hc_humidor = humidor, hc_cigar = cigar, hc_rowid = -1\<rparr>))"

definition cigar_humidors_get :: "long \<Rightarrow> long \<Rightarrow> HumidorCigar query" where
  "cigar_humidors_get humidorId cigarId db =
     map_results (humidorCigarFactory db)
       (filter (\<lambda>r. cht_humidorId r = humidorId \<and> cht_cigarId r = cigarId) (db_cigar_humidors db))"

definition cigar_humidors_contains :: "long \<Rightarrow> long \<Rightarrow> db \<Rightarrow> bool" where
  "cigar_humidors_contains humidorId cigarId db \<longleftrightarrow>
     length (filter (\<lambda>r. cht_humidorId r = humidorId \<and> cht_cigarId r = cigarId) (db_cigar_humidors db)) \<noteq> 0"

definition sql_humidorsCount :: "long \<Rightarrow> db \<Rightarrow> nat" where
  "sql_humidorsCount rid db = length (filter (\<lambda>r. cht_cigarId r = rid) (db_cigar_humidors db))"

definition sql_cigarsCount :: "long \<Rightarrow> db \<Rightarrow> nat" where
  "sql_cigarsCount rid db = length (filter (\<lambda>r. cht_humidorId r = rid) (db_cigar_humidors db))"

text \<open>The argument that selects the rows of a repository.\<close>

datatype id_arg = CIGAR_ID long | HUMIDOR_ID long

definition cigar_humidors_count :: "id_arg \<Rightarrow> db \<Rightarrow> nat" where
  "cigar_humidors_count a db =
     (case a of CIGAR_ID key \<Rightarrow> sql_cigarsCount key db | HUMIDOR_ID key \<Rightarrow> sql_humidorsCount key db)"

text \<open>A table without an INTEGER PRIMARY KEY numbers a new row one above the largest number in use.\<close>

definition next_implicit_rowid :: "CigarHumidorTable list \<Rightarrow> long" where
  "next_implicit_rowid rows = fold (\<lambda>r m. if sint m < sint (cht_rowid r) then cht_rowid r else m) rows 0 + 1"

definition cigar_humidors_add :: "HumidorCigar \<Rightarrow> action" where
  "cigar_humidors_add hc db =
     (let humidorId = hum_rowid (hc_humidor hc); cigarId = cig_rowid (hc_cigar hc)
      in if cigar_humidors_contains humidorId cigarId db then (Some ConstraintViolation, db)
         else let key = next_implicit_rowid (db_cigar_humidors db)
              in (None, db\<lparr>db_cigar_humidors := db_cigar_humidors db @
                     [\<lparr>cht_rowid = key, cht_count = hc_count hc, cht_humidorId = humidorId, cht_cigarId = cigarId\<rparr>],
                   db_last_insert_rowid := key\<rparr>))"

definition cigar_humidors_update :: "HumidorCigar \<Rightarrow> action" where
  "cigar_humidors_update hc =
     modify (\<lambda>db. db\<lparr>db_cigar_humidors := map (\<lambda>r.
         if cht_humidorId r = hum_rowid (hc_humidor hc) \<and> cht_cigarId r = cig_rowid (hc_cigar hc)
         then r\<lparr>cht_count := hc_count hc\<rparr> else r) (db_cigar_humidors db)\<rparr>)"

definition cigar_humidors_remove :: "long \<Rightarrow> long \<Rightarrow> action" where
  "cigar_humidors_remove humidorId cigarId =
     modify (\<lambda>db. db\<lparr>db_cigar_humidors :=
       filter (\<lambda>r. \<not> (cht_humidorId r = humidorId \<and> cht_cigarId r = cigarId)) (db_cigar_humidors db)\<rparr>)"

subsection \<open>HistoryTable\<close>

definition historyFactory :: "db \<Rightarrow> HistoryTable \<Rightarrow> app_error + History" where
  "historyFactory db r =
     (case executeAsOne (humidors_get (hist_humidorTo r)) db of
        Inl e \<Rightarrow> Inl e
      | Inr humTo \<Rightarrow>
     (case executeAsOne (humidors_get (hist_humidorFrom r)) db of
        Inl e \<Rightarrow> Inl e
      | Inr humFrom \<Rightarrow>
     (case (case hist_cigarId r of
              None \<Rightarrow> Inr None
            | Some key \<Rightarrow> (case executeAsOne (cigars_get key) db of Inl e \<Rightarrow> Inl e | Inr c \<Rightarrow> Inr (Some c))) of
        Inl e \<Rightarrow> Inl e
      | Inr cigar \<Rightarrow>
          Inr \<lparr>his_rowid = hist_rowid r, his_count = hist_count r, his_date = hist_date r, his_left = hist_left r,
               his_price = hist_price r, his_type = HistoryType_fromLong (hist_type r), his_cigar = cigar,
               his_humidorFrom = humTo, his_humidorTo = humFrom\<rparr>)))"

definition history_get :: "long \<Rightarrow> History query" where
  "history_get rid db = map_results (historyFactory db) (filter (\<lambda>r. hist_rowid r = rid) (db_history db))"

definition history_contains :: "long \<Rightarrow> db \<Rightarrow> bool" where
  "history_contains rid db \<longleftrightarrow> length (filter (\<lambda>r. hist_rowid r = rid) (db_history db)) \<noteq> 0"

text \<open>The statements bind their last two columns in the order \<open>humidorTo\<close>, \<open>humidorFrom\<close>, the callers pass the humidors
  in the order \<open>humidorFrom\<close>, \<open>humidorTo\<close>.\<close>

definition history_add :: "History \<Rightarrow> action" where
  "history_add h db =
     (case next_rowid (db_history_seq db) of
        None \<Rightarrow> (Some SqlFull, db)
      | Some key \<Rightarrow>
          (None, db\<lparr>db_history := db_history db @
              [\<lparr>hist_rowid = key, hist_count = his_count h, hist_date = his_date h, hist_left = his_left h,
                hist_price = his_price h, hist_type = HistoryType_type (his_type h),
                hist_cigarId = map_option cig_rowid (his_cigar h),
                hist_humidorTo = hum_rowid (his_humidorFrom h), hist_humidorFrom = hum_rowid (his_humidorTo h)\<rparr>],
              db_history_seq := Suc (db_history_seq db), db_last_insert_rowid := key\<rparr>))"

definition history_update :: "History \<Rightarrow> action" where
  "history_update h =
     modify (\<lambda>db. db\<lparr>db_history := map (\<lambda>r. if hist_rowid r = his_rowid h
         then r\<lparr>hist_count := his_count h, hist_date := his_date h, hist_left := his_left h, hist_price := his_price h,
                hist_type := HistoryType_type (his_type h), hist_cigarId := map_option cig_rowid (his_cigar h),
                hist_humidorTo := hum_rowid (his_humidorFrom h), hist_humidorFrom := hum_rowid (his_humidorTo h)\<rparr>
         else r) (db_history db)\<rparr>)"

definition history_remove :: "long \<Rightarrow> action" where
  "history_remove rid = modify (\<lambda>db. db\<lparr>db_history := filter (\<lambda>r. hist_rowid r \<noteq> rid) (db_history db)\<rparr>)"

definition history_count :: "id_arg \<Rightarrow> db \<Rightarrow> nat" where
  "history_count a db =
     (case a of
        CIGAR_ID key \<Rightarrow> length (filter (\<lambda>r. hist_cigarId r = Some key) (db_history db))
      | HUMIDOR_ID key \<Rightarrow> length (filter (\<lambda>r. hist_humidorTo r = key \<or> hist_humidorFrom r = key) (db_history db)))"

definition history_all :: "bool \<Rightarrow> id_arg \<Rightarrow> History query" where
  "history_all accenting a db =
     (let rows = filter (\<lambda>r. case a of CIGAR_ID key \<Rightarrow> hist_cigarId r = Some key
                          | HUMIDOR_ID key \<Rightarrow> hist_humidorTo r = key \<or> hist_humidorFrom r = key) (db_history db)
      in map_results (historyFactory db)
           (if \<not> accenting then sort_key (\<lambda>r. sint (hist_date r)) rows
            else sort_key (\<lambda>r. - sint (hist_date r)) rows))"

subsection \<open>ImagesTable\<close>

definition images_get :: "long \<Rightarrow> CigarImage query" where
  "images_get rid db = Inr (filter (\<lambda>r. img_rowid r = rid) (db_images db))"

definition images_contains :: "long \<Rightarrow> db \<Rightarrow> bool" where
  "images_contains rid db \<longleftrightarrow> length (filter (\<lambda>r. img_rowid r = rid) (db_images db)) \<noteq> 0"

definition images_add :: "CigarImage \<Rightarrow> action" where
  "images_add i db =
     (case next_rowid (db_images_seq db) of
        None \<Rightarrow> (Some SqlFull, db)
      | Some key \<Rightarrow> (None, db\<lparr>db_images := db_images db @ [i\<lparr>img_rowid := key\<rparr>], db_images_seq := Suc (db_images_seq db),
                        db_last_insert_rowid := key\<rparr>))"

definition images_update :: "CigarImage \<Rightarrow> action" where
  "images_update i =
     modify (\<lambda>db. db\<lparr>db_images := map (\<lambda>r. if img_rowid r = img_rowid i
         then r\<lparr>img_bytes := img_bytes i, img_type := img_type i, img_image := img_image i, img_notes := img_notes i\<rparr>
         else r) (db_images db)\<rparr>)"

definition images_remove :: "long \<Rightarrow> action" where
  "images_remove rid = modify (\<lambda>db. db\<lparr>db_images := filter (\<lambda>r. img_rowid r \<noteq> rid) (db_images db)\<rparr>)"

definition images_count :: "id_arg \<Rightarrow> db \<Rightarrow> nat" where
  "images_count a db =
     (case a of
        CIGAR_ID key \<Rightarrow> length (filter (\<lambda>r. img_cigarId r = Some key) (db_images db))
      | HUMIDOR_ID key \<Rightarrow> length (filter (\<lambda>r. img_humidorId r = Some key) (db_images db)))"

definition images_all :: "id_arg \<Rightarrow> CigarImage query" where
  "images_all a db =
     Inr (case a of
        CIGAR_ID key \<Rightarrow> filter (\<lambda>r. img_cigarId r = Some key) (db_images db)
      | HUMIDOR_ID key \<Rightarrow> filter (\<lambda>r. img_humidorId r = Some key) (db_images db))"

definition database_reset :: action where
  "database_reset = modify (\<lambda>db. db\<lparr>db_cigars := [], db_humidors := [], db_images := [], db_cigar_humidors := [],
     db_history := []\<rparr>)"

section \<open>The base repository\<close>

text \<open>The interface of the query classes, with the row number of an entity.\<close>

record 'a DatabaseQueries =
  dq_toString :: "'a \<Rightarrow> app_error option"
  dq_rowid :: "'a \<Rightarrow> long"
  dq_set_rowid :: "long \<Rightarrow> 'a \<Rightarrow> 'a"
  dq_get :: "long \<Rightarrow> long option \<Rightarrow> 'a query"
  dq_find :: "long \<Rightarrow> long option \<Rightarrow> 'a query"
  dq_contains :: "long \<Rightarrow> long option \<Rightarrow> db \<Rightarrow> app_error + bool"
  dq_contains_entity :: "'a \<Rightarrow> db \<Rightarrow> app_error + bool"
  dq_add :: "'a \<Rightarrow> action"
  dq_update :: "'a \<Rightarrow> action"
  dq_remove :: "long \<Rightarrow> long option \<Rightarrow> action"

definition CigarsTableQueries :: "Cigar DatabaseQueries" where
  "CigarsTableQueries =
     \<lparr>dq_toString = (\<lambda>_. None), dq_rowid = cig_rowid, dq_set_rowid = (\<lambda>rid c. c\<lparr>cig_rowid := rid\<rparr>),
      dq_get = (\<lambda>rid _. cigars_get rid), dq_find = (\<lambda>rid _. cigars_get rid),
      dq_contains = (\<lambda>rid _ db. Inr (cigars_contains rid db)),
      dq_contains_entity = (\<lambda>c db. Inr (cigars_contains (cig_rowid c) db)),
      dq_add = cigars_add, dq_update = cigars_update, dq_remove = (\<lambda>rid _. cigars_remove rid)\<rparr>"

definition HumidorsTableQueries :: "Humidor DatabaseQueries" where
  "HumidorsTableQueries =
     \<lparr>dq_toString = Humidor_toString_error, dq_rowid = hum_rowid, dq_set_rowid = (\<lambda>rid h. h\<lparr>hum_rowid := rid\<rparr>),
      dq_get = (\<lambda>rid _. humidors_get rid), dq_find = (\<lambda>rid _. humidors_get rid),
      dq_contains = (\<lambda>rid _ db. Inr (humidors_contains rid db)),
      dq_contains_entity = (\<lambda>h db. Inr (humidors_contains (hum_rowid h) db)),
      dq_add = humidors_add, dq_update = humidors_update, dq_remove = (\<lambda>rid _. humidors_remove rid)\<rparr>"

definition CigarHumidorTableQueries :: "HumidorCigar DatabaseQueries" where
  "CigarHumidorTableQueries =
     \<lparr>dq_toString = HumidorCigar_toString_error, dq_rowid = hc_rowid, dq_set_rowid = (\<lambda>rid h. h\<lparr>hc_rowid := rid\<rparr>),
      dq_get = (\<lambda>rid w. case w of None \<Rightarrow> \<lambda>_. Inl NullPointer | Some w \<Rightarrow> cigar_humidors_get rid w),
      dq_find = (\<lambda>rid w. case w of None \<Rightarrow> \<lambda>_. Inl NullPointer | Some w \<Rightarrow> cigar_humidors_get rid w),
      dq_contains = (\<lambda>rid w db. case w of None \<Rightarrow> Inl NullPointer | Some w \<Rightarrow> Inr (cigar_humidors_contains rid w db)),
      dq_contains_entity = (\<lambda>h db. Inr (cigar_humidors_contains (hum_rowid (hc_humidor h)) (cig_rowid (hc_cigar h)) db)),
      dq_add = cigar_humidors_add, dq_update = cigar_humidors_update,
      dq_remove = (\<lambda>rid w. case w of None \<Rightarrow> throw NullPointer | Some w \<Rightarrow> cigar_humidors_remove rid w)\<rparr>"

definition HistoryTableQueries :: "History DatabaseQueries" where
  "HistoryTableQueries =
     \<lparr>dq_toString = (\<lambda>_. None), dq_rowid = his_rowid, dq_set_rowid = (\<lambda>rid h. h\<lparr>his_rowid := rid\<rparr>),
      dq_get = (\<lambda>rid _. history_get rid), dq_find = (\<lambda>rid _. history_get rid),
      dq_contains = (\<lambda>rid _ db. Inr (history_contains rid db)),
      dq_contains_entity = (\<lambda>h db. Inr (history_contains (his_rowid h) db)),
      dq_add = history_add, dq_update = history_update, dq_remove = (\<lambda>rid _. history_remove rid)\<rparr>"

definition ImagesTableQueries :: "CigarImage DatabaseQueries" where
  "ImagesTableQueries =
     \<lparr>dq_toString = (\<lambda>_. None), dq_rowid = img_rowid, dq_set_rowid = (\<lambda>rid i. i\<lparr>img_rowid := rid\<rparr>),
      dq_get = (\<lambda>rid _. images_get rid), dq_find = (\<lambda>rid _. images_get rid),
      dq_contains = (\<lambda>rid _ db. Inr (images_contains rid db)),
      dq_contains_entity = (\<lambda>i db. Inr (images_contains (img_rowid i) db)),
      dq_add = images_add, dq_update = images_update, dq_remove = (\<lambda>rid _. images_remove rid)\<rparr>"

definition Base_getSync :: "'a DatabaseQueries \<Rightarrow> long \<Rightarrow> db \<Rightarrow> app_error + 'a" where
  "Base_getSync wrapper rid db = executeAsOne (dq_get wrapper rid None) db"

definition Base_find :: "'a DatabaseQueries \<Rightarrow> long \<Rightarrow> long option \<Rightarrow> db \<Rightarrow> app_error + 'a option" where
  "Base_find wrapper rid w db = executeAsOneOrNull (dq_find wrapper rid w) db"

definition Base_add :: "'a DatabaseQueries \<Rightarrow> 'a \<Rightarrow> 'a flow" where
  "Base_add wrapper entity emit =
     reading (\<lambda>db. if sint (dq_rowid wrapper entity) < 0 then Inr False else dq_contains_entity wrapper entity db)
       (\<lambda>present.
          if \<not> present
          then transactionWithResult
                 (and_then (dq_add wrapper entity)
                    (reading (\<lambda>db. Inr (db_last_insert_rowid db)) (\<lambda>key.
                       let entity = dq_set_rowid wrapper key entity
                       in and_then (log_message (dq_toString wrapper entity)) (emit entity))))
          else and_then (log_message (dq_toString wrapper entity)) (throw EntityExists))"

definition Base_update :: "'a DatabaseQueries \<Rightarrow> 'a \<Rightarrow> 'a flow" where
  "Base_update wrapper entity emit =
     reading (dq_contains_entity wrapper entity)
       (\<lambda>present. if present then and_then (dq_update wrapper entity) (emit entity)
          else and_then (log_message (dq_toString wrapper entity)) (throw EntityMissing))"

definition Base_remove :: "'a DatabaseQueries \<Rightarrow> long \<Rightarrow> long option \<Rightarrow> bool flow" where
  "Base_remove wrapper rid w emit =
     reading (dq_contains wrapper rid w)
       (\<lambda>idExists. if idExists then and_then (dq_remove wrapper rid w) (emit True) else throw EntityMissing)"

section \<open>The repositories\<close>

definition Humidors_updateCigarsCount :: "long \<Rightarrow> long \<Rightarrow> long flow" where
  "Humidors_updateCigarsCount humidor count emit =
     and_then (humidors_updateCigarsCount count humidor) (emit humidor)"

text \<open>The history entry is written with \<open>single()\<close> inside \<open>map\<close>, before the humidor is emitted.\<close>

definition Humidors_add :: "long \<Rightarrow> Humidor \<Rightarrow> Humidor flow" where
  "Humidors_add now entity emit =
     Base_add HumidorsTableQueries entity
       (\<lambda>it. and_then
          (collect (Base_add HistoryTableQueries
             \<lparr>his_rowid = -1, his_count = 1, his_date = now, his_left = 1, his_price = hum_price entity,
              his_type = Addition, his_cigar = None, his_humidorFrom = it, his_humidorTo = it\<rparr>))
          (emit it))"

definition CigarHumidor_add :: "Cigar \<Rightarrow> Humidor \<Rightarrow> long \<Rightarrow> HumidorCigar flow" where
  "CigarHumidor_add cigar humidor count =
     Base_add CigarHumidorTableQueries \<lparr>hc_count = count, hc_humidor = humidor, hc_cigar = cigar, hc_rowid = -1\<rparr>"

definition CigarHumidor_remove :: "Cigar \<Rightarrow> Humidor \<Rightarrow> bool flow" where
  "CigarHumidor_remove cigar from = Base_remove CigarHumidorTableQueries (hum_rowid from) (Some (cig_rowid cigar))"

definition CigarHumidor_find :: "Cigar \<Rightarrow> Humidor \<Rightarrow> db \<Rightarrow> app_error + HumidorCigar option" where
  "CigarHumidor_find cigar humidor = Base_find CigarHumidorTableQueries (hum_rowid humidor) (Some (cig_rowid cigar))"

definition CigarHumidor_count :: "id_arg \<Rightarrow> db \<Rightarrow> nat" where
  "CigarHumidor_count rid db = cigar_humidors_count rid db"

text \<open>\<open>add\<close> stores the new row number in the cigar it is given, so the cigar emitted at the end is the one
  with that number.\<close>

definition Cigars_add :: "long \<Rightarrow> Cigar \<Rightarrow> Humidor \<Rightarrow> Cigar flow" where
  "Cigars_add now cigar humidor =
     flatMapConcat (Base_add CigarsTableQueries cigar) (\<lambda>cigar'.
     flatMapConcat (CigarHumidor_add cigar' humidor (cig_count cigar)) (\<lambda>it.
     flatMapConcat (Base_add HistoryTableQueries
        \<lparr>his_rowid = -1, his_count = hc_count it, his_date = now, his_left = hc_count it, his_price = cig_price cigar,
         his_type = Addition, his_cigar = Some (hc_cigar it), his_humidorFrom = hc_humidor it,
         his_humidorTo = hc_humidor it\<rparr>) (\<lambda>it.
     flatMapConcat (\<lambda>emit. reading (Base_getSync HumidorsTableQueries (hum_rowid (his_humidorTo it))) (\<lambda>humidorTo.
        Humidors_updateCigarsCount (hum_rowid (his_humidorTo it)) (hum_count humidorTo + his_count it) emit)) (\<lambda>_.
     flowOf cigar'))))"

definition Cigars_updateFavorite :: "bool \<Rightarrow> Cigar \<Rightarrow> bool flow" where
  "Cigars_updateFavorite v cigar emit = and_then (cigars_setFavorite v (cig_rowid cigar)) (emit v)"

definition Cigars_updateRating :: "long \<Rightarrow> Cigar \<Rightarrow> long flow" where
  "Cigars_updateRating v cigar emit = and_then (cigars_setRating v (cig_rowid cigar)) (emit v)"

definition updateCount :: "long \<Rightarrow> HumidorCigar \<Rightarrow> long \<Rightarrow> double option \<Rightarrow> HumidorCigar flow" where
  "updateCount now entity count price =
     (let c = hc_count entity - count;
          type = (if sint c < 0 then Addition else Deletion);
          updated = entity\<lparr>hc_count := count, hc_rowid := -1\<rparr>
      in catch
        (flatMapConcat (Base_update CigarHumidorTableQueries updated) (\<lambda>it.
         flatMapConcat (Base_add HistoryTableQueries
            \<lparr>his_rowid = -1, his_count = (if sint c < 0 then - c else c), his_date = now, his_left = count,
             his_price = price, his_type = type, his_cigar = Some (hc_cigar entity),
             his_humidorFrom = hc_humidor entity, his_humidorTo = hc_humidor entity\<rparr>) (\<lambda>_.
         flatMapConcat (Base_update CigarsTableQueries ((hc_cigar entity)\<lparr>cig_count := count\<rparr>)) (\<lambda>_.
         flowOf it)))))"

definition moveCigar :: "long \<Rightarrow> HumidorCigar \<Rightarrow> Humidor \<Rightarrow> long \<Rightarrow> bool flow" where
  "moveCigar now from to count =
     flatMapConcat
       (catch
         (flatMapConcat
           (\<lambda>emit.
              if sint (hc_count from) > sint count
              then Humidors_updateCigarsCount (hum_rowid (hc_humidor from)) (hum_count (hc_humidor from) - count) (\<lambda>_.
                   Base_update CigarHumidorTableQueries (from\<lparr>hc_count := hc_count from - count, hc_rowid := -1\<rparr>) (\<lambda>_.
                   emit True))
              else CigarHumidor_remove (hc_cigar from) (hc_humidor from) emit) (\<lambda>_.
          flatMapConcat
           (\<lambda>emit. reading (CigarHumidor_find (hc_cigar from) to) (\<lambda>toEntry.
              case toEntry of
                None \<Rightarrow> CigarHumidor_add (hc_cigar from) to count emit
              | Some toEntry \<Rightarrow>
                  Base_update CigarHumidorTableQueries (toEntry\<lparr>hc_count := hc_count toEntry + count, hc_rowid := -1\<rparr>) emit)) (\<lambda>_.
          flatMapConcat
           (\<lambda>emit. and_then (log_message (Humidor_toString_error to))
              (reading (Base_getSync HumidorsTableQueries (hum_rowid to)) (\<lambda>humidor.
                 Humidors_updateCigarsCount (hum_rowid to) (hum_count humidor + count) emit))) (\<lambda>_.
          Base_add HistoryTableQueries
            \<lparr>his_rowid = -1, his_count = count, his_date = now, his_left = count, his_price = cig_price (hc_cigar from),
             his_type = Move, his_cigar = Some (hc_cigar from), his_humidorFrom = hc_humidor from,
             his_humidorTo = to\<rparr>)))))
       (\<lambda>_. flowOf True)"

end
