(* ===== verification/App_Inventory.thy ===== *)
theory App_Inventory
  imports App_Database
begin

text \<open>
  The inventory that the tables of \<open>App_Database\<close> represent, the invariant that relates the total of a humidor to its holdings, and what
  the repository operations do to both: adding a humidor, adding a cigar, moving cigars, changing a
  number. The run lemmas execute the flow of one operation on one table; the properties compose them.
\<close>

section \<open>What the tables are meant to say\<close>

definition holdings :: "db \<Rightarrow> long \<Rightarrow> long" where
  "holdings db h = sum_list (map cht_count (filter (\<lambda>r. cht_humidorId r = h) (db_cigar_humidors db)))"

definition keys_ok :: "db \<Rightarrow> bool" where
  "keys_ok db \<longleftrightarrow>
     distinct (map ht_rowid (db_humidors db)) \<and> distinct (map ct_rowid (db_cigars db)) \<and>
     distinct (map hist_rowid (db_history db)) \<and>
     distinct (map (\<lambda>r. (cht_humidorId r, cht_cigarId r)) (db_cigar_humidors db)) \<and>
     (\<forall>r \<in> set (db_humidors db). unat (ht_rowid r) \<le> db_humidors_seq db) \<and>
     (\<forall>r \<in> set (db_cigars db). unat (ct_rowid r) \<le> db_cigars_seq db) \<and>
     (\<forall>r \<in> set (db_history db). unat (hist_rowid r) \<le> db_history_seq db)"

definition references_ok :: "db \<Rightarrow> bool" where
  "references_ok db \<longleftrightarrow>
     (\<forall>r \<in> set (db_cigar_humidors db).
        cht_humidorId r \<in> ht_rowid ` set (db_humidors db) \<and> cht_cigarId r \<in> ct_rowid ` set (db_cigars db))"

definition counts_ok :: "db \<Rightarrow> bool" where
  "counts_ok db \<longleftrightarrow> (\<forall>r \<in> set (db_humidors db). ht_count r = holdings db (ht_rowid r))"

definition inventory_ok :: "db \<Rightarrow> bool" where
  "inventory_ok db \<longleftrightarrow> keys_ok db \<and> references_ok db \<and> counts_ok db"

text \<open>The abstract inventory: how many of a cigar a humidor holds.\<close>

definition contents :: "db \<Rightarrow> long \<times> long \<Rightarrow> long option" where
  "contents db = map_of (map (\<lambda>r. ((cht_humidorId r, cht_cigarId r), cht_count r)) (db_cigar_humidors db))"

definition take_out :: "(long \<times> long \<Rightarrow> long option) \<Rightarrow> long \<Rightarrow> long \<Rightarrow> long \<Rightarrow> long \<times> long \<Rightarrow> long option" where
  "take_out m h c n = (case m (h, c) of None \<Rightarrow> m | Some k \<Rightarrow> if sint k > sint n then m((h, c) \<mapsto> k - n) else m((h, c) := None))"

definition put_in :: "(long \<times> long \<Rightarrow> long option) \<Rightarrow> long \<Rightarrow> long \<Rightarrow> long \<Rightarrow> long \<times> long \<Rightarrow> long option" where
  "put_in m h c n = m((h, c) \<mapsto> (case m (h, c) of None \<Rightarrow> n | Some k \<Rightarrow> k + n))"

section \<open>Running the operations\<close>

lemma filter_key:
  "distinct (map f xs) \<Longrightarrow> x \<in> set xs \<Longrightarrow> filter (\<lambda>y. f y = f x) xs = [x]"
  by (induction xs) (auto simp: filter_empty_conv image_iff)

lemma unat_next_rowid:
  assumes "next_rowid seq = Some key"
  shows "unat key = Suc seq"
proof -
  from assms have lt: "Suc seq < 2 ^ 63" and key: "key = word_of_nat (Suc seq)"
    by (auto simp: next_rowid_def split: if_splits)
  have lt64: "Suc seq < 2 ^ 64"
    using lt by simp
  show "unat key = Suc seq"
    unfolding key using lt64 by (simp only: unsigned_of_nat) (simp add: take_bit_nat_eq_self)
qed

lemma next_rowid_fresh:
  assumes "next_rowid seq = Some key" and "\<forall>r \<in> set rows. unat (f r) \<le> seq"
  shows "key \<notin> f ` set rows" and "filter (\<lambda>r. f r = key) rows = []"
  using assms(2) unat_next_rowid [OF assms(1)] by (force simp: filter_empty_conv)+

text \<open>The end of a transaction.\<close>

definition commit :: "db \<Rightarrow> app_error option \<times> db \<Rightarrow> app_error option \<times> db" where
  "commit db result =
     (case result of
        (Some e, db') \<Rightarrow> (Some e, db\<lparr>db_last_insert_rowid := db_last_insert_rowid db'\<rparr>)
      | (None, db') \<Rightarrow> (None, db'))"

lemma commit_simps [simp]:
  "commit db (None, db') = (None, db')"
  "commit db (Some e, db') = (Some e, db\<lparr>db_last_insert_rowid := db_last_insert_rowid db'\<rparr>)"
  by (simp_all add: commit_def)

lemma transactionWithResult_commit: "transactionWithResult body db = commit db (body db)"
  by (simp add: transactionWithResult_def commit_def)

lemma Base_add_run:
  assumes "sint (dq_rowid w e) < 0" and "dq_add w e db = (None, db1)"
  shows "Base_add w e emit db =
     commit db (case dq_toString w (dq_set_rowid w (db_last_insert_rowid db1) e) of
                  Some err \<Rightarrow> (Some err, db1)
                | None \<Rightarrow> emit (dq_set_rowid w (db_last_insert_rowid db1) e) db1)"
  using assms
  by (simp add: Base_add_def reading_def transactionWithResult_commit and_then_def log_message_def Let_def split: option.splits)

lemma Base_update_ok:
  assumes "dq_contains_entity w e db = Inr True" and "dq_update w e db = (None, db1)"
  shows "Base_update w e emit db = emit e db1"
  using assms by (simp add: Base_update_def reading_def and_then_def)

lemma executeAsOne_eq: "executeAsOne q db = Inr x \<longleftrightarrow> q db = Inr [x]"
  by (simp add: executeAsOne_def split: sum.splits list.splits)

lemma get_humidor:
  "keys_ok db \<Longrightarrow> r \<in> set (db_humidors db) \<Longrightarrow> executeAsOne (humidors_get (ht_rowid r)) db = Inr (humidorFactory r)"
  by (simp add: executeAsOne_eq humidors_get_def keys_ok_def filter_key [of ht_rowid])

lemma get_cigar:
  "keys_ok db \<Longrightarrow> r \<in> set (db_cigars db) \<Longrightarrow> executeAsOne (cigars_get (ct_rowid r)) db = Inr (cigarFactory r)"
  by (simp add: executeAsOne_eq cigars_get_def keys_ok_def filter_key [of ct_rowid])

lemma strength_round_trip: "CigarStrength_fromLong (CigarStrength_toLong s) = s"
  by (cases s) (simp_all add: CigarStrength_fromLong_def)

lemma history_type_round_trip: "HistoryType_fromLong (HistoryType_type t) = t"
  by (cases t) (simp_all add: HistoryType_fromLong_def)

lemma humidorFactory_simps [simp]:
  "hum_rowid (humidorFactory r) = ht_rowid r" "hum_count (humidorFactory r) = ht_count r"
  by (simp_all add: humidorFactory_def)

lemma cigarFactory_rowid [simp]: "cig_rowid (cigarFactory r) = ct_rowid r"
  by (simp add: cigarFactory_def)

lemma cigar_round_trip: "cigarFactory (cigar_row key c) = c\<lparr>cig_rowid := key\<rparr>"
  by (cases c) (simp add: cigarFactory_def cigar_row_def strength_round_trip)

lemma cigar_row_rowid [simp]: "ct_rowid (cigar_row key c) = key"
  by (simp add: cigar_row_def)

lemmas queries_defs =
  CigarsTableQueries_def HumidorsTableQueries_def CigarHumidorTableQueries_def HistoryTableQueries_def

section \<open>Keeping the inventory\<close>

definition set_count :: "long \<Rightarrow> long \<Rightarrow> HumidorsTable list \<Rightarrow> HumidorsTable list" where
  "set_count h n = map (\<lambda>r. if ht_rowid r = h then r\<lparr>ht_count := n\<rparr> else r)"

lemma set_count_rowids [simp]: "map ht_rowid (set_count h n rows) = map ht_rowid rows"
  by (simp add: set_count_def)

lemma set_count_keys [simp]: "ht_rowid ` set (set_count h n rows) = ht_rowid ` set rows"
  by (metis set_count_rowids set_map)

lemma set_count_bound [simp]: "(\<forall>r \<in> set (set_count h n rows). P (ht_rowid r)) \<longleftrightarrow> (\<forall>r \<in> set rows. P (ht_rowid r))"
  by (induction rows) (simp_all add: set_count_def)

lemma set_count_le:
  "\<forall>r \<in> set rows. unat (ht_rowid r) \<le> m \<Longrightarrow> r \<in> set (set_count h n rows) \<Longrightarrow> unat (ht_rowid r) \<le> m"
  using set_count_bound [of h n rows "\<lambda>k. unat k \<le> m"] by blast

lemma holdings_cong: "db_cigar_humidors db' = db_cigar_humidors db \<Longrightarrow> holdings db' = holdings db"
  by (simp add: holdings_def fun_eq_iff)

lemma holdings_append:
  "db_cigar_humidors db' = db_cigar_humidors db @ [r] \<Longrightarrow>
   holdings db' h = holdings db h + (if cht_humidorId r = h then cht_count r else 0)"
  by (simp add: holdings_def)

text \<open>A new row of the table of holdings, together with the new count of its humidor, keeps the inventory.\<close>

lemma counts_ok_append:
  assumes "counts_ok db" and "db_cigar_humidors db' = db_cigar_humidors db @ [r]"
    and "db_humidors db' = set_count (cht_humidorId r) (holdings db (cht_humidorId r) + cht_count r) (db_humidors db)"
  shows "counts_ok db'"
  using assms(1,3) by (auto simp: counts_ok_def holdings_append [OF assms(2)] set_count_def)

definition change_count :: "long \<Rightarrow> long \<Rightarrow> long \<Rightarrow> CigarHumidorTable list \<Rightarrow> CigarHumidorTable list" where
  "change_count h c n = map (\<lambda>r. if cht_humidorId r = h \<and> cht_cigarId r = c then r\<lparr>cht_count := n\<rparr> else r)"

lemma change_count_keys [simp]:
  "map (\<lambda>r. (cht_humidorId r, cht_cigarId r)) (change_count h c n rows) = map (\<lambda>r. (cht_humidorId r, cht_cigarId r)) rows"
  by (simp add: change_count_def)

lemma change_count_bound [simp]:
  "(\<forall>r \<in> set (change_count h c n rows). P (cht_humidorId r) (cht_cigarId r)) \<longleftrightarrow>
   (\<forall>r \<in> set rows. P (cht_humidorId r) (cht_cigarId r))"
  by (induction rows) (simp_all add: change_count_def)

lemma holdings_change_count:
  assumes "distinct (map (\<lambda>r. (cht_humidorId r, cht_cigarId r)) (db_cigar_humidors db))"
    and "r \<in> set (db_cigar_humidors db)" and "cht_humidorId r = h" and "cht_cigarId r = c"
    and "db_cigar_humidors db' = change_count h c n (db_cigar_humidors db)"
  shows "holdings db' h' = holdings db h' + (if h' = h then n - cht_count r else 0)"
proof -
  have "sum_list (map cht_count (filter (\<lambda>r. cht_humidorId r = h') (change_count h c n rows))) =
        sum_list (map cht_count (filter (\<lambda>r. cht_humidorId r = h') rows)) + (if h' = h then n - cht_count r else 0)"
    if "distinct (map (\<lambda>r. (cht_humidorId r, cht_cigarId r)) rows)" "r \<in> set rows" for rows
    using that assms(3,4)
  proof (induction rows)
    case Nil
    then show ?case by simp
  next
    case (Cons x rows)
    have same: "change_count h c n rows = rows" if "x = r"
      unfolding change_count_def using Cons.prems that by (intro map_idI) (auto simp: image_iff)
    show ?case
    proof (cases "x = r")
      case True
      then show ?thesis
        using same Cons.prems by (simp add: change_count_def)
    next
      case False
      hence "r \<in> set rows" and "\<not> (cht_humidorId x = h \<and> cht_cigarId x = c)"
        using Cons.prems by (auto simp: image_iff)
      then show ?thesis
        using Cons.IH Cons.prems by (auto simp: change_count_def)
    qed
  qed
  from this [OF assms(1,2)] show ?thesis
    by (simp add: holdings_def assms(5))
qed


lemma history_append_keys:
  assumes "keys_ok db" and "next_rowid (db_history_seq db) = Some key" and "hist_rowid r = key"
    and "db_history db' = db_history db @ [r]" and "db_history_seq db' = Suc (db_history_seq db)"
  shows "distinct (map hist_rowid (db_history db')) \<and> (\<forall>r \<in> set (db_history db'). unat (hist_rowid r) \<le> db_history_seq db')"
  using assms unat_next_rowid [OF assms(2)] next_rowid_fresh(1) [OF assms(2), of "db_history db" hist_rowid]
  by (auto simp: keys_ok_def le_Suc_eq)

lemma cigars_append_keys:
  assumes "keys_ok db" and "next_rowid (db_cigars_seq db) = Some key" and "ct_rowid r = key"
    and "db_cigars db' = db_cigars db @ [r]" and "db_cigars_seq db' = Suc (db_cigars_seq db)"
  shows "distinct (map ct_rowid (db_cigars db')) \<and> (\<forall>r \<in> set (db_cigars db'). unat (ct_rowid r) \<le> db_cigars_seq db')"
  using assms unat_next_rowid [OF assms(2)] next_rowid_fresh(1) [OF assms(2), of "db_cigars db" ct_rowid]
  by (auto simp: keys_ok_def le_Suc_eq)

lemma Humidors_updateCigarsCount_run:
  "Humidors_updateCigarsCount h n emit db = emit h (db\<lparr>db_humidors := set_count h n (db_humidors db)\<rparr>)"
  by (simp add: Humidors_updateCigarsCount_def humidors_updateCigarsCount_def and_then_def modify_def set_count_def)

lemma add_cigar_row_run:
  assumes "sint (cig_rowid c) < 0" and "next_rowid (db_cigars_seq db) = Some key"
  shows "Base_add CigarsTableQueries c emit db =
     commit db (emit (c\<lparr>cig_rowid := key\<rparr>)
       (db\<lparr>db_cigars := db_cigars db @ [cigar_row key c], db_cigars_seq := Suc (db_cigars_seq db), db_last_insert_rowid := key\<rparr>))"
  using assms by (subst Base_add_run) (auto simp: CigarsTableQueries_def cigars_add_def)

lemma toString_renumbered [simp]: "Humidor_toString_error (h\<lparr>hum_rowid := k\<rparr>) = Humidor_toString_error h"
  by (simp add: Humidor_toString_error_def split: option.splits)

lemma add_humidor_row_run:
  assumes "sint (hum_rowid h) < 0" and "humidors_add h db = (None, db1)"
  shows "Base_add HumidorsTableQueries h emit db =
     commit db (case Humidor_toString_error h of
                  Some err \<Rightarrow> (Some err, db1)
                | None \<Rightarrow> emit (h\<lparr>hum_rowid := db_last_insert_rowid db1\<rparr>) db1)"
  using assms by (subst Base_add_run) (auto simp: HumidorsTableQueries_def split: option.splits)

lemma add_holding_run:
  assumes "\<not> cigar_humidors_contains (hum_rowid h) (cig_rowid c) db"
  shows "CigarHumidor_add c h n emit db =
     commit db (case Humidor_toString_error h of
                  Some err \<Rightarrow> (Some err, db\<lparr>db_last_insert_rowid := next_implicit_rowid (db_cigar_humidors db)\<rparr>)
                | None \<Rightarrow>
        emit \<lparr>hc_count = n, hc_humidor = h, hc_cigar = c, hc_rowid = next_implicit_rowid (db_cigar_humidors db)\<rparr>
          (db\<lparr>db_cigar_humidors := db_cigar_humidors db @
                [\<lparr>cht_rowid = next_implicit_rowid (db_cigar_humidors db), cht_count = n, cht_humidorId = hum_rowid h,
                  cht_cigarId = cig_rowid c\<rparr>],
              db_last_insert_rowid := next_implicit_rowid (db_cigar_humidors db)\<rparr>))"
  unfolding CigarHumidor_add_def using assms
  by (subst Base_add_run)
    (auto simp: CigarHumidorTableQueries_def cigar_humidors_add_def HumidorCigar_toString_error_def Let_def split: option.splits)

definition history_row :: "long \<Rightarrow> History \<Rightarrow> HistoryTable" where
  "history_row key h =
     \<lparr>hist_rowid = key, hist_count = his_count h, hist_date = his_date h, hist_left = his_left h,
      hist_price = his_price h, hist_type = HistoryType_type (his_type h),
      hist_cigarId = map_option cig_rowid (his_cigar h),
      hist_humidorTo = hum_rowid (his_humidorFrom h), hist_humidorFrom = hum_rowid (his_humidorTo h)\<rparr>"

lemma history_row_rowid [simp]: "hist_rowid (history_row key h) = key"
  by (simp add: history_row_def)

lemma add_history_run:
  assumes "sint (his_rowid h) < 0" and "next_rowid (db_history_seq db) = Some key"
  shows "Base_add HistoryTableQueries h emit db =
     commit db (emit (h\<lparr>his_rowid := key\<rparr>)
       (db\<lparr>db_history := db_history db @ [history_row key h], db_history_seq := Suc (db_history_seq db),
           db_last_insert_rowid := key\<rparr>))"
  using assms by (subst Base_add_run) (auto simp: HistoryTableQueries_def history_add_def history_row_def)

lemma get_humidor_run:
  assumes "filter (\<lambda>r. ht_rowid r = h) (db_humidors db) = [row]"
  shows "reading (Base_getSync HumidorsTableQueries h) k db = k (humidorFactory row) db"
  using assms by (simp add: reading_def Base_getSync_def executeAsOne_def HumidorsTableQueries_def humidors_get_def)

lemmas runs = add_cigar_row_run add_holding_run add_history_run get_humidor_run Humidors_updateCigarsCount_run

lemma add_cigar_run:
  assumes ok: "inventory_ok db" and new: "sint (cig_rowid cigar) < 0"
    and row: "row \<in> set (db_humidors db)" "ht_rowid row = hum_rowid humidor"
    and printable: "Humidor_toString_error humidor = None"
    and keys: "next_rowid (db_cigars_seq db) = Some key" "next_rowid (db_history_seq db) = Some hkey"
  shows "collect (Cigars_add now cigar humidor) db =
     (None, db\<lparr>db_cigars := db_cigars db @ [cigar_row key cigar], db_cigars_seq := Suc (db_cigars_seq db),
        db_cigar_humidors := db_cigar_humidors db @
          [\<lparr>cht_rowid = next_implicit_rowid (db_cigar_humidors db), cht_count = cig_count cigar,
            cht_humidorId = hum_rowid humidor, cht_cigarId = key\<rparr>],
        db_history := db_history db @
          [history_row hkey
            \<lparr>his_rowid = -1, his_count = cig_count cigar, his_date = now, his_left = cig_count cigar, his_price = cig_price cigar,
             his_type = Addition, his_cigar = Some (cigar\<lparr>cig_rowid := key\<rparr>), his_humidorFrom = humidor, his_humidorTo = humidor\<rparr>],
        db_history_seq := Suc (db_history_seq db), db_last_insert_rowid := hkey,
        db_humidors := set_count (hum_rowid humidor) (ht_count row + cig_count cigar) (db_humidors db)\<rparr>)"
proof -
  have fresh: "filter (\<lambda>r. cht_humidorId r = h \<and> cht_cigarId r = key) (db_cigar_humidors db) = []" for h
    using ok next_rowid_fresh(1) [OF keys(1), of "db_cigars db" ct_rowid]
    by (auto simp: filter_empty_conv inventory_ok_def references_ok_def keys_ok_def)
  have got: "filter (\<lambda>r. ht_rowid r = hum_rowid humidor) (db_humidors db) = [row]"
    using filter_key [of ht_rowid "db_humidors db" row] ok row by (simp add: inventory_ok_def keys_ok_def)
  show ?thesis
    unfolding collect_def Cigars_add_def flatMapConcat_def flowOf_def
    by (simp add: runs new keys fresh cigar_humidors_contains_def printable got return_unit_def)
qed

lemma contents_append:
  assumes "db_cigar_humidors db' = db_cigar_humidors db @ [r]"
    and "contents db (cht_humidorId r, cht_cigarId r) = None"
  shows "contents db' = (contents db)((cht_humidorId r, cht_cigarId r) \<mapsto> cht_count r)"
  using assms by (auto simp: contents_def map_add_def fun_eq_iff split: option.splits)

lemma contents_None:
  "contents db (h, c) = None \<longleftrightarrow> filter (\<lambda>r. cht_humidorId r = h \<and> cht_cigarId r = c) (db_cigar_humidors db) = []"
  by (auto simp: contents_def map_of_eq_None_iff image_iff filter_empty_conv)

lemma cigars_new_key:
  assumes "inventory_ok db" and "next_rowid (db_cigars_seq db) = Some key"
  shows "filter (\<lambda>r. cht_humidorId r = h \<and> cht_cigarId r = key) (db_cigar_humidors db) = []"
  using assms(1) next_rowid_fresh(1) [OF assms(2), of "db_cigars db" ct_rowid]
  by (auto simp: filter_empty_conv inventory_ok_def references_ok_def keys_ok_def)

text \<open>C1: adding a new cigar (negative row id) to a humidor, in a database that satisfies the invariant. When the humidor exists
  and can be printed (\<open>Humidor.toString\<close> does not throw: its notes and its link, where there are any, have at least ten characters) and the row ids of cigars and of the history are not used
  up, \<open>CigarsRepository.add\<close> succeeds: the cigar gets
  a new row that reads back as the cigar that was given, the humidor holds \<open>count\<close> of it and no other holding
  changes, one line is added to the history, and the database again satisfies the invariant that the total of every humidor is the sum of its
  holdings, that the keys are unique and that every holding refers to an existing humidor and cigar.\<close>

theorem add_cigar_keeps_inventory:
  assumes "inventory_ok db" and "sint (cig_rowid cigar) < 0"
    and "hum_rowid humidor \<in> ht_rowid ` set (db_humidors db)"
    and "Humidor_toString_error humidor = None"
    and "next_rowid (db_cigars_seq db) = Some key" and "next_rowid (db_history_seq db) \<noteq> None"
  shows "\<exists>db'. collect (Cigars_add now cigar humidor) db = (None, db') \<and> inventory_ok db' \<and>
    contents db' = (contents db)((hum_rowid humidor, key) \<mapsto> cig_count cigar) \<and>
    executeAsOne (cigars_get key) db' = Inr (cigar\<lparr>cig_rowid := key\<rparr>) \<and>
    length (db_history db') = Suc (length (db_history db))"
proof -
  obtain row hkey where row: "row \<in> set (db_humidors db)" "ht_rowid row = hum_rowid humidor"
    and hkey: "next_rowid (db_history_seq db) = Some hkey"
    using assms(3,6) by auto
  obtain db' where run: "collect (Cigars_add now cigar humidor) db = (None, db')"
    and cigars: "db_cigars db' = db_cigars db @ [cigar_row key cigar]" "db_cigars_seq db' = Suc (db_cigars_seq db)"
    and holds: "db_cigar_humidors db' = db_cigar_humidors db @
          [\<lparr>cht_rowid = next_implicit_rowid (db_cigar_humidors db), cht_count = cig_count cigar,
            cht_humidorId = hum_rowid humidor, cht_cigarId = key\<rparr>]" (is "_ = _ @ [?r]")
    and hum: "db_humidors db' = set_count (hum_rowid humidor) (ht_count row + cig_count cigar) (db_humidors db)"
      "db_humidors_seq db' = db_humidors_seq db"
    and his: "\<exists>h. db_history db' = db_history db @ [history_row hkey h]" "db_history_seq db' = Suc (db_history_seq db)"
    using add_cigar_run [OF assms(1,2) row assms(4,5) hkey, of now] by (simp split: prod.splits) blast
  have ok: "keys_ok db" "references_ok db" "counts_ok db"
    using assms(1) by (simp_all add: inventory_ok_def)
  have empty: "filter (\<lambda>r. cht_humidorId r = h \<and> cht_cigarId r = key) (db_cigar_humidors db) = []" for h
    by (rule cigars_new_key [OF assms(1,5)])
  have "keys_ok db'"
    using ok(1) cigars_append_keys [OF ok(1) assms(5) cigar_row_rowid cigars]
      history_append_keys [OF ok(1) hkey history_row_rowid _ his(2)] his(1) empty [of "hum_rowid humidor"]
    by (auto simp: keys_ok_def hum holds filter_empty_conv intro: set_count_le)
  moreover have "references_ok db'"
    using ok(2) assms(3) by (auto simp: references_ok_def hum holds cigars)
  moreover have "counts_ok db'"
    by (rule counts_ok_append [OF ok(3) holds]) (use ok(3) row in \<open>simp add: hum counts_ok_def\<close>)
  moreover have "contents db' = (contents db)((hum_rowid humidor, key) \<mapsto> cig_count cigar)"
    using contents_append [OF holds] empty by (simp add: contents_None)
  moreover have "executeAsOne (cigars_get key) db' = Inr (cigar\<lparr>cig_rowid := key\<rparr>)"
    using next_rowid_fresh(2) [OF assms(5), of "db_cigars db" ct_rowid] ok(1)
    by (simp add: executeAsOne_eq cigars_get_def cigars cigar_round_trip keys_ok_def)
  ultimately show ?thesis
    using run his(1) by (auto simp: inventory_ok_def)
qed

text \<open>C3: \<open>CigarsRepository.add\<close> is all or nothing: when the flow fails at any point, in the
  repository or in its collector, none of the tables has changed.\<close>

theorem add_cigar_all_or_nothing:
  assumes "Cigars_add now cigar humidor emit db = (Some e, db')"
  shows "db' = db\<lparr>db_last_insert_rowid := db_last_insert_rowid db'\<rparr>"
  using assms
  by (auto simp: Cigars_add_def flatMapConcat_def Base_add_def reading_def throw_def log_message_def and_then_def
      transactionWithResult_def split: sum.splits if_splits prod.splits option.splits)


section \<open>Moving cigars\<close>

text \<open>The entry is the one that a lookup of its cigar in its humidor returns.\<close>

definition is_current :: "db \<Rightarrow> HumidorCigar \<Rightarrow> bool" where
  "is_current db e \<longleftrightarrow> CigarHumidor_find (hc_cigar e) (hc_humidor e) db = Inr (Some e)"

lemma executeAsOneOrNull_Some: "executeAsOneOrNull q db = Inr (Some x) \<longleftrightarrow> q db = Inr [x]"
  by (simp add: executeAsOneOrNull_def split: sum.splits list.splits)

lemma map_results_one: "map_results f xs = Inr [y] \<longleftrightarrow> (\<exists>x. xs = [x] \<and> f x = Inr y)"
  by (cases xs) (auto split: sum.splits list.splits elim: map_results.elims)

lemma map_filter_one:
  assumes "map f (filter P xs) = [y]"
  shows "\<exists>x \<in> set xs. P x \<and> y = f x"
proof -
  have "y \<in> set (map f (filter P xs))"
    by (simp only: assms) simp
  thus ?thesis
    by auto
qed

lemma current_rows:
  assumes "is_current db e"
  obtains r hr cr where "r \<in> set (db_cigar_humidors db)" "hr \<in> set (db_humidors db)" "cr \<in> set (db_cigars db)"
    "hc_humidor e = humidorFactory hr" "hc_cigar e = cigarFactory cr" "hc_count e = cht_count r"
    "cht_humidorId r = ht_rowid hr" "cht_cigarId r = ct_rowid cr"
proof -
  obtain r where r: "filter (\<lambda>r. cht_humidorId r = hum_rowid (hc_humidor e) \<and> cht_cigarId r = cig_rowid (hc_cigar e))
      (db_cigar_humidors db) = [r]" and e: "humidorCigarFactory db r = Inr e"
    using assms by (auto simp: is_current_def CigarHumidor_find_def Base_find_def CigarHumidorTableQueries_def
        executeAsOneOrNull_Some cigar_humidors_get_def map_results_one)
  have found: "executeAsOne (humidors_get (cht_humidorId r)) db = Inr (hc_humidor e)"
      "executeAsOne (cigars_get (cht_cigarId r)) db = Inr (hc_cigar e)"
    using e by (auto simp: humidorCigarFactory_def split: sum.splits)
  obtain hr where hr: "hr \<in> set (db_humidors db)" "ht_rowid hr = cht_humidorId r" "hc_humidor e = humidorFactory hr"
    using found(1) by (auto simp: executeAsOne_eq humidors_get_def dest!: map_filter_one)
  obtain cr where cr: "cr \<in> set (db_cigars db)" "ct_rowid cr = cht_cigarId r" "hc_cigar e = cigarFactory cr"
    using found(2) by (auto simp: executeAsOne_eq cigars_get_def dest!: map_filter_one)
  have "r \<in> set (db_cigar_humidors db)"
    using map_filter_one [of "\<lambda>r. r", simplified, OF r] by blast
  moreover have "hc_count e = cht_count r"
    using e by (auto simp: humidorCigarFactory_def split: sum.splits)
  ultimately show thesis
    using hr cr that by metis
qed

lemma factory_run:
  assumes "keys_ok db" "references_ok db" "r \<in> set (db_cigar_humidors db)"
  obtains e where "humidorCigarFactory db r = Inr e" "hum_rowid (hc_humidor e) = cht_humidorId r"
    "cig_rowid (hc_cigar e) = cht_cigarId r" "hc_count e = cht_count r"
proof -
  obtain hr cr where rows: "hr \<in> set (db_humidors db)" "cht_humidorId r = ht_rowid hr"
      "cr \<in> set (db_cigars db)" "cht_cigarId r = ct_rowid cr"
    using assms(2,3) by (auto simp: references_ok_def)
  thus thesis
    using that get_humidor [OF assms(1) rows(1)] get_cigar [OF assms(1) rows(3)] by (simp add: humidorCigarFactory_def)
qed

lemma find_run_none:
  assumes "filter (\<lambda>r. cht_humidorId r = hum_rowid h \<and> cht_cigarId r = cig_rowid c) (db_cigar_humidors db) = []"
  shows "reading (CigarHumidor_find c h) k db = k None db"
  using assms by (simp add: reading_def CigarHumidor_find_def Base_find_def executeAsOneOrNull_def CigarHumidorTableQueries_def
      cigar_humidors_get_def)

lemma find_run_some:
  assumes "keys_ok db" "references_ok db" "r \<in> set (db_cigar_humidors db)"
    and "cht_humidorId r = hum_rowid h" "cht_cigarId r = cig_rowid c"
  obtains e where "\<And>k. reading (CigarHumidor_find c h) k db = k (Some e) db" "hum_rowid (hc_humidor e) = hum_rowid h"
    "cig_rowid (hc_cigar e) = cig_rowid c" "hc_count e = cht_count r"
proof -
  have one: "filter (\<lambda>r. cht_humidorId r = hum_rowid h \<and> cht_cigarId r = cig_rowid c) (db_cigar_humidors db) = [r]"
    using filter_key [of "\<lambda>r. (cht_humidorId r, cht_cigarId r)" "db_cigar_humidors db" r] assms
    by (simp add: keys_ok_def)
  obtain e where e: "humidorCigarFactory db r = Inr e" "hum_rowid (hc_humidor e) = cht_humidorId r"
      "cig_rowid (hc_cigar e) = cht_cigarId r" "hc_count e = cht_count r"
    by (rule factory_run [OF assms(1,2,3)])
  show thesis
    by (rule that [of e]) (use e assms(4,5) one in \<open>simp_all add: reading_def CigarHumidor_find_def Base_find_def
      executeAsOneOrNull_def CigarHumidorTableQueries_def cigar_humidors_get_def\<close>)
qed

lemma update_holding_run:
  assumes "r \<in> set (db_cigar_humidors db)" "cht_humidorId r = hum_rowid (hc_humidor e)" "cht_cigarId r = cig_rowid (hc_cigar e)"
  shows "Base_update CigarHumidorTableQueries e emit db =
    emit e (db\<lparr>db_cigar_humidors := change_count (hum_rowid (hc_humidor e)) (cig_rowid (hc_cigar e)) (hc_count e)
                 (db_cigar_humidors db)\<rparr>)"
  using assms
  by (subst Base_update_ok)
    (auto simp: CigarHumidorTableQueries_def cigar_humidors_contains_def cigar_humidors_update_def modify_def filter_empty_conv
      change_count_def)

definition holding_keys :: "db \<Rightarrow> (long \<times> long) list" where
  "holding_keys db = map (\<lambda>r. (cht_humidorId r, cht_cigarId r)) (db_cigar_humidors db)"

definition structure_ok :: "db \<Rightarrow> bool" where
  "structure_ok db \<longleftrightarrow> keys_ok db \<and> references_ok db"

text \<open>A step that renames no humidor and no cigar, that keeps the keys of the holdings or adds a proper one or removes some, and
  that writes at most one history entry, keeps the keys and the references.\<close>

lemma structure_step:
  assumes "structure_ok db"
    and "map ht_rowid (db_humidors db') = map ht_rowid (db_humidors db)" "db_humidors_seq db' = db_humidors_seq db"
    and "map ct_rowid (db_cigars db') = map ct_rowid (db_cigars db)" "db_cigars_seq db' = db_cigars_seq db"
    and keys: "distinct (holding_keys db')" "set (holding_keys db') \<subseteq>
      ht_rowid ` set (db_humidors db) \<times> ct_rowid ` set (db_cigars db)"
    and history: "db_history db' = db_history db \<and> db_history_seq db' = db_history_seq db \<or>
      (\<exists>r. db_history db' = db_history db @ [r] \<and> next_rowid (db_history_seq db) = Some (hist_rowid r) \<and>
           db_history_seq db' = Suc (db_history_seq db))"
  shows "structure_ok db'"
proof -
  have ok: "keys_ok db"
    using assms(1) by (simp add: structure_ok_def)
  have hist: "distinct (map hist_rowid (db_history db')) \<and> (\<forall>r \<in> set (db_history db'). unat (hist_rowid r) \<le> db_history_seq db')"
    using history
  proof (elim disjE exE conjE)
    show ?thesis if "db_history db' = db_history db" "db_history_seq db' = db_history_seq db"
      using ok that by (simp add: keys_ok_def)
    show ?thesis if "db_history db' = db_history db @ [r]" "next_rowid (db_history_seq db) = Some (hist_rowid r)"
      "db_history_seq db' = Suc (db_history_seq db)" for r
      by (rule history_append_keys [OF ok that(2) refl that(1,3)])
  qed
  have sets: "ht_rowid ` set (db_humidors db') = ht_rowid ` set (db_humidors db)"
      "ct_rowid ` set (db_cigars db') = ct_rowid ` set (db_cigars db)"
    using assms(2,4) by (metis set_map)+
  have "\<forall>k \<in> ht_rowid ` set (db_humidors db'). unat k \<le> db_humidors_seq db'"
      "\<forall>k \<in> ct_rowid ` set (db_cigars db'). unat k \<le> db_cigars_seq db'"
    using ok assms(3,5) by (simp_all add: sets keys_ok_def)
  hence "keys_ok db'"
    using ok hist keys(1) assms(2,4) by (simp add: keys_ok_def holding_keys_def)
  moreover have "references_ok db'"
    using keys(2) by (auto simp: references_ok_def sets holding_keys_def)
  ultimately show ?thesis
    by (simp add: structure_ok_def)
qed

lemma structure_keys:
  assumes "structure_ok db"
  shows "distinct (holding_keys db)" and "set (holding_keys db) \<subseteq> ht_rowid ` set (db_humidors db) \<times> ct_rowid ` set (db_cigars db)"
  using assms by (auto simp: structure_ok_def keys_ok_def references_ok_def holding_keys_def)

lemma contents_change:
  assumes "r \<in> set (db_cigar_humidors db)" "cht_humidorId r = h" "cht_cigarId r = c"
    and "db_cigar_humidors db' = change_count h c n (db_cigar_humidors db)"
  shows "contents db' = (contents db)((h, c) \<mapsto> n)"
proof -
  have other: "map_of (map (\<lambda>r. ((cht_humidorId r, cht_cigarId r), cht_count r)) (change_count h c n rows)) k =
    map_of (map (\<lambda>r. ((cht_humidorId r, cht_cigarId r), cht_count r)) rows) k" if "k \<noteq> (h, c)" for rows k
    using that by (induction rows) (auto simp: change_count_def)
  have same: "map_of (map (\<lambda>r. ((cht_humidorId r, cht_cigarId r), cht_count r)) (change_count h c n rows)) (h, c) = Some n"
    if "r \<in> set rows" for rows
    using that assms(2,3) by (induction rows) (auto simp: change_count_def)
  show ?thesis
  proof
    fix k
    show "contents db' k = ((contents db)((h, c) \<mapsto> n)) k"
      using other [of k] same [OF assms(1)] by (cases "k = (h, c)") (simp_all add: contents_def assms(4))
  qed
qed

lemma contents_Some:
  assumes "keys_ok db" and "r \<in> set (db_cigar_humidors db)"
  shows "contents db (cht_humidorId r, cht_cigarId r) = Some (cht_count r)"
  using assms by (auto simp: contents_def keys_ok_def comp_def intro!: map_of_is_SomeI)


text \<open>What \<open>moveCigar\<close> does once the cigars have left their humidor.\<close>

definition move_arrive :: "long \<Rightarrow> HumidorCigar \<Rightarrow> Humidor \<Rightarrow> long \<Rightarrow> action" where
  "move_arrive now from to count =
     (let record_it = \<lambda>_ :: HumidorCigar. and_then (log_message (Humidor_toString_error to))
            (reading (Base_getSync HumidorsTableQueries (hum_rowid to)) (\<lambda>humidor.
               Humidors_updateCigarsCount (hum_rowid to) (hum_count humidor + count) (\<lambda>_.
               Base_add HistoryTableQueries
                 \<lparr>his_rowid = -1, his_count = count, his_date = now, his_left = count, his_price = cig_price (hc_cigar from),
                  his_type = Move, his_cigar = Some (hc_cigar from), his_humidorFrom = hc_humidor from,
                  his_humidorTo = to\<rparr> (\<lambda>_. return_unit))))
      in reading (CigarHumidor_find (hc_cigar from) to) (\<lambda>toEntry.
           case toEntry of
             None \<Rightarrow> CigarHumidor_add (hc_cigar from) to count record_it
           | Some toEntry \<Rightarrow>
               Base_update CigarHumidorTableQueries (toEntry\<lparr>hc_count := hc_count toEntry + count, hc_rowid := -1\<rparr>) record_it))"

lemma collect_move:
  "collect (moveCigar now from to count) db =
     (case (if sint (hc_count from) > sint count
            then Humidors_updateCigarsCount (hum_rowid (hc_humidor from)) (hum_count (hc_humidor from) - count) (\<lambda>_.
                 Base_update CigarHumidorTableQueries (from\<lparr>hc_count := hc_count from - count, hc_rowid := -1\<rparr>) (\<lambda>_.
                 move_arrive now from to count))
            else CigarHumidor_remove (hc_cigar from) (hc_humidor from) (\<lambda>_. move_arrive now from to count)) db of
        (None, db) \<Rightarrow> (None, db)
      | (Some (Downstream e), db) \<Rightarrow> (Some e, db)
      | (Some _, db) \<Rightarrow> (None, db))"
  by (simp add: collect_def moveCigar_def flatMapConcat_def catch_def flowOf_def return_unit_def [abs_def] move_arrive_def Let_def)

lemma move_arrive_run:
  assumes ok: "structure_ok db" and row: "row \<in> set (db_humidors db)" "ht_rowid row = hum_rowid to"
    and cigar: "cig_rowid (hc_cigar from) \<in> ct_rowid ` set (db_cigars db)"
    and printable: "Humidor_toString_error to = None" and hkey: "next_rowid (db_history_seq db) = Some hkey"
  shows "\<exists>db'. move_arrive now from to count db = (None, db') \<and> structure_ok db' \<and>
    contents db' = put_in (contents db) (hum_rowid to) (cig_rowid (hc_cigar from)) count \<and>
    db_humidors db' = set_count (hum_rowid to) (ht_count row + count) (db_humidors db) \<and>
    (\<forall>h. holdings db' h = holdings db h + (if h = hum_rowid to then count else 0))"
proof -
  let ?h = "hum_rowid to" and ?c = "cig_rowid (hc_cigar from)"
  have got: "filter (\<lambda>r. ht_rowid r = ?h) (db_humidors db) = [row]"
    using filter_key [of ht_rowid "db_humidors db" row] ok row by (simp add: structure_ok_def keys_ok_def)
  define hr where "hr = history_row hkey
      \<lparr>his_rowid = -1, his_count = count, his_date = now, his_left = count, his_price = cig_price (hc_cigar from),
       his_type = Move, his_cigar = Some (hc_cigar from), his_humidorFrom = hc_humidor from, his_humidorTo = to\<rparr>"
  have hr: "hist_rowid hr = hkey"
    by (simp add: hr_def)
  have here: "?h \<in> ht_rowid ` set (db_humidors db)"
    using row by force
  show ?thesis
  proof (cases "filter (\<lambda>r. cht_humidorId r = ?h \<and> cht_cigarId r = ?c) (db_cigar_humidors db)")
    case Nil
    have none: "contents db (?h, ?c) = None"
      using Nil by (simp add: contents_None)
    define r where "r = \<lparr>cht_rowid = next_implicit_rowid (db_cigar_humidors db), cht_count = count, cht_humidorId = ?h, cht_cigarId = ?c\<rparr>"
    have run: "move_arrive now from to count db = (None,
        db\<lparr>db_cigar_humidors := db_cigar_humidors db @ [r],
            db_humidors := set_count ?h (ht_count row + count) (db_humidors db),
            db_history := db_history db @ [hr], db_history_seq := Suc (db_history_seq db), db_last_insert_rowid := hkey\<rparr>)"
      (is "_ = (None, ?db)")
      by (simp add: move_arrive_def Let_def find_run_none Nil runs cigar_humidors_contains_def printable and_then_def log_message_def got hkey
          return_unit_def r_def hr_def)
    have "structure_ok ?db"
      by (rule structure_step [OF ok])
        (use structure_keys [OF ok] here cigar hkey hr Nil in \<open>auto simp: holding_keys_def r_def filter_empty_conv\<close>)
    moreover have "contents ?db = put_in (contents db) ?h ?c count"
      using contents_append [of ?db db r] none by (simp add: put_in_def r_def)
    moreover have "holdings ?db h = holdings db h + (if h = ?h then count else 0)" for h
      using holdings_append [of ?db db r h] by (simp add: r_def)
    ultimately show ?thesis
      using run by simp
  next
    case (Cons r rs)
    hence r: "r \<in> set (db_cigar_humidors db)" "cht_humidorId r = ?h" "cht_cigarId r = ?c"
      by (auto dest: filter_eq_ConsD)
    obtain e where e: "\<And>k. reading (CigarHumidor_find (hc_cigar from) to) k db = k (Some e) db"
        "hum_rowid (hc_humidor e) = ?h" "cig_rowid (hc_cigar e) = ?c" "hc_count e = cht_count r"
      using find_run_some [OF _ _ r] ok by (auto simp: structure_ok_def)
    have run: "move_arrive now from to count db = (None,
        db\<lparr>db_cigar_humidors := change_count ?h ?c (cht_count r + count) (db_cigar_humidors db),
            db_humidors := set_count ?h (ht_count row + count) (db_humidors db),
            db_history := db_history db @ [hr], db_history_seq := Suc (db_history_seq db), db_last_insert_rowid := hkey\<rparr>)"
      (is "_ = (None, ?db)")
      using r
      by (simp add: move_arrive_def Let_def e update_holding_run [of r] runs printable and_then_def log_message_def got hkey
          return_unit_def hr_def)
    have "structure_ok ?db"
      by (rule structure_step [OF ok])
        (use structure_keys [OF ok] hkey hr in \<open>auto simp: holding_keys_def\<close>)
    moreover have "contents ?db = put_in (contents db) ?h ?c count"
      using contents_change [OF r, of ?db] contents_Some [OF _ r(1)] ok r(2,3) by (simp add: put_in_def structure_ok_def)
    moreover have "holdings ?db h = holdings db h + (if h = ?h then count else 0)" for h
      using holdings_change_count [OF _ r, of ?db "cht_count r + count" h] ok by (simp add: structure_ok_def keys_ok_def)
    ultimately show ?thesis
      using run by simp
  qed
qed


lemma counts_ok_set_count:
  assumes "counts_ok db" and "db_humidors db' = set_count h (holdings db' h) (db_humidors db)"
    and "\<And>h'. h' \<noteq> h \<Longrightarrow> holdings db' h' = holdings db h'"
  shows "counts_ok db'"
  using assms by (auto simp: counts_ok_def set_count_def)

lemma set_count_other: "r \<in> set rows \<Longrightarrow> ht_rowid r \<noteq> h \<Longrightarrow> r \<in> set (set_count h n rows)"
  by (force simp: set_count_def)

text \<open>The state in which \<open>moveCigar\<close> has taken a part of the cigars out of their humidor.\<close>

definition take_part :: "HumidorCigar \<Rightarrow> long \<Rightarrow> db \<Rightarrow> db" where
  "take_part from count db =
     db\<lparr>db_humidors := set_count (hum_rowid (hc_humidor from)) (hum_count (hc_humidor from) - count) (db_humidors db),
        db_cigar_humidors := change_count (hum_rowid (hc_humidor from)) (cig_rowid (hc_cigar from)) (hc_count from - count)
          (db_cigar_humidors db)\<rparr>"

lemma take_part_ok:
  assumes "inventory_ok db" and "is_current db from"
  shows "inventory_ok (take_part from count db)"
    and "contents (take_part from count db) =
      (contents db)((hum_rowid (hc_humidor from), cig_rowid (hc_cigar from)) \<mapsto> hc_count from - count)"
    and "contents db (hum_rowid (hc_humidor from), cig_rowid (hc_cigar from)) = Some (hc_count from)"
    and "cig_rowid (hc_cigar from) \<in> ct_rowid ` set (db_cigars db)"
proof -
  let ?db = "take_part from count db"
  obtain r hr cr where r: "r \<in> set (db_cigar_humidors db)" "cht_humidorId r = ht_rowid hr" "cht_cigarId r = ct_rowid cr"
    and hr: "hr \<in> set (db_humidors db)" and cr: "cr \<in> set (db_cigars db)"
    and e: "hc_humidor from = humidorFactory hr" "hc_cigar from = cigarFactory cr" "hc_count from = cht_count r"
    by (rule current_rows [OF assms(2)])
  have ok: "structure_ok db" "counts_ok db"
    using assms(1) by (simp_all add: inventory_ok_def structure_ok_def)
  have "holdings ?db h' = holdings db h' + (if h' = ht_rowid hr then (cht_count r - count) - cht_count r else 0)" for h'
    by (rule holdings_change_count [OF _ r]) (use ok(1) in \<open>simp_all add: structure_ok_def keys_ok_def take_part_def e\<close>)
  hence hold: "holdings ?db h' = holdings db h' - (if h' = ht_rowid hr then count else 0)" for h'
    by simp
  have "structure_ok ?db"
    by (rule structure_step [OF ok(1)]) (use structure_keys [OF ok(1)] in \<open>auto simp: take_part_def holding_keys_def\<close>)
  moreover have "counts_ok ?db"
    by (rule counts_ok_set_count [OF ok(2), of _ "ht_rowid hr"])
      (use ok(2) hr in \<open>simp_all add: hold, simp add: take_part_def e counts_ok_def\<close>)
  ultimately show "inventory_ok ?db"
    by (simp add: inventory_ok_def structure_ok_def)
  show "contents ?db = (contents db)((hum_rowid (hc_humidor from), cig_rowid (hc_cigar from)) \<mapsto> hc_count from - count)"
    by (rule contents_change [OF r(1)]) (simp_all add: take_part_def e r)
  show "contents db (hum_rowid (hc_humidor from), cig_rowid (hc_cigar from)) = Some (hc_count from)"
    using contents_Some [OF _ r(1)] ok(1) by (simp add: e r structure_ok_def)
  show "cig_rowid (hc_cigar from) \<in> ct_rowid ` set (db_cigars db)"
    using cr by (simp add: e)
qed

lemma move_part_run:
  assumes "is_current db from" and "sint (hc_count from) > sint count"
  shows "collect (moveCigar now from to count) db =
     (case move_arrive now from to count (take_part from count db) of
        (None, db) \<Rightarrow> (None, db)
      | (Some (Downstream e), db) \<Rightarrow> (Some e, db)
      | (Some _, db) \<Rightarrow> (None, db))"
proof -
  obtain r hr cr where "r \<in> set (db_cigar_humidors db)" "cht_humidorId r = ht_rowid hr" "cht_cigarId r = ct_rowid cr"
    and "hc_humidor from = humidorFactory hr" "hc_cigar from = cigarFactory cr"
    by (rule current_rows [OF assms(1)])
  thus ?thesis
    using assms(2)
    by (simp add: collect_move Humidors_updateCigarsCount_run update_holding_run [of r] take_part_def)
qed

text \<open>C2: moving some of the cigars of an entry, fewer than it holds, to another humidor, in a database that satisfies the invariant. For an entry as the database has it and
  a destination that exists, is not the humidor the cigars are in and can be printed, and when the row ids of the history are not used up, \<open>moveCigar\<close> succeeds and implements the abstract
  move: the cigars are taken out of the one
  humidor and put into the other, no other holding changes, and the totals of all humidors again
  agree with their holdings.\<close>

theorem move_part_refines:
  assumes "inventory_ok db" and "is_current db from" and "sint count < sint (hc_count from)"
    and "hum_rowid to \<in> ht_rowid ` set (db_humidors db)" and "hum_rowid to \<noteq> hum_rowid (hc_humidor from)"
    and "Humidor_toString_error to = None" and "next_rowid (db_history_seq db) \<noteq> None"
  shows "\<exists>db'. collect (moveCigar now from to count) db = (None, db') \<and> inventory_ok db' \<and>
    contents db' = put_in (take_out (contents db) (hum_rowid (hc_humidor from)) (cig_rowid (hc_cigar from)) count)
      (hum_rowid to) (cig_rowid (hc_cigar from)) count"
proof -
  let ?db = "take_part from count db"
  note part = take_part_ok(1,2) [OF assms(1,2), of count] take_part_ok(3,4) [OF assms(1,2)]
  obtain hkey where hkey: "next_rowid (db_history_seq db) = Some hkey"
    using assms(7) by auto
  have "hum_rowid to \<in> ht_rowid ` set (db_humidors ?db)"
    using assms(4) by (simp add: take_part_def)
  then obtain row where row: "row \<in> set (db_humidors ?db)" "ht_rowid row = hum_rowid to"
    by auto
  obtain db' where db': "move_arrive now from to count ?db = (None, db')" "structure_ok db'"
      "contents db' = put_in (contents ?db) (hum_rowid to) (cig_rowid (hc_cigar from)) count"
      "db_humidors db' = set_count (hum_rowid to) (ht_count row + count) (db_humidors ?db)"
      "\<And>h. holdings db' h = holdings ?db h + (if h = hum_rowid to then count else 0)"
    using move_arrive_run [OF _ row _ assms(6), of "from" hkey now count] part(1,4) hkey
    by (auto simp: inventory_ok_def structure_ok_def take_part_def)
  have "counts_ok db'"
    by (rule counts_ok_set_count [of ?db _ "hum_rowid to"])
      (use part(1) db'(4) row in \<open>simp_all add: db'(5) inventory_ok_def counts_ok_def\<close>)
  thus ?thesis
    using db' part(2,3) assms(3) move_part_run [OF assms(2,3), of now to]
    by (auto simp: inventory_ok_def structure_ok_def take_out_def)
qed


lemma holdings_remove:
  assumes "distinct (map (\<lambda>r. (cht_humidorId r, cht_cigarId r)) (db_cigar_humidors db))"
    and "r \<in> set (db_cigar_humidors db)" and "cht_humidorId r = h" and "cht_cigarId r = c"
    and "db_cigar_humidors db' = filter (\<lambda>r. \<not> (cht_humidorId r = h \<and> cht_cigarId r = c)) (db_cigar_humidors db)"
  shows "holdings db' h' = holdings db h' - (if h' = h then cht_count r else 0)"
proof -
  have "sum_list (map cht_count (filter (\<lambda>r. cht_humidorId r = h') (filter (\<lambda>r. \<not> (cht_humidorId r = h \<and> cht_cigarId r = c)) rows))) =
        sum_list (map cht_count (filter (\<lambda>r. cht_humidorId r = h') rows)) - (if h' = h then cht_count r else 0)"
    if "distinct (map (\<lambda>r. (cht_humidorId r, cht_cigarId r)) rows)" "r \<in> set rows" for rows
    using that
  proof (induction rows)
    case Nil
    then show ?case by simp
  next
    case (Cons x rows)
    show ?case
    proof (cases "x = r")
      case True
      hence "filter (\<lambda>r. \<not> (cht_humidorId r = h \<and> cht_cigarId r = c)) rows = rows"
        using Cons.prems assms(3,4) by (intro filter_True) (auto simp: image_iff)
      then show ?thesis
        using True assms(3,4) by (simp del: filter_filter)
    next
      case False
      hence "r \<in> set rows" and "\<not> (cht_humidorId x = h \<and> cht_cigarId x = c)"
        using Cons.prems assms(3,4) by (auto simp: image_iff)
      then show ?thesis
        using Cons.IH Cons.prems by (cases "h' = h") (simp_all del: filter_filter)
    qed
  qed
  from this [OF assms(1,2)] show ?thesis
    by (simp add: holdings_def assms(5))
qed

lemma contents_remove:
  assumes "db_cigar_humidors db' = filter (\<lambda>r. \<not> (cht_humidorId r = h \<and> cht_cigarId r = c)) (db_cigar_humidors db)"
  shows "contents db' = (contents db)((h, c) := None)"
proof -
  have "map_of (map (\<lambda>r. ((cht_humidorId r, cht_cigarId r), cht_count r)) (filter (\<lambda>r. \<not> (cht_humidorId r = h \<and> cht_cigarId r = c)) rows)) =
    (map_of (map (\<lambda>r. ((cht_humidorId r, cht_cigarId r), cht_count r)) rows))((h, c) := None)" for rows
    by (induction rows) (auto simp: fun_eq_iff)
  thus ?thesis
    by (simp add: contents_def assms)
qed

text \<open>The state in which \<open>moveCigar\<close> has removed the whole entry from its humidor.\<close>

definition take_all :: "HumidorCigar \<Rightarrow> db \<Rightarrow> db" where
  "take_all from db =
     db\<lparr>db_cigar_humidors := filter (\<lambda>r. \<not> (cht_humidorId r = hum_rowid (hc_humidor from) \<and> cht_cigarId r = cig_rowid (hc_cigar from)))
          (db_cigar_humidors db)\<rparr>"

lemma move_all_run:
  assumes "is_current db from" and "\<not> sint count < sint (hc_count from)"
  shows "collect (moveCigar now from to count) db =
     (case move_arrive now from to count (take_all from db) of
        (None, db) \<Rightarrow> (None, db)
      | (Some (Downstream e), db) \<Rightarrow> (Some e, db)
      | (Some _, db) \<Rightarrow> (None, db))"
proof -
  obtain r hr cr where "r \<in> set (db_cigar_humidors db)" "cht_humidorId r = ht_rowid hr" "cht_cigarId r = ct_rowid cr"
    and "hc_humidor from = humidorFactory hr" "hc_cigar from = cigarFactory cr"
    by (rule current_rows [OF assms(1)])
  hence "cigar_humidors_contains (hum_rowid (hc_humidor from)) (cig_rowid (hc_cigar from)) db"
    by (auto simp: cigar_humidors_contains_def filter_empty_conv)
  thus ?thesis
    using assms(2)
    by (simp add: collect_move CigarHumidor_remove_def Base_remove_def CigarHumidorTableQueries_def reading_def and_then_def
        cigar_humidors_remove_def modify_def take_all_def)
qed

text \<open>C8: moving all the cigars of an entry (the number asked for is not less than it holds), in a database that satisfies the invariant, for an entry as the database has it and a
  destination that exists, is not the humidor the cigars are in and can be printed, when the row ids of the history are not used up. The call succeeds and the holdings change as
  they should, the entry leaves the one humidor and the cigars arrive in
  the other, but the total of the humidor they leave is not reduced: it exceeds its holdings by the number of cigars the entry held.\<close>

theorem move_all_leaves_total:
  assumes "inventory_ok db" and "is_current db from" and "\<not> sint count < sint (hc_count from)"
    and "hum_rowid to \<in> ht_rowid ` set (db_humidors db)" and "hum_rowid to \<noteq> hum_rowid (hc_humidor from)"
    and "Humidor_toString_error to = None" and "next_rowid (db_history_seq db) \<noteq> None"
  shows "\<exists>db'. collect (moveCigar now from to count) db = (None, db') \<and>
    contents db' = put_in (take_out (contents db) (hum_rowid (hc_humidor from)) (cig_rowid (hc_cigar from)) count)
      (hum_rowid to) (cig_rowid (hc_cigar from)) count \<and>
    (\<forall>r \<in> set (db_humidors db'). ht_rowid r = hum_rowid (hc_humidor from) \<longrightarrow>
       ht_count r = holdings db' (hum_rowid (hc_humidor from)) + hc_count from)"
proof -
  let ?db = "take_all from db" and ?h = "hum_rowid (hc_humidor from)" and ?c = "cig_rowid (hc_cigar from)"
  obtain r hr cr where r: "r \<in> set (db_cigar_humidors db)" "cht_humidorId r = ht_rowid hr" "cht_cigarId r = ct_rowid cr"
    and e: "hc_humidor from = humidorFactory hr" "hc_cigar from = cigarFactory cr" "hc_count from = cht_count r"
    by (rule current_rows [OF assms(2)])
  have ok: "structure_ok db" "counts_ok db"
    using assms(1) by (simp_all add: inventory_ok_def structure_ok_def)
  obtain hkey where hkey: "next_rowid (db_history_seq db) = Some hkey"
    using assms(7) by auto
  obtain row where row: "row \<in> set (db_humidors ?db)" "ht_rowid row = hum_rowid to"
    using assms(4) by (auto simp: take_all_def)
  have "structure_ok ?db"
    by (rule structure_step [OF ok(1)])
      (use structure_keys [OF ok(1)] in \<open>auto simp: take_all_def holding_keys_def distinct_map_filter\<close>)
  then obtain db' where db': "move_arrive now from to count ?db = (None, db')"
      "contents db' = put_in (contents ?db) (hum_rowid to) ?c count"
      "db_humidors db' = set_count (hum_rowid to) (ht_count row + count) (db_humidors ?db)"
      "\<And>h. holdings db' h = holdings ?db h + (if h = hum_rowid to then count else 0)"
    using move_arrive_run [OF _ row _ assms(6), of "from" hkey now count] take_part_ok(4) [OF assms(1,2)] hkey
    by (auto simp: take_all_def)
  have "holdings ?db ?h = holdings db ?h - hc_count from"
    using holdings_remove [OF _ r, of ?db ?h] ok(1) by (simp add: take_all_def e structure_ok_def keys_ok_def)
  hence "\<forall>r \<in> set (db_humidors db'). ht_rowid r = ?h \<longrightarrow> ht_count r = holdings db' ?h + hc_count from"
    using ok(2) assms(5) by (auto simp: db'(3,4) set_count_def take_all_def counts_ok_def)
  thus ?thesis
    using db'(1,2) contents_remove [of ?db ?h ?c db] take_part_ok(3) [OF assms(1,2)] assms(3) move_all_run [OF assms(2,3), of now to]
    by (auto simp: take_out_def take_all_def)
qed

lemma short_text_error:
  "Humidor_toString_error h = None \<or> Humidor_toString_error h = Some StringIndexOutOfBounds"
  by (simp add: Humidor_toString_error_def prefix_error_def substring_def split: option.splits)

lemma short_notes_error: "hum_notes h = Some s \<Longrightarrow> length s < 10 \<Longrightarrow> Humidor_toString_error h = Some StringIndexOutOfBounds"
  by (simp add: Humidor_toString_error_def prefix_error_def substring_def)

text \<open>C9: moving some of the cigars of an entry, fewer than it holds, to a humidor with notes of fewer than ten characters that does not hold the cigar yet, in a database that
  satisfies the invariant and for an entry as the database has it. Printing the new entry for the
  log fails and undoes only the insertion: the cigars have left their humidor and have arrived nowhere, nothing is written to the history, and the flow ends without an exception.\<close>

theorem move_to_short_notes_loses:
  assumes "inventory_ok db" and "is_current db from" and "sint count < sint (hc_count from)"
    and "contents db (hum_rowid to, cig_rowid (hc_cigar from)) = None"
    and "hum_notes to = Some s" and "length s < 10"
  shows "\<exists>db'. collect (moveCigar now from to count) db = (None, db') \<and>
    contents db' = take_out (contents db) (hum_rowid (hc_humidor from)) (cig_rowid (hc_cigar from)) count \<and>
    db_history db' = db_history db"
proof -
  let ?db = "take_part from count db"
  have other: "(hum_rowid to, cig_rowid (hc_cigar from)) \<noteq> (hum_rowid (hc_humidor from), cig_rowid (hc_cigar from))"
    using assms(4) take_part_ok(3) [OF assms(1,2)] by auto
  hence none: "filter (\<lambda>r. cht_humidorId r = hum_rowid to \<and> cht_cigarId r = cig_rowid (hc_cigar from)) (db_cigar_humidors ?db) = []"
    using assms(4) take_part_ok(2) [OF assms(1,2), of count] by (simp flip: contents_None)
  have "move_arrive now from to count ?db = (Some StringIndexOutOfBounds,
      ?db\<lparr>db_last_insert_rowid := next_implicit_rowid (db_cigar_humidors ?db)\<rparr>)"
    by (simp add: move_arrive_def Let_def find_run_none none add_holding_run cigar_humidors_contains_def
        short_notes_error [OF assms(5,6)])
  moreover have "contents (d\<lparr>db_last_insert_rowid := k\<rparr>) = contents d" for d k
    by (simp add: contents_def)
  ultimately show ?thesis
    using take_part_ok(2,3) [OF assms(1,2)] assms(3) by (simp add: move_part_run [OF assms(2,3)] take_out_def take_part_def)
qed


section \<open>Changing the number of cigars in a humidor\<close>

lemma update_cigar_run:
  assumes "cig_rowid c \<in> ct_rowid ` set (db_cigars db)"
  shows "Base_update CigarsTableQueries c emit db =
    emit c (db\<lparr>db_cigars := map (\<lambda>r. if ct_rowid r = cig_rowid c then cigar_row (ct_rowid r) c else r) (db_cigars db)\<rparr>)"
  using assms
  by (subst Base_update_ok) (auto simp: CigarsTableQueries_def cigars_contains_def cigars_update_def modify_def filter_empty_conv)

text \<open>C10: \<open>updateCount\<close> sets the number of cigars of one holding and of the cigar itself and writes a history entry, but it does not touch the
  total of the humidor, so the totals agree with the holdings afterwards only if the number was not changed at all.\<close>

theorem update_count_effect:
  assumes "inventory_ok db" and "is_current db entity" and "next_rowid (db_history_seq db) \<noteq> None"
  shows "\<exists>db'. collect (updateCount now entity count price) db = (None, db') \<and>
    contents db' = (contents db)((hum_rowid (hc_humidor entity), cig_rowid (hc_cigar entity)) \<mapsto> count) \<and>
    executeAsOne (cigars_get (cig_rowid (hc_cigar entity))) db' = Inr ((hc_cigar entity)\<lparr>cig_count := count\<rparr>) \<and>
    db_humidors db' = db_humidors db \<and>
    (inventory_ok db' \<longleftrightarrow> count = hc_count entity)"
proof -
  let ?h = "hum_rowid (hc_humidor entity)" and ?c = "cig_rowid (hc_cigar entity)"
  obtain r hr cr where r: "r \<in> set (db_cigar_humidors db)" "cht_humidorId r = ht_rowid hr" "cht_cigarId r = ct_rowid cr"
    and hr: "hr \<in> set (db_humidors db)" and cr: "cr \<in> set (db_cigars db)"
    and e: "hc_humidor entity = humidorFactory hr" "hc_cigar entity = cigarFactory cr" "hc_count entity = cht_count r"
    by (rule current_rows [OF assms(2)])
  have ok: "structure_ok db" "counts_ok db"
    using assms(1) by (simp_all add: inventory_ok_def structure_ok_def)
  obtain hkey where hkey: "next_rowid (db_history_seq db) = Some hkey"
    using assms(3) by auto
  let ?c' = "(hc_cigar entity)\<lparr>cig_count := count\<rparr>"
  have here: "cig_rowid ?c' \<in> ct_rowid ` set (db_cigars db)"
    using cr by (simp add: e)
  obtain db' hist where run: "collect (updateCount now entity count price) db = (None, db')"
    and hold: "db_cigar_humidors db' = change_count ?h ?c count (db_cigar_humidors db)"
    and hum: "db_humidors db' = db_humidors db" "db_humidors_seq db' = db_humidors_seq db"
    and his: "db_history db' = db_history db @ [hist]" "db_history_seq db' = Suc (db_history_seq db)" "hist_rowid hist = hkey"
    and cig: "db_cigars db' = map (\<lambda>r. if ct_rowid r = cig_rowid ?c' then cigar_row (ct_rowid r) ?c' else r) (db_cigars db)"
      "db_cigars_seq db' = db_cigars_seq db"
    using r here
    by (simp add: collect_def updateCount_def Let_def catch_def flatMapConcat_def flowOf_def update_holding_run [of r] e
        add_history_run hkey update_cigar_run return_unit_def)
  have rowids: "map ct_rowid (db_cigars db') = map ct_rowid (db_cigars db)"
    by (simp add: cig comp_def)
  have ok': "structure_ok db'"
    by (rule structure_step [OF ok(1)]) (use structure_keys [OF ok(1)] hum his cig rowids hkey in \<open>auto simp: holding_keys_def hold\<close>)
  have total: "holdings db' h' = holdings db h' + (if h' = ht_rowid hr then count - cht_count r else 0)" for h'
    by (rule holdings_change_count [OF _ r]) (use ok(1) in \<open>simp_all add: structure_ok_def keys_ok_def hold e\<close>)
  have "counts_ok db' \<longleftrightarrow> count = hc_count entity"
    using ok(2) hr by (auto simp: counts_ok_def hum total e)
  hence "inventory_ok db' \<longleftrightarrow> count = hc_count entity"
    using ok' by (simp add: inventory_ok_def structure_ok_def)
  moreover have "contents db' = (contents db)((?h, ?c) \<mapsto> count)"
    by (rule contents_change [OF r(1)]) (simp_all add: hold e r)
  moreover have "executeAsOne (cigars_get ?c) db' = Inr ?c'"
  proof -
    have "cigar_row (cig_rowid ?c') ?c' \<in> set (db_cigars db')"
      using cr by (force simp: cig e)
    from get_cigar [OF _ this] ok' show ?thesis
      by (simp add: structure_ok_def cigar_round_trip)
  qed
  ultimately show ?thesis
    using run hum(1) by blast
qed

section \<open>Reading back what was stored\<close>

text \<open>C12: a history entry that was added reads back as it was given, with the humidors and the cigar that the database has: the two
  columns for the humidors are written and read in the same exchanged order.\<close>

theorem history_round_trip:
  assumes "keys_ok db" and "sint (his_rowid h) < 0" and "next_rowid (db_history_seq db) = Some key"
    and "executeAsOne (humidors_get (hum_rowid (his_humidorFrom h))) db = Inr (his_humidorFrom h)"
    and "executeAsOne (humidors_get (hum_rowid (his_humidorTo h))) db = Inr (his_humidorTo h)"
    and "his_cigar h = Some c" and "executeAsOne (cigars_get (cig_rowid c)) db = Inr c"
  shows "\<exists>db'. collect (Base_add HistoryTableQueries h) db = (None, db') \<and> keys_ok db' \<and>
    executeAsOne (history_get key) db' = Inr (h\<lparr>his_rowid := key\<rparr>)"
proof -
  let ?db = "db\<lparr>db_history := db_history db @ [history_row key h], db_history_seq := Suc (db_history_seq db), db_last_insert_rowid := key\<rparr>"
  have "keys_ok ?db"
    using assms(1) history_append_keys [OF assms(1,3) history_row_rowid, of ?db] by (simp add: keys_ok_def)
  moreover have "executeAsOne (humidors_get k) ?db = executeAsOne (humidors_get k) db"
      "executeAsOne (cigars_get k) ?db = executeAsOne (cigars_get k) db" for k
    by (simp_all add: executeAsOne_def humidors_get_def cigars_get_def)
  hence "historyFactory ?db (history_row key h) = Inr (h\<lparr>his_rowid := key\<rparr>)"
    using assms(4-7) by (simp add: historyFactory_def history_row_def history_type_round_trip)
  hence "executeAsOne (history_get key) ?db = Inr (h\<lparr>his_rowid := key\<rparr>)"
    using next_rowid_fresh(2) [OF assms(3), of "db_history db" hist_rowid] assms(1)
    by (simp add: executeAsOne_eq history_get_def keys_ok_def)
  moreover have "collect (Base_add HistoryTableQueries h) db = (None, ?db)"
    by (simp add: collect_def add_history_run assms(2,3) return_unit_def)
  ultimately show ?thesis
    by blast
qed

section \<open>Adding a humidor\<close>

lemma humidors_append_keys:
  assumes "keys_ok db" and "next_rowid (db_humidors_seq db) = Some key" and "ht_rowid r = key"
    and "db_humidors db' = db_humidors db @ [r]" and "db_humidors_seq db' = Suc (db_humidors_seq db)"
  shows "distinct (map ht_rowid (db_humidors db')) \<and> (\<forall>r \<in> set (db_humidors db'). unat (ht_rowid r) \<le> db_humidors_seq db')"
  using assms unat_next_rowid [OF assms(2)] next_rowid_fresh(1) [OF assms(2), of "db_humidors db" ht_rowid]
  by (auto simp: keys_ok_def le_Suc_eq)

text \<open>C13: adding a new empty humidor (negative row id, count 0) that can be printed, in a database that satisfies the invariant and whose row ids of humidors and of the history are
  not used up, succeeds and keeps the invariant and all holdings, and the humidor reads back as it was given, except that its price
  and its \<open>other\<close> field are lost: the statement that inserts it does not store them.\<close>

theorem add_humidor_drops_price:
  assumes "inventory_ok db" and "sint (hum_rowid h) < 0" and "hum_count h = 0" and "Humidor_toString_error h = None"
    and "next_rowid (db_humidors_seq db) = Some key" and "next_rowid (db_history_seq db) \<noteq> None"
  shows "\<exists>db'. collect (Humidors_add now h) db = (None, db') \<and> inventory_ok db' \<and> contents db' = contents db \<and>
    executeAsOne (humidors_get key) db' = Inr (h\<lparr>hum_rowid := key, hum_price := None, hum_other := None\<rparr>)"
proof -
  obtain hkey where hkey: "next_rowid (db_history_seq db) = Some hkey"
    using assms(6) by auto
  obtain db' row hist where run: "collect (Humidors_add now h) db = (None, db')"
    and hum: "db_humidors db' = db_humidors db @ [row]" "db_humidors_seq db' = Suc (db_humidors_seq db)"
      "ht_rowid row = key" "ht_count row = 0" "humidorFactory row = h\<lparr>hum_rowid := key, hum_price := None, hum_other := None\<rparr>"
    and his: "db_history db' = db_history db @ [hist]" "db_history_seq db' = Suc (db_history_seq db)" "hist_rowid hist = hkey"
    and same: "db_cigars db' = db_cigars db" "db_cigars_seq db' = db_cigars_seq db" "db_cigar_humidors db' = db_cigar_humidors db"
    using assms(2,3,4,5) hkey
    by (simp add: collect_def Humidors_add_def add_humidor_row_run humidors_add_def and_then_def add_history_run return_unit_def
        humidorFactory_def)
  have ok: "keys_ok db" "references_ok db" "counts_ok db"
    using assms(1) by (simp_all add: inventory_ok_def)
  have "keys_ok db'"
    using ok(1) humidors_append_keys [OF ok(1) assms(5) hum(3,1,2)] history_append_keys [OF ok(1) hkey his(3,1,2)]
    by (simp add: keys_ok_def same)
  moreover have "references_ok db'"
    using ok(2) by (auto simp: references_ok_def same hum)
  moreover have "counts_ok db'"
  proof -
    have "key \<notin> cht_humidorId ` set (db_cigar_humidors db)"
      using ok next_rowid_fresh(1) [OF assms(5), of "db_humidors db" ht_rowid]
      by (auto simp: references_ok_def keys_ok_def)
    hence "holdings db' key = 0"
      by (auto simp: holdings_def same image_iff intro!: arg_cong [of _ "[]" "\<lambda>rows. sum_list (map cht_count rows)", simplified] filter_False)
    thus ?thesis
      using ok(3) by (auto simp: counts_ok_def hum holdings_def same)
  qed
  moreover have "executeAsOne (humidors_get key) db' = Inr (h\<lparr>hum_rowid := key, hum_price := None, hum_other := None\<rparr>)"
    using get_humidor [OF \<open>keys_ok db'\<close>, of row] hum by simp
  ultimately show ?thesis
    using run by (simp add: inventory_ok_def contents_def same)
qed

text \<open>C14: a humidor with notes of fewer than ten characters cannot be added: the new row is printed for the log inside the transaction, printing takes
  the first ten characters of the notes, and the exception undoes the insertion.\<close>

theorem short_notes_prevent_adding:
  assumes "sint (hum_rowid h) < 0" and "hum_notes h = Some s" and "length s < 10" and "next_rowid (db_humidors_seq db) = Some key"
  shows "Humidors_add now h emit db = (Some StringIndexOutOfBounds, db\<lparr>db_last_insert_rowid := key\<rparr>)"
  using assms by (simp add: Humidors_add_def add_humidor_row_run humidors_add_def short_notes_error)

section \<open>A database with two humidors\<close>

definition sample_cigar :: Cigar where
  "sample_cigar =
     \<lparr>cig_rowid = -1, cig_name = [67, 49], cig_brand = None, cig_country = None, cig_date = None, cig_cigar = [82], cig_wrapper = [],
      cig_binder = [], cig_gauge = 50, cig_length = [53], cig_strength = Medium, cig_rating = None, cig_myrating = None,
      cig_notes = None, cig_filler = [], cig_link = None, cig_count = 10, cig_shopping = False, cig_favorites = True,
      cig_price = None, cig_other = None, cig_relations = None\<rparr>"

definition sample_humidor :: "long \<Rightarrow> long \<Rightarrow> kstring option \<Rightarrow> Humidor" where
  "sample_humidor k n notes =
     \<lparr>hum_rowid = k, hum_name = [72], hum_brand = [66], hum_holds = 50, hum_count = n, hum_temperature = Some 72, hum_humidity = None,
      hum_notes = notes, hum_link = None, hum_price = Some 7, hum_autoOpen = False, hum_sorting = None, hum_type = 0,
      hum_other = None\<rparr>"

definition sample_humidor_row :: "long \<Rightarrow> long \<Rightarrow> HumidorsTable" where
  "sample_humidor_row k n =
     \<lparr>ht_rowid = k, ht_name = [72], ht_brand = [66], ht_holds = 50, ht_count = n, ht_temperature = Some 72, ht_humidity = None,
      ht_notes = None, ht_link = None, ht_price = Some 7, ht_autoOpen = Some False, ht_sorting = None, ht_type = 0, ht_other = None\<rparr>"

definition sample_db :: db where
  "sample_db =
     \<lparr>db_cigars = [cigar_row 1 sample_cigar], db_cigars_seq = 1,
      db_humidors = [sample_humidor_row 1 10, sample_humidor_row 2 0], db_humidors_seq = 2,
      db_cigar_humidors = [\<lparr>cht_rowid = 1, cht_count = 10, cht_humidorId = 1, cht_cigarId = 1\<rparr>],
      db_history = [], db_history_seq = 0, db_images = [], db_images_seq = 0, db_last_insert_rowid = 1\<rparr>"

definition sample_entry :: HumidorCigar where
  "sample_entry = \<lparr>hc_count = 10, hc_humidor = sample_humidor 1 10 None, hc_cigar = sample_cigar\<lparr>cig_rowid := 1\<rparr>, hc_rowid = -1\<rparr>"

lemma sample_ok: "inventory_ok sample_db"
  by code_simp

lemma sample_current: "is_current sample_db sample_entry"
  by code_simp

lemma sample_seqs [simp]: "db_cigars_seq sample_db = 1" "db_humidors_seq sample_db = 2" "db_history_seq sample_db = 0"
  by (simp_all add: sample_db_def)

lemma sample_rowids [simp]: "ht_rowid ` set (db_humidors sample_db) = {1, 2}"
  by (simp add: sample_db_def sample_humidor_row_def)

lemma next_rowid_sample [simp]: "next_rowid 0 = Some 1" "next_rowid (Suc 0) = Some 2" "next_rowid 2 = Some 3"
  by (simp_all add: next_rowid_def)

lemma sample_fields [simp]:
  "hum_rowid (sample_humidor k n s) = k" "hum_count (sample_humidor k n s) = n" "hum_notes (sample_humidor k n s) = s"
  "Humidor_toString_error (sample_humidor k n None) = None"
  "hc_humidor sample_entry = sample_humidor 1 10 None" "hc_count sample_entry = 10" "cig_rowid (hc_cigar sample_entry) = 1"
  "cig_rowid sample_cigar = -1" "cig_count sample_cigar = 10"
  by (simp_all add: sample_humidor_def sample_entry_def sample_cigar_def Humidor_toString_error_def prefix_error_def)

lemma sample_renumbered:
  "(sample_humidor k n s)\<lparr>hum_rowid := k', hum_price := p, hum_other := None\<rparr> = (sample_humidor k' n s)\<lparr>hum_price := p\<rparr>"
  by (simp add: sample_humidor_def)

lemma sample_contents [simp]: "contents sample_db = [(1, 1) \<mapsto> 10]"
  by (simp add: contents_def sample_db_def)

theorem add_cigar_keeps_inventory_witness:
  "\<exists>db'. collect (Cigars_add 5 sample_cigar (sample_humidor 2 0 None)) sample_db = (None, db') \<and> inventory_ok db' \<and>
     contents db' = [(1, 1) \<mapsto> 10, (2, 2) \<mapsto> 10] \<and> executeAsOne (cigars_get 2) db' = Inr (sample_cigar\<lparr>cig_rowid := 2\<rparr>)"
  using add_cigar_keeps_inventory [OF sample_ok, of sample_cigar "sample_humidor 2 0 None" 2 5] by auto

theorem add_cigar_all_or_nothing_witness:
  "\<exists>e db'. Cigars_add 5 sample_cigar (sample_humidor 7 0 None) (\<lambda>_. return_unit) sample_db = (Some e, db') \<and>
     db' = sample_db\<lparr>db_last_insert_rowid := db_last_insert_rowid db'\<rparr>"
proof -
  have missing: "filter (\<lambda>r. cht_humidorId r = 7 \<and> cht_cigarId r = 2) (db_cigar_humidors sample_db) = []"
      "filter (\<lambda>r. ht_rowid r = 7) (db_humidors sample_db) = []"
    by (simp_all add: sample_db_def sample_humidor_row_def)
  have "\<exists>e. fst (Cigars_add 5 sample_cigar (sample_humidor 7 0 None) (\<lambda>_. return_unit) sample_db) = Some e"
    by (simp add: Cigars_add_def flatMapConcat_def flowOf_def runs cigar_humidors_contains_def reading_def Base_getSync_def
        executeAsOne_def HumidorsTableQueries_def humidors_get_def missing)
  then obtain e db' where "Cigars_add 5 sample_cigar (sample_humidor 7 0 None) (\<lambda>_. return_unit) sample_db = (Some e, db')"
    by (metis prod.collapse)
  thus ?thesis
    using add_cigar_all_or_nothing by blast
qed

theorem move_part_refines_witness:
  "\<exists>db'. collect (moveCigar 5 sample_entry (sample_humidor 2 0 None) 4) sample_db = (None, db') \<and> inventory_ok db' \<and>
     contents db' = [(1, 1) \<mapsto> 6, (2, 1) \<mapsto> 4]"
  using move_part_refines [OF sample_ok sample_current, of 4 "sample_humidor 2 0 None" 5] by (auto simp: put_in_def take_out_def)

theorem move_all_leaves_total_witness:
  "\<exists>db'. collect (moveCigar 5 sample_entry (sample_humidor 2 0 None) 10) sample_db = (None, db') \<and>
     contents db' = [(2, 1) \<mapsto> 10] \<and>
     (\<forall>r \<in> set (db_humidors db'). ht_rowid r = 1 \<longrightarrow> ht_count r = holdings db' 1 + 10)"
  using move_all_leaves_total [OF sample_ok sample_current, of 10 "sample_humidor 2 0 None" 5] by (auto simp: put_in_def take_out_def)

theorem move_to_short_notes_loses_witness:
  "\<exists>db'. collect (moveCigar 5 sample_entry (sample_humidor 2 0 (Some [100, 114, 121])) 4) sample_db = (None, db') \<and>
     contents db' = [(1, 1) \<mapsto> 6] \<and> db_history db' = db_history sample_db"
  using move_to_short_notes_loses [OF sample_ok sample_current, of 4 "sample_humidor 2 0 (Some [100, 114, 121])" "[100, 114, 121]" 5]
  by (auto simp: take_out_def)

theorem update_count_effect_witness:
  "\<exists>db'. collect (updateCount 5 sample_entry 3 None) sample_db = (None, db') \<and> contents db' = [(1, 1) \<mapsto> 3] \<and>
     db_humidors db' = db_humidors sample_db \<and> \<not> inventory_ok db'"
  using update_count_effect [OF sample_ok sample_current, of 5 3 None] by auto

theorem history_round_trip_witness:
  "\<exists>db'. collect (Base_add HistoryTableQueries
        \<lparr>his_rowid = -1, his_count = 4, his_date = 5, his_left = 4, his_price = None, his_type = Move,
         his_cigar = Some (sample_cigar\<lparr>cig_rowid := 1\<rparr>), his_humidorFrom = sample_humidor 1 10 None,
         his_humidorTo = sample_humidor 2 0 None\<rparr>) sample_db = (None, db') \<and> keys_ok db' \<and>
     executeAsOne (history_get 1) db' = Inr
        \<lparr>his_rowid = 1, his_count = 4, his_date = 5, his_left = 4, his_price = None, his_type = Move,
         his_cigar = Some (sample_cigar\<lparr>cig_rowid := 1\<rparr>), his_humidorFrom = sample_humidor 1 10 None,
         his_humidorTo = sample_humidor 2 0 None\<rparr>"
proof -
  have got: "executeAsOne (humidors_get 1) sample_db = Inr (sample_humidor 1 10 None)"
      "executeAsOne (humidors_get 2) sample_db = Inr (sample_humidor 2 0 None)"
      "executeAsOne (cigars_get 1) sample_db = Inr (sample_cigar\<lparr>cig_rowid := 1\<rparr>)"
    by code_simp+
  show ?thesis
    using history_round_trip [of sample_db "\<lparr>his_rowid = -1, his_count = 4, his_date = 5, his_left = 4, his_price = None, his_type = Move,
         his_cigar = Some (sample_cigar\<lparr>cig_rowid := 1\<rparr>), his_humidorFrom = sample_humidor 1 10 None,
         his_humidorTo = sample_humidor 2 0 None\<rparr>" 1] got sample_ok
    by (simp add: inventory_ok_def)
qed

theorem add_humidor_drops_price_witness:
  "\<exists>db'. collect (Humidors_add 5 (sample_humidor (-1) 0 None)) sample_db = (None, db') \<and> inventory_ok db' \<and>
     executeAsOne (humidors_get 3) db' = Inr ((sample_humidor 3 0 None)\<lparr>hum_price := None\<rparr>)"
  using add_humidor_drops_price [OF sample_ok, of "sample_humidor (-1) 0 None" 3 5]
  by (auto simp: sample_renumbered)

theorem short_notes_prevent_adding_witness:
  "Humidors_add 5 (sample_humidor (-1) 0 (Some [100, 114, 121])) (\<lambda>_. return_unit) sample_db =
     (Some StringIndexOutOfBounds, sample_db\<lparr>db_last_insert_rowid := 3\<rparr>)"
  by (rule short_notes_prevent_adding [of _ "[100, 114, 121]"]) simp_all

end
