(* ===== verification/App_Repository.thy ===== *)
theory App_Repository
  imports App_Inventory
begin

text \<open>
  The generic operations of \<open>SQLDelightBaseRepository\<close> against the contract of a table of entities. The locale states what
  a query class promises: its table is a finite map from row numbers to entities, \<open>get\<close> and \<open>contains\<close> read it,
  \<open>add\<close> extends it at a new number, \<open>update\<close> and \<open>remove\<close> change one entry. \<open>stored\<close> is what is
  left of an entity that is inserted, \<open>merged\<close> what becomes of an entry that is updated. The tables of the cigars, the humidors and the images satisfy it.
\<close>

locale entity_table =
  fixes Q :: "'a DatabaseQueries"
    and ok :: "db \<Rightarrow> bool"
    and entities :: "db \<Rightarrow> long \<Rightarrow> 'a option"
    and stored :: "'a \<Rightarrow> 'a"
    and merged :: "'a \<Rightarrow> 'a \<Rightarrow> 'a"
  assumes get_law: "ok db \<Longrightarrow> executeAsOne (dq_get Q k None) db = (case entities db k of None \<Rightarrow> Inl NoResult | Some e \<Rightarrow> Inr e)"
    and contains_law: "ok db \<Longrightarrow> dq_contains Q k None db = Inr (entities db k \<noteq> None)"
    and contains_entity_law: "ok db \<Longrightarrow> dq_contains_entity Q e db = Inr (entities db (dq_rowid Q e) \<noteq> None)"
    and add_law: "ok db \<Longrightarrow> dq_add Q e db = (None, db') \<Longrightarrow>
      ok db' \<and> entities db (db_last_insert_rowid db') = None \<and>
      entities db' = (entities db)(db_last_insert_rowid db' \<mapsto> stored (dq_set_rowid Q (db_last_insert_rowid db') e))"
    and update_law: "ok db \<Longrightarrow> entities db (dq_rowid Q e) = Some old \<Longrightarrow>
      \<exists>db'. dq_update Q e db = (None, db') \<and> ok db' \<and> entities db' = (entities db)(dq_rowid Q e \<mapsto> merged old e)"
    and remove_law: "ok db \<Longrightarrow> \<exists>db'. dq_remove Q k None db = (None, db') \<and> ok db' \<and> entities db' = (entities db)(k := None)"
begin

lemma add_new:
  assumes "ok db" and "sint (dq_rowid Q e) < 0" and "dq_add Q e db = (None, db1)"
    and "\<And>k. dq_toString Q (dq_set_rowid Q k e) = None"
  shows "\<exists>k db'. collect (Base_add Q e) db = (None, db') \<and> ok db' \<and> entities db k = None \<and>
    entities db' = (entities db)(k \<mapsto> stored (dq_set_rowid Q k e)) \<and>
    Base_getSync Q k db' = Inr (stored (dq_set_rowid Q k e))"
  using add_law [OF assms(1,3)] get_law assms
  by (intro exI [of _ "db_last_insert_rowid db1"] exI [of _ db1])
    (simp add: collect_def Base_add_run return_unit_def Base_getSync_def)

lemma add_existing:
  assumes "ok db" and "\<not> sint (dq_rowid Q e) < 0" and "entities db (dq_rowid Q e) \<noteq> None" and "dq_toString Q e = None"
  shows "Base_add Q e emit db = (Some EntityExists, db)"
  using assms by (simp add: Base_add_def reading_def contains_entity_law throw_def and_then_def log_message_def)

lemma update_existing:
  assumes "ok db" and "entities db (dq_rowid Q e) = Some old"
  shows "\<exists>db'. collect (Base_update Q e) db = (None, db') \<and> ok db' \<and> entities db' = (entities db)(dq_rowid Q e \<mapsto> merged old e) \<and>
    Base_getSync Q (dq_rowid Q e) db' = Inr (merged old e)"
proof -
  obtain db' where db': "dq_update Q e db = (None, db')" "ok db'" "entities db' = (entities db)(dq_rowid Q e \<mapsto> merged old e)"
    using update_law [OF assms] by blast
  hence "collect (Base_update Q e) db = (None, db')"
    using assms by (simp add: collect_def Base_update_ok contains_entity_law return_unit_def)
  thus ?thesis
    using db' get_law [OF db'(2), of "dq_rowid Q e"] by (auto simp: Base_getSync_def)
qed

lemma update_missing:
  assumes "ok db" and "entities db (dq_rowid Q e) = None" and "dq_toString Q e = None"
  shows "Base_update Q e emit db = (Some EntityMissing, db)"
  using assms by (simp add: Base_update_def reading_def contains_entity_law throw_def and_then_def log_message_def)

lemma remove_existing:
  assumes "ok db" and "entities db k \<noteq> None"
  shows "\<exists>db'. collect (Base_remove Q k None) db = (None, db') \<and> ok db' \<and> entities db' = (entities db)(k := None) \<and>
    Base_getSync Q k db' = Inl NoResult"
proof -
  obtain db' where db': "dq_remove Q k None db = (None, db')" "ok db'" "entities db' = (entities db)(k := None)"
    using remove_law [OF assms(1)] by blast
  hence "collect (Base_remove Q k None) db = (None, db')"
    using assms contains_law [OF assms(1), of k]
    by (simp add: collect_def Base_remove_def reading_def and_then_def return_unit_def)
  thus ?thesis
    using db' get_law [OF db'(2), of k] by (auto simp: Base_getSync_def)
qed

lemma remove_missing:
  assumes "ok db" and "entities db k = None"
  shows "Base_remove Q k None emit db = (Some EntityMissing, db)"
  using assms contains_law [OF assms(1), of k] by (simp add: Base_remove_def reading_def throw_def)

end

section \<open>Tables as maps\<close>

definition row_map :: "('r \<Rightarrow> long) \<Rightarrow> ('r \<Rightarrow> 'a) \<Rightarrow> 'r list \<Rightarrow> long \<Rightarrow> 'a option" where
  "row_map key f rows = map_of (map (\<lambda>r. (key r, f r)) rows)"

definition rows_ok :: "('r \<Rightarrow> long) \<Rightarrow> 'r list \<Rightarrow> nat \<Rightarrow> bool" where
  "rows_ok key rows seq \<longleftrightarrow> distinct (map key rows) \<and> (\<forall>r \<in> set rows. unat (key r) \<le> seq)"

lemma row_map_filter:
  assumes "distinct (map key rows)"
  shows "map f (filter (\<lambda>r. key r = k) rows) = (case row_map key f rows k of None \<Rightarrow> [] | Some e \<Rightarrow> [e])"
  using assms
proof (induction rows)
  case (Cons r rows)
  then show ?case
    by (auto simp: row_map_def filter_empty_conv image_iff map_of_eq_None_iff split: option.splits)
qed (simp add: row_map_def)

lemma row_map_none: "filter (\<lambda>r. key r = k) rows = [] \<longleftrightarrow> row_map key f rows k = None"
  by (auto simp: row_map_def filter_empty_conv map_of_eq_None_iff image_iff)

lemma row_map_append:
  assumes "rows_ok key rows seq" and "next_rowid seq = Some k" and "key r = k"
  shows "rows_ok key (rows @ [r]) (Suc seq)" and "row_map key f rows k = None"
    and "row_map key f (rows @ [r]) = (row_map key f rows)(k \<mapsto> f r)"
proof -
  have fresh: "k \<notin> key ` set rows" "unat k = Suc seq"
    using assms(1) next_rowid_fresh(1) [OF assms(2), of rows key] unat_next_rowid [OF assms(2)] by (auto simp: rows_ok_def)
  thus "rows_ok key (rows @ [r]) (Suc seq)"
    using assms(1,3) by (auto simp: rows_ok_def le_Suc_eq)
  show none: "row_map key f rows k = None"
    using fresh(1) by (auto simp: row_map_def map_of_eq_None_iff)
  show "row_map key f (rows @ [r]) = (row_map key f rows)(k \<mapsto> f r)"
    using none assms(3) by (auto simp: row_map_def fun_eq_iff map_add_def split: option.splits)
qed

lemma row_map_update:
  assumes "\<And>r. key (g r) = key r" and "row_map key f rows k = Some old" and "\<And>r. f r = old \<Longrightarrow> key r = k \<Longrightarrow> f (g r) = new"
    and "distinct (map key rows)"
  shows "row_map key f (map (\<lambda>r. if key r = k then g r else r) rows) = (row_map key f rows)(k \<mapsto> new)"
  using assms(2,4)
proof (induction rows)
  case (Cons r rows)
  show ?case
  proof (cases "key r = k")
    case True
    hence "map (\<lambda>r. if key r = k then g r else r) rows = rows"
      using Cons.prems by (intro map_idI) (auto simp: image_iff)
    thus ?thesis
      using True Cons.prems assms(1,3) by (auto simp: row_map_def fun_eq_iff)
  next
    case False
    thus ?thesis
      using Cons by (auto simp: row_map_def fun_eq_iff)
  qed
qed (simp add: row_map_def)

lemma rows_ok_update: "(\<And>r. key (g r) = key r) \<Longrightarrow> rows_ok key (map g rows) seq = rows_ok key rows seq"
  by (auto simp: rows_ok_def comp_def)

lemma row_map_remove: "row_map key f (filter (\<lambda>r. key r \<noteq> k) rows) = (row_map key f rows)(k := None)"
  by (induction rows) (auto simp: row_map_def fun_eq_iff)

lemma rows_ok_remove: "rows_ok key rows seq \<Longrightarrow> rows_ok key (filter P rows) seq"
  by (auto simp: rows_ok_def distinct_map_filter)

lemma executeAsOne_map:
  "distinct (map key rows) \<Longrightarrow> q db = Inr (map f (filter (\<lambda>r. key r = k) rows)) \<Longrightarrow>
   executeAsOne q db = (case row_map key f rows k of None \<Rightarrow> Inl NoResult | Some e \<Rightarrow> Inr e)"
  by (simp add: executeAsOne_def row_map_filter split: option.splits)

section \<open>The cigars, the humidors and the images\<close>

definition cigars_ok :: "db \<Rightarrow> bool" where
  "cigars_ok db \<longleftrightarrow> rows_ok ct_rowid (db_cigars db) (db_cigars_seq db)"

definition cigar_entities :: "db \<Rightarrow> long \<Rightarrow> Cigar option" where
  "cigar_entities db = row_map ct_rowid cigarFactory (db_cigars db)"

definition humidors_ok :: "db \<Rightarrow> bool" where
  "humidors_ok db \<longleftrightarrow> rows_ok ht_rowid (db_humidors db) (db_humidors_seq db)"

definition humidor_entities :: "db \<Rightarrow> long \<Rightarrow> Humidor option" where
  "humidor_entities db = row_map ht_rowid humidorFactory (db_humidors db)"

definition images_ok :: "db \<Rightarrow> bool" where
  "images_ok db \<longleftrightarrow> rows_ok img_rowid (db_images db) (db_images_seq db)"

definition image_entities :: "db \<Rightarrow> long \<Rightarrow> CigarImage option" where
  "image_entities db = row_map img_rowid (\<lambda>i. i) (db_images db)"

interpretation cigar_table: entity_table CigarsTableQueries cigars_ok cigar_entities "\<lambda>c. c" "\<lambda>_ c. c"
proof
  fix db db' :: db and k :: long and e old :: Cigar
  assume ok: "cigars_ok db"
  hence d: "distinct (map ct_rowid (db_cigars db))"
    by (simp add: cigars_ok_def rows_ok_def)
  show "executeAsOne (dq_get CigarsTableQueries k None) db = (case cigar_entities db k of None \<Rightarrow> Inl NoResult | Some e \<Rightarrow> Inr e)"
    unfolding cigar_entities_def by (rule executeAsOne_map [OF d]) (simp add: CigarsTableQueries_def cigars_get_def)
  show "dq_contains CigarsTableQueries k None db = Inr (cigar_entities db k \<noteq> None)"
    by (simp add: CigarsTableQueries_def cigars_contains_def cigar_entities_def row_map_none [where f = cigarFactory])
  show "dq_contains_entity CigarsTableQueries e db = Inr (cigar_entities db (dq_rowid CigarsTableQueries e) \<noteq> None)"
    by (simp add: CigarsTableQueries_def cigars_contains_def cigar_entities_def row_map_none [where f = cigarFactory])
  show "cigars_ok db' \<and> cigar_entities db (db_last_insert_rowid db') = None \<and>
      cigar_entities db' = (cigar_entities db)(db_last_insert_rowid db' \<mapsto> dq_set_rowid CigarsTableQueries (db_last_insert_rowid db') e)"
    if "dq_add CigarsTableQueries e db = (None, db')"
    using that ok row_map_append(1) [of ct_rowid "db_cigars db" "db_cigars_seq db"]
      row_map_append(2,3) [of ct_rowid "db_cigars db" "db_cigars_seq db" _ "cigar_row _ e" cigarFactory]
    by (auto simp: CigarsTableQueries_def cigars_add_def cigars_ok_def cigar_entities_def cigar_round_trip split: option.splits)
  show "\<exists>db'. dq_update CigarsTableQueries e db = (None, db') \<and> cigars_ok db' \<and>
      cigar_entities db' = (cigar_entities db)(dq_rowid CigarsTableQueries e \<mapsto> e)"
    if "cigar_entities db (dq_rowid CigarsTableQueries e) = Some old"
    using that ok row_map_update [of ct_rowid "\<lambda>r. cigar_row (ct_rowid r) e" cigarFactory "db_cigars db" "cig_rowid e" old e] d
      rows_ok_update [of ct_rowid "\<lambda>r. if ct_rowid r = cig_rowid e then cigar_row (ct_rowid r) e else r"]
    by (simp add: CigarsTableQueries_def cigars_update_def modify_def cigars_ok_def cigar_entities_def cigar_round_trip)
  show "\<exists>db'. dq_remove CigarsTableQueries k None db = (None, db') \<and> cigars_ok db' \<and> cigar_entities db' = (cigar_entities db)(k := None)"
    using ok by (simp add: CigarsTableQueries_def cigars_remove_def modify_def cigars_ok_def cigar_entities_def row_map_remove rows_ok_remove)
qed

interpretation humidor_table: entity_table HumidorsTableQueries humidors_ok humidor_entities
  "\<lambda>h. h\<lparr>hum_price := None, hum_other := None\<rparr>" "\<lambda>old h. h\<lparr>hum_price := hum_price old, hum_other := hum_other old\<rparr>"
proof
  fix db db' :: db and k :: long and e old :: Humidor
  let ?g = "\<lambda>r. r\<lparr>ht_name := hum_name e, ht_brand := hum_brand e, ht_holds := hum_holds e, ht_count := hum_count e,
                ht_temperature := hum_temperature e, ht_humidity := hum_humidity e, ht_notes := hum_notes e,
                ht_link := hum_link e, ht_autoOpen := Some (hum_autoOpen e), ht_sorting := hum_sorting e,
                ht_type := hum_type e\<rparr>"
  have keep: "rows_ok ht_rowid (map (\<lambda>r. if ht_rowid r = hum_rowid e then ?g r else r) rows) seq = rows_ok ht_rowid rows seq"
    for rows :: "HumidorsTable list" and seq
    by (rule rows_ok_update) simp
  assume ok: "humidors_ok db"
  hence d: "distinct (map ht_rowid (db_humidors db))"
    by (simp add: humidors_ok_def rows_ok_def)
  show "executeAsOne (dq_get HumidorsTableQueries k None) db = (case humidor_entities db k of None \<Rightarrow> Inl NoResult | Some e \<Rightarrow> Inr e)"
    unfolding humidor_entities_def by (rule executeAsOne_map [OF d]) (simp add: HumidorsTableQueries_def humidors_get_def)
  show "dq_contains HumidorsTableQueries k None db = Inr (humidor_entities db k \<noteq> None)"
    by (simp add: HumidorsTableQueries_def humidors_contains_def humidor_entities_def row_map_none [where f = humidorFactory])
  show "dq_contains_entity HumidorsTableQueries e db = Inr (humidor_entities db (dq_rowid HumidorsTableQueries e) \<noteq> None)"
    by (simp add: HumidorsTableQueries_def humidors_contains_def humidor_entities_def row_map_none [where f = humidorFactory])
  show "humidors_ok db' \<and> humidor_entities db (db_last_insert_rowid db') = None \<and>
      humidor_entities db' = (humidor_entities db)(db_last_insert_rowid db' \<mapsto>
        (dq_set_rowid HumidorsTableQueries (db_last_insert_rowid db') e)\<lparr>hum_price := None, hum_other := None\<rparr>)"
    if "dq_add HumidorsTableQueries e db = (None, db')"
  proof -
    let ?key = "db_last_insert_rowid db'"
    define row where "row = \<lparr>ht_rowid = ?key, ht_name = hum_name e, ht_brand = hum_brand e, ht_holds = hum_holds e, ht_count = hum_count e,
                ht_temperature = hum_temperature e, ht_humidity = hum_humidity e, ht_notes = hum_notes e,
                ht_link = hum_link e, ht_price = None, ht_autoOpen = Some (hum_autoOpen e), ht_sorting = hum_sorting e,
                ht_type = hum_type e, ht_other = None\<rparr>"
    have row: "next_rowid (db_humidors_seq db) = Some ?key" "ht_rowid row = ?key"
        "db_humidors db' = db_humidors db @ [row]" "db_humidors_seq db' = Suc (db_humidors_seq db)"
        "humidorFactory row = e\<lparr>hum_rowid := ?key, hum_price := None, hum_other := None\<rparr>"
      using that by (auto simp: HumidorsTableQueries_def humidors_add_def humidorFactory_def row_def split: option.splits)
    show ?thesis
      using row_map_append(1) [of ht_rowid "db_humidors db" "db_humidors_seq db" ?key row]
        row_map_append(2,3) [of ht_rowid "db_humidors db" "db_humidors_seq db" ?key row humidorFactory] ok row
      by (simp add: humidors_ok_def humidor_entities_def HumidorsTableQueries_def)
  qed
  show "\<exists>db'. dq_update HumidorsTableQueries e db = (None, db') \<and> humidors_ok db' \<and>
      humidor_entities db' = (humidor_entities db)(dq_rowid HumidorsTableQueries e \<mapsto>
        e\<lparr>hum_price := hum_price old, hum_other := hum_other old\<rparr>)"
    if "humidor_entities db (dq_rowid HumidorsTableQueries e) = Some old"
  proof -
    have "humidorFactory (?g r) = e\<lparr>hum_price := hum_price old, hum_other := hum_other old\<rparr>"
      if "humidorFactory r = old" "ht_rowid r = hum_rowid e" for r
      using that by (auto simp: humidorFactory_def)
    thus ?thesis
      using that ok d keep row_map_update [of ht_rowid ?g humidorFactory "db_humidors db" "hum_rowid e" old
          "e\<lparr>hum_price := hum_price old, hum_other := hum_other old\<rparr>"]
      by (simp add: HumidorsTableQueries_def humidors_update_def modify_def humidors_ok_def humidor_entities_def)
  qed
  show "\<exists>db'. dq_remove HumidorsTableQueries k None db = (None, db') \<and> humidors_ok db' \<and>
      humidor_entities db' = (humidor_entities db)(k := None)"
    using ok by (simp add: HumidorsTableQueries_def humidors_remove_def modify_def humidors_ok_def humidor_entities_def row_map_remove rows_ok_remove)
qed

interpretation image_table: entity_table ImagesTableQueries images_ok image_entities "\<lambda>i. i"
  "\<lambda>old i. old\<lparr>img_bytes := img_bytes i, img_type := img_type i, img_image := img_image i, img_notes := img_notes i\<rparr>"
proof
  fix db db' :: db and k :: long and e old :: CigarImage
  let ?g = "\<lambda>r. r\<lparr>img_bytes := img_bytes e, img_type := img_type e, img_image := img_image e, img_notes := img_notes e\<rparr>"
  have keep: "rows_ok img_rowid (map (\<lambda>r. if img_rowid r = img_rowid e then ?g r else r) rows) seq = rows_ok img_rowid rows seq"
    for rows :: "CigarImage list" and seq
    by (rule rows_ok_update) simp
  assume ok: "images_ok db"
  hence d: "distinct (map img_rowid (db_images db))"
    by (simp add: images_ok_def rows_ok_def)
  show "executeAsOne (dq_get ImagesTableQueries k None) db = (case image_entities db k of None \<Rightarrow> Inl NoResult | Some e \<Rightarrow> Inr e)"
    unfolding image_entities_def by (rule executeAsOne_map [OF d]) (simp add: ImagesTableQueries_def images_get_def)
  show "dq_contains ImagesTableQueries k None db = Inr (image_entities db k \<noteq> None)"
    by (simp add: ImagesTableQueries_def images_contains_def image_entities_def row_map_none [where f = "\<lambda>i. i"])
  show "dq_contains_entity ImagesTableQueries e db = Inr (image_entities db (dq_rowid ImagesTableQueries e) \<noteq> None)"
    by (simp add: ImagesTableQueries_def images_contains_def image_entities_def row_map_none [where f = "\<lambda>i. i"])
  show "images_ok db' \<and> image_entities db (db_last_insert_rowid db') = None \<and>
      image_entities db' = (image_entities db)(db_last_insert_rowid db' \<mapsto> dq_set_rowid ImagesTableQueries (db_last_insert_rowid db') e)"
    if "dq_add ImagesTableQueries e db = (None, db')"
    using that ok row_map_append(1) [of img_rowid "db_images db" "db_images_seq db"]
      row_map_append(2,3) [of img_rowid "db_images db" "db_images_seq db" _ "e\<lparr>img_rowid := _\<rparr>" "\<lambda>i. i"]
    by (auto simp: ImagesTableQueries_def images_add_def images_ok_def image_entities_def split: option.splits)
  show "\<exists>db'. dq_update ImagesTableQueries e db = (None, db') \<and> images_ok db' \<and>
      image_entities db' = (image_entities db)(dq_rowid ImagesTableQueries e \<mapsto> ?g old)"
    if "image_entities db (dq_rowid ImagesTableQueries e) = Some old"
    using that ok d row_map_update [of img_rowid ?g "\<lambda>i. i" "db_images db" "img_rowid e" old "?g old"] keep
    by (simp add: ImagesTableQueries_def images_update_def modify_def images_ok_def image_entities_def)
  show "\<exists>db'. dq_remove ImagesTableQueries k None db = (None, db') \<and> images_ok db' \<and> image_entities db' = (image_entities db)(k := None)"
    using ok by (simp add: ImagesTableQueries_def images_remove_def modify_def images_ok_def image_entities_def row_map_remove rows_ok_remove)
qed

text \<open>C11: the repository of the cigars is a map from row numbers to cigars: \<open>update\<close> of a stored cigar replaces exactly this cigar,
  \<open>remove\<close> deletes exactly this cigar, either fails with no effect for a number that is not stored, and \<open>getSync\<close> returns what the map holds.\<close>

theorem cigars_repository_refines_map:
  assumes "cigars_ok db"
  shows "(cigar_entities db (cig_rowid c) \<noteq> None \<longrightarrow>
       (\<exists>db'. collect (Base_update CigarsTableQueries c) db = (None, db') \<and> cigars_ok db' \<and>
              cigar_entities db' = (cigar_entities db)(cig_rowid c \<mapsto> c) \<and>
              Base_getSync CigarsTableQueries (cig_rowid c) db' = Inr c)) \<and>
     (cigar_entities db (cig_rowid c) = None \<longrightarrow> collect (Base_update CigarsTableQueries c) db = (Some EntityMissing, db)) \<and>
     (cigar_entities db k \<noteq> None \<longrightarrow>
       (\<exists>db'. collect (Base_remove CigarsTableQueries k None) db = (None, db') \<and> cigars_ok db' \<and>
              cigar_entities db' = (cigar_entities db)(k := None) \<and>
              Base_getSync CigarsTableQueries k db' = Inl NoResult)) \<and>
     (cigar_entities db k = None \<longrightarrow> collect (Base_remove CigarsTableQueries k None) db = (Some EntityMissing, db))"
proof (intro conjI impI)
  have simps: "dq_rowid CigarsTableQueries = cig_rowid" "dq_toString CigarsTableQueries c = None"
    by (simp_all add: CigarsTableQueries_def)
  show "\<exists>db'. collect (Base_update CigarsTableQueries c) db = (None, db') \<and> cigars_ok db' \<and>
              cigar_entities db' = (cigar_entities db)(cig_rowid c \<mapsto> c) \<and>
              Base_getSync CigarsTableQueries (cig_rowid c) db' = Inr c"
    if "cigar_entities db (cig_rowid c) \<noteq> None"
    using that cigar_table.update_existing [OF assms, of c] by (auto simp: simps)
  show "collect (Base_update CigarsTableQueries c) db = (Some EntityMissing, db)" if "cigar_entities db (cig_rowid c) = None"
    unfolding collect_def using that by (intro cigar_table.update_missing [OF assms]) (simp_all add: simps)
  show "\<exists>db'. collect (Base_remove CigarsTableQueries k None) db = (None, db') \<and> cigars_ok db' \<and>
              cigar_entities db' = (cigar_entities db)(k := None) \<and> Base_getSync CigarsTableQueries k db' = Inl NoResult"
    if "cigar_entities db k \<noteq> None"
    by (rule cigar_table.remove_existing [OF assms that])
  show "collect (Base_remove CigarsTableQueries k None) db = (Some EntityMissing, db)" if "cigar_entities db k = None"
    unfolding collect_def by (rule cigar_table.remove_missing [OF assms that])
qed

lemma sample_cigars: "cigars_ok sample_db" "cigar_entities sample_db 1 \<noteq> None" "cigar_entities sample_db 9 = None"
  by (simp_all add: cigars_ok_def rows_ok_def cigar_entities_def row_map_def sample_db_def)

theorem cigars_repository_refines_map_witness:
  "(\<exists>db'. collect (Base_update CigarsTableQueries (sample_cigar\<lparr>cig_rowid := 1, cig_gauge := 60\<rparr>)) sample_db = (None, db') \<and>
      Base_getSync CigarsTableQueries 1 db' = Inr (sample_cigar\<lparr>cig_rowid := 1, cig_gauge := 60\<rparr>)) \<and>
   collect (Base_remove CigarsTableQueries 9 None) sample_db = (Some EntityMissing, sample_db)"
  using cigars_repository_refines_map [OF sample_cigars(1), of "sample_cigar\<lparr>cig_rowid := 1, cig_gauge := 60\<rparr>" 9] sample_cigars(2,3)
  by auto

end
