(* ===== verification/Spec2Isabelle.thy ===== *)
theory Spec2Isabelle
  imports Ldb_Table Ldb_Handle_Table Ldb_Write_Batch App_Repository
begin

text \<open>
  \<^bold>\<open>The cigars application: its database and the storage engine it ships.\<close>

  \<^bold>\<open>The program.\<close> The repository is a Kotlin multiplatform application that keeps an inventory of cigars in humidors. Its shared code
  (\<open>src/shared/src/commonMain\<close>) stores the inventory in an SQLite database through generated queries; the screens call the repositories of
  \<open>databases/sqldelight\<close>. The iOS application bundles native libraries under \<open>src/iosApp/Pods\<close>; among them \<open>leveldb-library\<close> is a complete
  storage engine in C++, which the Firebase database and messaging libraries use for their own persistence. The
  development models these two parts: what the application does to its inventory, and the layers of the storage engine from byte encodings up to
  memtables, tables and iterators.

  \<^bold>\<open>The application\<close> (\<open>App_*\<close>). \<open>App_Database\<close> has the entities of \<open>databases/models\<close> as records, one record per table of the \<open>.sq\<close> files, and the
  state \<open>db\<close>: the rows of the five tables, their AUTOINCREMENT counters and \<open>last_insert_rowid()\<close>. Then come the query classes of \<open>databases/sqldelight/queries\<close>
  (one definition per query), the generic operations of \<open>SQLDelightBaseRepository\<close> over a record of queries (\<open>DatabaseQueries\<close>) and the operations of the humidor, cigar and
  cigar-in-humidor repositories. A Kotlin flow is the function that runs it with a collector, so that a collector runs
  inside the transaction of the code that emits to it, as it does in the program; \<open>catch\<close>, \<open>flatMapConcat\<close> and \<open>transactionWithResult\<close> are
  modelled with their treatment of exceptions. Printing an entity for the log is modelled as far as it can fail.
  \<open>App_Inventory\<close> states the invariant (\<open>inventory_ok\<close>: keys are unique and below their counters, holdings refer to existing rows, the total of a humidor is the sum of its
  holdings) and the abstract inventory (\<open>contents\<close>), and proves what adding, moving and changing counts do to them; the properties that name
  a loss or a wrong total are findings about the code. \<open>App_Repository\<close> has the contract of a table (\<open>entity_table\<close>), the
  laws of the generic repository inside it, and its instances for cigars, humidors and images.

  \<^bold>\<open>The storage engine\<close> (\<open>Ldb_*\<close>), bottom up, each theory one source file or a small group:
  \<^item> \<open>Bytes_Prelude\<close>: bytes, words and the list lemmas that all layers share. A buffer is a list of bytes; a pointer into a buffer is the rest of the buffer or an offset.
  \<^item> \<open>Ldb_Coding\<close> (\<open>util/coding\<close>): fixed and variable length integers, length-prefixed slices; round trips and refusal of truncated input.
  \<^item> \<open>Ldb_Comparator\<close> (\<open>include/leveldb/slice.h\<close>, \<open>util/comparator.cc\<close>): comparators as records of operations; the bytewise comparator and its separators.
  \<^item> \<open>Ldb_Status\<close>, \<open>Ldb_Logging\<close> (\<open>util/status.cc\<close>, \<open>util/logging.cc\<close>, \<open>db/filename.cc\<close>): statuses, decimal numbers, names of the database's files.
  \<^item> \<open>Ldb_Dbformat\<close> (\<open>db/dbformat\<close>): internal keys, their order (newest version first) and their separators.
  \<^item> \<open>Ldb_Filter\<close> (\<open>util/hash.cc\<close>, \<open>util/bloom.cc\<close>, \<open>table/filter_block.cc\<close>): Bloom filters and filter blocks have no false negatives. The locale \<open>filter_policy\<close> is the
    contract of a policy.
  \<^item> \<open>Ldb_Crc32c\<close> (\<open>util/crc32c\<close>): the table-driven checksum equals the bitwise one and detects bursts.
  \<^item> \<open>Ldb_Env\<close> (\<open>util/env_posix.cc\<close>, \<open>util/env.cc\<close>): files and whole-file operations over a parameter for the kernel, with an in-memory kernel as an instance.
  \<^item> \<open>Ldb_Log\<close> (\<open>db/log_writer.cc\<close>, \<open>db/log_reader.cc\<close>): the write-ahead log; what a log cut at any byte is read back as. The locales for reliable files are
    interpreted on the POSIX files over the in-memory kernel.
  \<^item> \<open>Ldb_Arena\<close>, \<open>Ldb_Skiplist\<close>, \<open>Ldb_Memtable\<close>, \<open>Ldb_Write_Batch\<close> (\<open>util/arena\<close>, \<open>util/random.h\<close>, \<open>db/skiplist.h\<close>, \<open>db/memtable\<close>, \<open>db/write_batch\<close>): in \<open>size_t\<close> arithmetic and over an \<open>operator new[]\<close> that may throw, memory handed
    out is disjoint (the locale \<open>array_allocator\<close> is what the arena relies on); as long as \<open>new\<close> does not throw (\<open>no_bad_alloc\<close>), the skip list refines a sorted set; a lookup in a memtable returns the newest visible version; batches are inserted as a whole.
  \<^item> \<open>Ldb_Block\<close> (\<open>table/block\<close>, \<open>table/block_builder\<close>): the prefix-compressed block is read back entry by entry in both directions, and
    \<open>Seek\<close> finds the first entry that is not below the target.
  \<^item> \<open>Ldb_Iterator\<close> (\<open>table/iterator.cc\<close>, \<open>table/iterator_wrapper.h\<close>, \<open>table/two_level_iterator.cc\<close>): the iterator interface as a record of operations, the locale \<open>cursor\<close>
    that says what it means to iterate over a sorted list, and the two-level iterator as a cursor over the concatenation of its blocks.
  \<^item> \<open>Ldb_Format\<close>, \<open>Ldb_Table_Builder\<close> (\<open>table/format\<close>, \<open>table/table_builder.cc\<close>, \<open>include/leveldb/options.h\<close>): block handles, the footer, reading a block with its
    checksum, and the builder. The locale \<open>table_build\<close> shows what the finished file consists of, byte for byte.
  \<^item> \<open>Ldb_Table\<close> (\<open>table/table.cc\<close>): opening a table, reading its filter, its iterator and lookups. The locale \<open>stored_table\<close> is a finished file behind a random access
    file; its index and data blocks are instances of \<open>sorted_block\<close> and its iterator of \<open>two_level\<close>, so a file written by the table builder is read back exactly and every
    key is found. The block cache is an interface of the model; the theorems are about tables without one, which is the default.
  \<^item> \<open>Ldb_Handle_Table\<close> (the class \<open>HandleTable\<close> of \<open>util/cache.cc\<close>): the hash table of the cache refines a map from keys to entries through any insertions, removals and resizes.

  \<^bold>\<open>Conventions.\<close> \<open>uint32_t\<close>, \<open>uint64_t\<close> and Kotlin's \<open>Long\<close> are words of their width, so wrap-around is the source's; sizes and offsets of buffers that exist are natural numbers. A class
  with virtual functions is a record of operations. A pointer comparison or a read outside its buffer, which is undefined in C++, is the value
  \<open>None\<close> of an option. Loops are structural recursion where the source counts, \<open>function\<close> with a termination proof where it
  consumes a buffer, and \<open>partial_function (option)\<close> where termination depends on the data (the searches of skip list
  and block, the iterators); the properties about these show that they return. The kernel, \<open>operator new[]\<close> of the arena and the time of day are parameters; allocations
  elsewhere (strings, vectors, the larger hash table of a resize) are taken to succeed, and assertions that only guard debug builds are dropped.

  \<^bold>\<open>Not modelled.\<close> Of the application: the user interface and its view models, camera, preferences, themes, the client of the cigar search service and
  the platform code, which are calls into Compose, platform and network libraries; the sorted and paged listings, whose ordering is
  SQLite's on expressions of mixed type; \<open>addAll\<close>, whose collector shares local variables with several flows. Of leveldb: the database object, its versions and compactions
  (\<open>db_impl.cc\<close>, \<open>version_set.cc\<close>), which are driven by threads and mutexes, and what is built on them (\<open>c.cc\<close>, \<open>repair.cc\<close>, \<open>table_cache.cc\<close>); the lists and reference counts of the LRU cache; the logger and histograms.
  The Objective-C and Swift libraries (Firebase, Google utilities, Promises) are written against Foundation and its runtime, whose
  semantics is not available here; the measurement libraries are binary.
\<close>

end
